(* ===== verification/Phonowire_Prelude.thy ===== *)
theory Phonowire_Prelude
  imports Main "HOL-Library.Word" "HOL-Library.Monad_Syntax"
begin

text \<open>
  Shared vocabulary of the development: machine integers and their checked operations,
  slices, byte orders, and panics.

  \<^item> Bytes and the integers that are laid out as bytes (\<open>u8\<close>, \<open>u16\<close>, \<open>u32\<close>) are words of that
    width.  Counters (\<open>u64\<close>, \<open>usize\<close>) are natural numbers whose operations write the bound
    out; \<open>usize\<close> has 64 bits, as on the Linux targets the receiver and the capture image are
    built for.  The length of a slice is the \<open>nat\<close> length of the list that models it.
  \<^item> A computation that may panic returns \<open>'a option\<close>, written with the \<open>'a run\<close> synonym:
    \<open>None\<close> is the panic and \<open>Some v\<close> the value returned.  A theorem that a call equals
    \<open>Some v\<close> therefore also says that it does not panic.
  \<^item> A Rust \<open>Result\<close> is a sum with \<open>Inl\<close> for \<open>Err\<close> and \<open>Inr\<close> for \<open>Ok\<close>.
\<close>

named_theorems checked_simps \<open>characterisations of the checked integer operations\<close>
named_theorems slice_simps \<open>evaluation of in-range slice operations\<close>

type_synonym u8 = "8 word"
type_synonym u16 = "16 word"
type_synonym u32 = "32 word"
type_synonym bytes = "u8 list"
type_synonym 'a run = "'a option"

abbreviation (input) panic :: "'a run" where
  "panic \<equiv> None"

section \<open>Checked integer operations\<close>

text \<open>
  \<open>u64\<close> and \<open>usize\<close> values that count something are natural numbers below the bound of their
  type, and every operation on them writes the bound out: \<open>checked_add\<close> is \<open>None\<close> exactly where
  the sum leaves the type, as in Rust, and \<open>saturating_add\<close> stops at the maximum.
\<close>

definition U16_MAX :: nat where "U16_MAX = 65535"
definition U32_MAX :: nat where "U32_MAX = 4294967295"
definition U64_MAX :: nat where "U64_MAX = 18446744073709551615"
definition USIZE_MAX :: nat where "USIZE_MAX = 18446744073709551615"

definition checked_add :: "nat \<Rightarrow> nat \<Rightarrow> nat \<Rightarrow> nat option" where
  "checked_add bound a b = (if a + b \<le> bound then Some (a + b) else None)"

definition checked_sub :: "nat \<Rightarrow> nat \<Rightarrow> nat option" where
  "checked_sub a b = (if b \<le> a then Some (a - b) else None)"

definition checked_mul :: "nat \<Rightarrow> nat \<Rightarrow> nat \<Rightarrow> nat option" where
  "checked_mul bound a b = (if a * b \<le> bound then Some (a * b) else None)"

definition saturating_add :: "nat \<Rightarrow> nat \<Rightarrow> nat \<Rightarrow> nat" where
  "saturating_add bound a b = min (a + b) bound"

text \<open>\<open>try_from\<close> a count into a narrower unsigned type with maximum \<open>bound\<close>.\<close>

definition try_from :: "nat \<Rightarrow> nat \<Rightarrow> nat option" where
  "try_from bound n = (if n \<le> bound then Some n else None)"

lemma checked_add_Some [checked_simps]:
  "checked_add bound a b = Some c \<longleftrightarrow> a + b \<le> bound \<and> c = a + b"
  by (auto simp: checked_add_def)

lemma checked_add_None [checked_simps]: "checked_add bound a b = None \<longleftrightarrow> bound < a + b"
  by (auto simp: checked_add_def)

lemma checked_sub_Some [checked_simps]:
  "checked_sub a b = Some c \<longleftrightarrow> b \<le> a \<and> c = a - b"
  by (auto simp: checked_sub_def)

lemma checked_sub_None [checked_simps]: "checked_sub a b = None \<longleftrightarrow> a < b"
  by (auto simp: checked_sub_def)

lemma checked_mul_Some [checked_simps]:
  "checked_mul bound a b = Some c \<longleftrightarrow> a * b \<le> bound \<and> c = a * b"
  by (auto simp: checked_mul_def)

lemma checked_mul_None [checked_simps]: "checked_mul bound a b = None \<longleftrightarrow> bound < a * b"
  by (auto simp: checked_mul_def)

lemma try_from_Some [checked_simps]: "try_from bound n = Some m \<longleftrightarrow> n \<le> bound \<and> m = n"
  by (auto simp: try_from_def)

lemma try_from_None [checked_simps]: "try_from bound n = None \<longleftrightarrow> bound < n"
  by (auto simp: try_from_def)

lemma unat_word_of_nat_less [simp]:
  "n < 2 ^ LENGTH('a) \<Longrightarrow> unat (word_of_nat n :: 'a::len word) = n"
  by (simp add: unat_of_nat take_bit_nat_eq_self)

section \<open>I/O errors\<close>

text \<open>
  \<open>std::io::Error\<close> is its kind and its operating-system code.  The kinds listed are those the
  sources distinguish; \<open>TooManyFiles\<close> is the kind the library gives to \<open>EMFILE\<close>.
\<close>

datatype ErrorKind =
    WouldBlock | Interrupted | WriteZero | ConnectionAborted | ConnectionReset | TimedOut
  | NetworkDown | NetworkUnreachable | HostUnreachable | OutOfMemory | TooManyFiles | OtherKind

record io_error =
  io_kind :: ErrorKind
  raw_os_error :: "int option"

definition error_other :: io_error where
  "error_other = \<lparr>io_kind = OtherKind, raw_os_error = None\<rparr>"

section \<open>Slices\<close>

text \<open>
  \<open>store xs i v\<close> is \<open>xs[i] = v\<close>, \<open>sub_slice xs i j\<close> the borrow \<open>&xs[i..j]\<close>, and
  \<open>copy_from_slice xs i j ys\<close> the statement \<open>xs[i..j].copy_from_slice(ys)\<close>; each panics where
  the range is outside the slice or the lengths differ.  \<open>put_slice\<close> writes a mutable borrow
  that started at \<open>i\<close> back into its array.
\<close>

definition store :: "'a list \<Rightarrow> nat \<Rightarrow> 'a \<Rightarrow> 'a list run" where
  "store xs i v = (if i < length xs then Some (xs[i := v]) else panic)"

definition fetch :: "'a list \<Rightarrow> nat \<Rightarrow> 'a run" where
  "fetch xs i = (if i < length xs then Some (xs ! i) else panic)"

definition sub_slice :: "'a list \<Rightarrow> nat \<Rightarrow> nat \<Rightarrow> 'a list run" where
  "sub_slice xs i j = (if i \<le> j \<and> j \<le> length xs then Some (take (j - i) (drop i xs)) else panic)"

definition put_slice :: "'a list \<Rightarrow> nat \<Rightarrow> 'a list \<Rightarrow> 'a list" where
  "put_slice xs i seg = take i xs @ seg @ drop (i + length seg) xs"

definition copy_from_slice :: "'a list \<Rightarrow> nat \<Rightarrow> nat \<Rightarrow> 'a list \<Rightarrow> 'a list run" where
  "copy_from_slice xs i j ys =
     (if i \<le> j \<and> j \<le> length xs \<and> length ys = j - i then Some (put_slice xs i ys) else panic)"

lemma length_put_slice [simp]:
  "i + length seg \<le> length xs \<Longrightarrow> length (put_slice xs i seg) = length xs"
  by (simp add: put_slice_def)

lemma sub_slice_in_range [slice_simps]:
  "i \<le> j \<Longrightarrow> j \<le> length xs \<Longrightarrow> sub_slice xs i j = Some (take (j - i) (drop i xs))"
  by (simp add: sub_slice_def)

lemma sub_slice_SomeD:
  "sub_slice xs i j = Some ys \<Longrightarrow> i \<le> j \<and> j \<le> length xs \<and> ys = take (j - i) (drop i xs)"
  by (auto simp: sub_slice_def split: if_splits)

lemma copy_from_slice_in_range [slice_simps]:
  "i + length ys = j \<Longrightarrow> j \<le> length xs \<Longrightarrow> copy_from_slice xs i j ys = Some (put_slice xs i ys)"
  by (auto simp: copy_from_slice_def)

lemma store_in_range [slice_simps]:
  "i < length xs \<Longrightarrow> store xs i v = Some (xs[i := v])"
  by (simp add: store_def)

lemma take_put_slice_self [simp]:
  "i \<le> length xs \<Longrightarrow> take (i + length seg) (put_slice xs i seg) = take i xs @ seg"
  by (simp add: put_slice_def)

lemma drop_put_slice_self [simp]:
  "i \<le> length xs \<Longrightarrow> drop (i + length seg) (put_slice xs i seg) = drop (i + length seg) xs"
  by (simp add: put_slice_def)

section \<open>Byte orders\<close>

definition to_be_bytes16 :: "u16 \<Rightarrow> bytes" where
  "to_be_bytes16 w = [word_of_nat (unat w div 256), word_of_nat (unat w mod 256)]"

definition from_be_bytes16 :: "u8 \<Rightarrow> u8 \<Rightarrow> u16" where
  "from_be_bytes16 hi lo = word_of_nat (unat hi * 256 + unat lo)"

definition to_le_bytes16 :: "u16 \<Rightarrow> bytes" where
  "to_le_bytes16 w = [word_of_nat (unat w mod 256), word_of_nat (unat w div 256)]"

definition to_le_bytes32 :: "u32 \<Rightarrow> bytes" where
  "to_le_bytes32 w =
     [word_of_nat (unat w mod 256), word_of_nat (unat w div 256 mod 256),
      word_of_nat (unat w div 65536 mod 256), word_of_nat (unat w div 16777216)]"

text \<open>The value a little-endian byte list denotes.\<close>

fun le_value :: "bytes \<Rightarrow> nat" where
  "le_value [] = 0"
| "le_value (b # bs) = unat b + 256 * le_value bs"

lemma u8_bound [simp]: "unat (b::u8) < 256"
  using unsigned_less [of b] by simp

lemma u16_bound [simp]: "unat (w::u16) < 65536"
  using unsigned_less [of w] by simp

lemma u32_bound [simp]: "unat (w::u32) < 4294967296"
  using unsigned_less [of w] by simp

lemma length_to_bytes [simp]:
  "length (to_be_bytes16 w) = 2" "length (to_le_bytes16 w) = 2" "length (to_le_bytes32 v) = 4"
  by (simp_all add: to_be_bytes16_def to_le_bytes16_def to_le_bytes32_def)

lemma unat_from_be_bytes16: "unat (from_be_bytes16 hi lo) = unat hi * 256 + unat lo"
proof -
  have "unat hi * 256 + unat lo < 2 ^ LENGTH(16)"
    using u8_bound [of hi] u8_bound [of lo] by (simp del: u8_bound)
  then show ?thesis unfolding from_be_bytes16_def by (rule unat_word_of_nat_less)
qed

lemma from_be_to_be16: "from_be_bytes16 (to_be_bytes16 w ! 0) (to_be_bytes16 w ! 1) = w"
proof -
  have "unat w div 256 < 256" using u16_bound [of w] by (simp add: less_mult_imp_div_less)
  then have "unat (from_be_bytes16 (to_be_bytes16 w ! 0) (to_be_bytes16 w ! 1)) = unat w"
    by (simp add: unat_from_be_bytes16 to_be_bytes16_def)
  then show ?thesis by (simp only: word_unat_eq_iff)
qed

lemma le_value_to_le32 [simp]: "le_value (to_le_bytes32 w) = unat w"
proof -
  have "unat w div 16777216 < 256" using u32_bound [of w] by (simp add: less_mult_imp_div_less)
  moreover have "n mod 256 + 256 * (n div 256 mod 256 + 256 * (n div 65536 mod 256 + 256 * (n div 16777216))) = n"
    for n :: nat by (simp add: div_mult2_eq [of n 256 256, simplified] div_mult2_eq [of n 256 65536, simplified]
        div_mult2_eq [of "n div 256" 256 256, simplified])
  ultimately show ?thesis by (simp add: to_le_bytes32_def)
qed

lemma le_value_to_le16 [simp]: "le_value (to_le_bytes16 w) = unat w"
proof -
  have "unat w div 256 < 256" using u16_bound [of w] by (simp add: less_mult_imp_div_less)
  then show ?thesis by (simp add: to_le_bytes16_def)
qed

end
