(* ===== verification/Link_Order.thy ===== *)
theory Link_Order
  imports Phonowire_Prelude
begin

text \<open>
  FIFO membership with constant-time unlinking: the doubly linked \<open>Order\<close> of
  \<open>crates/phonowire-receiver/src/scheduler.rs\<close>, and the contract its clients use.  The links are
  a map from tokens; looking up a neighbour that is missing is the panic of \<open>link_mut\<close>.  The
  theory shows that the pointer structure of a duplicate-free list of tokens is closed under
  every operation, each acting on the list as the obvious list function.
\<close>

section \<open>The linked order\<close>

type_synonym Token = nat

record Links =
  previous_link :: "Token option"
  next_link :: "Token option"

record Order =
  first_token :: "Token option"
  last_token :: "Token option"
  links :: "Token \<rightharpoonup> Links"

definition Order_default :: Order where
  "Order_default = \<lparr>first_token = None, last_token = None, links = Map.empty\<rparr>"

definition link_mut :: "Order \<Rightarrow> Token \<Rightarrow> (Links \<Rightarrow> Links) \<Rightarrow> Order run" where
  "link_mut d t f = do { l \<leftarrow> links d t; Some (d\<lparr>links := (links d)(t \<mapsto> f l)\<rparr>) }"

definition push_back :: "Order \<Rightarrow> Token \<Rightarrow> Order run" where
  "push_back d t =
     (if links d t \<noteq> None then Some d
      else do {
        let d1 = d\<lparr>links := (links d)(t \<mapsto> \<lparr>previous_link = last_token d, next_link = None\<rparr>)\<rparr>;
        d2 \<leftarrow> (case last_token d of
               Some l \<Rightarrow> link_mut d1 l (\<lambda>k. k\<lparr>next_link := Some t\<rparr>)
             | None \<Rightarrow> Some (d1\<lparr>first_token := Some t\<rparr>));
        Some (d2\<lparr>last_token := Some t\<rparr>)
      })"

definition order_remove :: "Order \<Rightarrow> Token \<Rightarrow> Order run" where
  "order_remove d t =
     (case links d t of
        None \<Rightarrow> Some d
      | Some k \<Rightarrow> do {
          let d0 = d\<lparr>links := (links d)(t := None)\<rparr>;
          d1 \<leftarrow> (case previous_link k of
                 Some p \<Rightarrow> link_mut d0 p (\<lambda>j. j\<lparr>next_link := next_link k\<rparr>)
               | None \<Rightarrow> Some (d0\<lparr>first_token := next_link k\<rparr>));
          (case next_link k of
             Some n \<Rightarrow> link_mut d1 n (\<lambda>j. j\<lparr>previous_link := previous_link k\<rparr>)
           | None \<Rightarrow> Some (d1\<lparr>last_token := previous_link k\<rparr>))
        })"

definition pop_front :: "Order \<Rightarrow> (Order \<times> Token option) run" where
  "pop_front d =
     (case first_token d of
        None \<Rightarrow> Some (d, None)
      | Some t \<Rightarrow> do { d' \<leftarrow> order_remove d t; Some (d', Some t) })"

text \<open>\<open>self.queue.links.len()\<close>.\<close>

definition links_len :: "Order \<Rightarrow> nat" where
  "links_len d = card (dom (links d))"

section \<open>The pointer structure of a list\<close>

text \<open>
  \<open>segment p xs n\<close> links the tokens \<open>xs\<close> in a row, with \<open>p\<close> before the first and \<open>n\<close> after the
  last.
\<close>

definition front_of :: "'a list \<Rightarrow> 'a option \<Rightarrow> 'a option" where
  "front_of xs d = (case xs of [] \<Rightarrow> d | x # _ \<Rightarrow> Some x)"

definition back_of :: "'a list \<Rightarrow> 'a option \<Rightarrow> 'a option" where
  "back_of xs d = (if xs = [] then d else Some (last xs))"

fun segment :: "Token option \<Rightarrow> Token list \<Rightarrow> Token option \<Rightarrow> (Token \<rightharpoonup> Links)" where
  "segment p [] n = Map.empty"
| "segment p (x # xs) n =
     (segment (Some x) xs n)(x \<mapsto> \<lparr>previous_link = p, next_link = front_of xs n\<rparr>)"

definition order_of :: "Token list \<Rightarrow> Order" where
  "order_of xs = \<lparr>first_token = front_of xs None, last_token = back_of xs None, links = segment None xs None\<rparr>"

lemma front_of_simps [simp]:
  "front_of [] d = d" "front_of (x # xs) d = Some x"
  by (simp_all add: front_of_def)

lemma back_of_simps [simp]:
  "back_of [] d = d" "back_of (xs @ [x]) d = Some x" "back_of (x # xs) d = back_of xs (Some x)"
  by (simp_all add: back_of_def)

lemma front_of_append [simp]: "front_of (xs @ ys) d = front_of xs (front_of ys d)"
  by (cases xs) simp_all

lemma back_of_append [simp]: "back_of (xs @ ys) d = back_of ys (back_of xs d)"
  by (induction xs arbitrary: d) simp_all

lemma dom_segment [simp]: "dom (segment p xs n) = set xs"
  by (induction xs arbitrary: p) auto

lemma segment_None [simp]: "segment p xs n t = None \<longleftrightarrow> t \<notin> set xs"
  using dom_segment [of p xs n] by (metis domIff)

lemma None_segment [simp]: "None = segment p xs n t \<longleftrightarrow> t \<notin> set xs"
  using segment_None [of p xs n t] by metis

lemma segment_SomeD: "segment p xs n t = Some k \<Longrightarrow> t \<in> set xs"
  using segment_None [of p xs n t] by auto

lemma segment_append:
  "distinct (xs @ ys) \<Longrightarrow>
   segment p (xs @ ys) n = segment p xs (front_of ys n) ++ segment (back_of xs p) ys n"
proof (induction xs arbitrary: p)
  case (Cons x xs)
  then show ?case
    by (auto simp: map_add_def fun_eq_iff split: option.splits dest: segment_SomeD)
qed simp

lemma segment_front:
  "xs \<noteq> [] \<Longrightarrow>
   \<exists>k. segment p xs n (hd xs) = Some k \<and>
     (segment p xs n)(hd xs \<mapsto> k\<lparr>previous_link := q\<rparr>) = segment q xs n"
  by (cases xs) auto

lemma segment_back:
  "\<lbrakk>xs \<noteq> []; distinct xs\<rbrakk> \<Longrightarrow>
   \<exists>k. segment p xs n (last xs) = Some k \<and>
     (segment p xs n)(last xs \<mapsto> k\<lparr>next_link := m\<rparr>) = segment p xs m"
proof (induction xs arbitrary: p)
  case (Cons x xs)
  show ?case
  proof (cases "xs = []")
    case False
    with Cons obtain k where k: "segment (Some x) xs n (last xs) = Some k"
      "(segment (Some x) xs n)(last xs \<mapsto> k\<lparr>next_link := m\<rparr>) = segment (Some x) xs m"
      by fastforce
    have "last xs \<noteq> x" using False Cons.prems by auto
    moreover have "front_of xs n = front_of xs m" using False by (cases xs) auto
    ultimately show ?thesis using False k by (auto simp flip: k(2) simp: fun_upd_twist)
  qed (auto simp: fun_eq_iff)
qed simp

section \<open>Every operation acts on the list\<close>

lemma order_of_Nil: "order_of [] = Order_default"
  by (simp add: order_of_def Order_default_def)

lemma first_order_of [simp]: "first_token (order_of xs) = front_of xs None"
  by (simp add: order_of_def)

lemma links_order_of [simp]: "links (order_of xs) t = None \<longleftrightarrow> t \<notin> set xs"
  by (simp add: order_of_def)

lemma links_len_order_of [simp]: "distinct xs \<Longrightarrow> links_len (order_of xs) = length xs"
  by (simp add: links_len_def order_of_def distinct_card)

lemma push_back_order_of:
  assumes "distinct xs"
  shows "push_back (order_of xs) t = Some (order_of (if t \<in> set xs then xs else xs @ [t]))"
proof (cases "t \<in> set xs \<or> xs = []")
  case True
  then show ?thesis by (auto simp: push_back_def) (simp add: order_of_def)
next
  case False
  then have ne: "xs \<noteq> []" and t: "t \<notin> set xs" by auto
  obtain k where k: "segment None xs None (last xs) = Some k"
    "(segment None xs None)(last xs \<mapsto> k\<lparr>next_link := Some t\<rparr>) = segment None xs (Some t)"
    using segment_back [OF ne assms, of None None "Some t"] by blast
  have last: "last xs \<noteq> t" "back_of xs None = Some (last xs)" using ne t by (auto simp: back_of_def)
  have app: "segment None (xs @ [t]) None =
      (segment None xs (Some t))(t \<mapsto> \<lparr>previous_link = Some (last xs), next_link = None\<rparr>)"
    using segment_append [of xs "[t]" None None] assms t last(2) by (simp add: map_add_upd)
  show ?thesis using t last k(1) k(2) [symmetric] app ne
    by (simp add: push_back_def order_of_def link_mut_def fun_upd_twist) (cases xs; simp)
qed

lemma order_remove_order_of:
  assumes "distinct xs"
  shows "order_remove (order_of xs) t = Some (order_of (remove1 t xs))"
proof (cases "t \<in> set xs")
  case False
  then have "links (order_of xs) t = None" by simp
  with False show ?thesis by (simp add: order_remove_def remove1_idem del: links_order_of)
next
  case True
  then obtain as bs where xs: "xs = as @ t # bs" by (meson split_list)
  with assms have dist: "distinct as" "distinct bs" "t \<notin> set as" "t \<notin> set bs" "set as \<inter> set bs = {}"
    by auto
  let ?A = "segment None as (Some t)" and ?B = "segment (Some t) bs None"
  let ?k = "\<lparr>previous_link = back_of as None, next_link = front_of bs None\<rparr>"
  have seg: "segment None xs None = ?A ++ ?B(t \<mapsto> ?k)"
    using assms by (simp add: xs segment_append)
  then have k: "segment None xs None t = Some ?k" by simp
  have del: "(segment None xs None)(t := None) = ?A ++ ?B"
    using dist by (auto simp: seg map_add_def fun_eq_iff split: option.splits)
  have result: "remove1 t xs = as @ bs" using dist by (simp add: xs remove1_append)
  have goal_links: "segment None (as @ bs) None = segment None as (front_of bs None) ++ segment (back_of as None) bs None"
    using dist by (simp add: segment_append)
  have upd_A: "as \<noteq> [] \<Longrightarrow> \<exists>j. (?A ++ ?B) (last as) = Some j \<and>
      (?A ++ ?B)(last as \<mapsto> j\<lparr>next_link := m\<rparr>) = segment None as m ++ ?B" for m
  proof -
    assume ne: "as \<noteq> []"
    then have nb: "last as \<notin> dom ?B" using dist(5) by (metis disjoint_iff last_in_set dom_segment)
    obtain j where "?A (last as) = Some j" "?A(last as \<mapsto> j\<lparr>next_link := m\<rparr>) = segment None as m"
      using segment_back [OF ne dist(1), of None "Some t" m] by blast
    then show ?thesis
      by (metis map_add_dom_app_simps(3) map_add_upd_left nb)
  qed
  have upd_B: "bs \<noteq> [] \<Longrightarrow> \<exists>j. (A ++ ?B) (hd bs) = Some j \<and>
      (A ++ ?B)(hd bs \<mapsto> j\<lparr>previous_link := q\<rparr>) = A ++ segment q bs None" for A q
  proof -
    assume "bs \<noteq> []"
    then obtain j where j: "?B (hd bs) = Some j" "?B(hd bs \<mapsto> j\<lparr>previous_link := q\<rparr>) = segment q bs None"
      using segment_front [of bs "Some t" None q] by blast
    have "(A ++ ?B) (hd bs) = Some j" using j(1) by (rule map_add_find_right)
    then show ?thesis using j(2) by (metis map_add_upd)
  qed
  let ?m = "front_of bs None" and ?q = "back_of as None"
  have left: "(case ?q of
        Some p \<Rightarrow> link_mut ((order_of xs)\<lparr>links := ?A ++ ?B\<rparr>) p (\<lambda>j. j\<lparr>next_link := ?m\<rparr>)
      | None \<Rightarrow> Some ((order_of xs)\<lparr>links := ?A ++ ?B, first_token := ?m\<rparr>)) =
    Some \<lparr>first_token = front_of as ?m, last_token = back_of xs None, links = segment None as ?m ++ ?B\<rparr>"
  proof (cases "as = []")
    case True
    then show ?thesis by (simp add: order_of_def)
  next
    case False
    then have "?q = Some (last as)" "front_of xs None = front_of as ?m"
      by (auto simp: back_of_def front_of_def xs split: list.split)
    moreover obtain j where "(?A ++ ?B) (last as) = Some j"
      "(?A ++ ?B)(last as \<mapsto> j\<lparr>next_link := ?m\<rparr>) = segment None as ?m ++ ?B"
      using upd_A [OF False, of ?m] by (elim exE conjE) (rule that)
    ultimately show ?thesis by (simp add: link_mut_def order_of_def del: map_add_Some_iff)
  qed
  have right: "(case ?m of
        Some n \<Rightarrow> link_mut \<lparr>first_token = f, last_token = l, links = A ++ ?B\<rparr> n (\<lambda>j. j\<lparr>previous_link := ?q\<rparr>)
      | None \<Rightarrow> Some \<lparr>first_token = f, last_token = ?q, links = A ++ ?B\<rparr>) =
    Some \<lparr>first_token = f, last_token = (if bs = [] then ?q else l), links = A ++ segment ?q bs None\<rparr>" for f l A
  proof (cases "bs = []")
    case False
    then have "?m = Some (hd bs)" by (simp add: front_of_def split: list.split)
    moreover obtain j where "(A ++ ?B) (hd bs) = Some j"
      "(A ++ ?B)(hd bs \<mapsto> j\<lparr>previous_link := ?q\<rparr>) = A ++ segment ?q bs None"
      using upd_B [OF False, of A ?q] by (elim exE conjE) (rule that)
    ultimately show ?thesis using False by (simp add: link_mut_def del: map_add_Some_iff)
  qed simp
  have backs: "back_of (as @ bs) None = (if bs = [] then ?q else back_of xs None)"
    by (simp add: xs) (simp add: back_of_def)
  have k': "links (order_of xs) t = Some ?k" "(links (order_of xs))(t := None) = ?A ++ ?B"
    using k del by (simp_all add: order_of_def)
  have "order_remove (order_of xs) t =
      Some \<lparr>first_token = front_of as ?m, last_token = (if bs = [] then ?q else back_of xs None),
            links = segment None as ?m ++ segment ?q bs None\<rparr>"
    by (simp only: order_remove_def k' option.case Let_def Links.simps left bind.bind_lunit Order.simps right)
  also have "\<dots> = Some (order_of (as @ bs))"
    using goal_links by (simp add: order_of_def backs del: back_of_append)
  finally show ?thesis by (simp add: result)
qed

lemma pop_front_order_of:
  assumes "distinct xs"
  shows "pop_front (order_of xs) = Some (order_of (tl xs), front_of xs None)"
proof (cases xs)
  case (Cons x ys)
  then show ?thesis using order_remove_order_of [OF assms, of x] by (simp add: pop_front_def)
qed (simp add: pop_front_def)

text \<open>The pointers determine the list.\<close>

lemma segment_inject:
  assumes "distinct xs" "distinct ys"
  shows "front_of xs None = front_of ys None \<Longrightarrow> segment p xs None = segment p ys None \<Longrightarrow> xs = ys"
  using assms
proof (induction xs arbitrary: ys p)
  case Nil
  then show ?case by (cases ys) auto
next
  case (Cons x xs)
  then obtain ys' where ys: "ys = x # ys'" by (cases ys) auto
  have eq: "segment p (x # xs) None = segment p (x # ys') None" using Cons.prems(2) by (simp only: ys)
  have "segment p (x # xs) None x = segment p (x # ys') None x" by (simp only: eq)
  then have "front_of xs None = front_of ys' None" by simp
  moreover have "(segment p (x # xs) None)(x := None) = segment (Some x) xs None"
    "(segment p (x # ys') None)(x := None) = segment (Some x) ys' None"
    using Cons.prems(3,4) by (auto simp: ys fun_eq_iff)
  then have "segment (Some x) xs None = segment (Some x) ys' None" by (metis eq)
  ultimately show ?case using Cons.IH [of ys' "Some x"] Cons.prems(3,4) by (simp add: ys)
qed

lemma order_of_inject: "\<lbrakk>distinct xs; distinct ys; order_of xs = order_of ys\<rbrakk> \<Longrightarrow> xs = ys"
  using segment_inject [of xs ys None] by (simp add: order_of_def)

section \<open>The contract of a token queue\<close>

datatype order_op = Push Token | Unlink Token | Pop

fun list_op :: "order_op \<Rightarrow> Token list \<Rightarrow> Token list \<times> Token option" where
  "list_op (Push t) xs = (if t \<in> set xs then xs else xs @ [t], None)"
| "list_op (Unlink t) xs = (remove1 t xs, None)"
| "list_op Pop xs = (tl xs, front_of xs None)"

fun list_run :: "order_op list \<Rightarrow> Token list \<Rightarrow> Token list \<times> Token option list" where
  "list_run [] xs = (xs, [])"
| "list_run (p # ps) xs =
     (let (ys, r) = list_op p xs; (zs, rs) = list_run ps ys in (zs, r # rs))"

fun order_op_exec :: "order_op \<Rightarrow> Order \<Rightarrow> (Order \<times> Token option) run" where
  "order_op_exec (Push t) d = map_option (\<lambda>d'. (d', None)) (push_back d t)"
| "order_op_exec (Unlink t) d = map_option (\<lambda>d'. (d', None)) (order_remove d t)"
| "order_op_exec Pop d = pop_front d"

fun order_run :: "order_op list \<Rightarrow> Order \<Rightarrow> (Order \<times> Token option list) run" where
  "order_run [] d = Some (d, [])"
| "order_run (p # ps) d =
     do { (d1, r) \<leftarrow> order_op_exec p d; (d2, rs) \<leftarrow> order_run ps d1; Some (d2, r # rs) }"

locale token_queue =
  fixes exec :: "order_op \<Rightarrow> 'd \<Rightarrow> ('d \<times> Token option) option"
    and repr :: "'d \<Rightarrow> Token list \<Rightarrow> bool"
  assumes exec_law: "repr d xs \<Longrightarrow> \<exists>d'. exec p d = Some (d', snd (list_op p xs)) \<and> repr d' (fst (list_op p xs))"
    and repr_distinct: "repr d xs \<Longrightarrow> distinct xs"
begin

fun exec_all :: "order_op list \<Rightarrow> 'd \<Rightarrow> ('d \<times> Token option list) option" where
  "exec_all [] d = Some (d, [])"
| "exec_all (p # ps) d =
     do { (d1, r) \<leftarrow> exec p d; (d2, rs) \<leftarrow> exec_all ps d1; Some (d2, r # rs) }"

lemma exec_all_list_run:
  "repr d xs \<Longrightarrow> \<exists>d'. exec_all ps d = Some (d', snd (list_run ps xs)) \<and> repr d' (fst (list_run ps xs))"
proof (induction ps arbitrary: d xs)
  case (Cons p ps)
  obtain d1 where d1: "exec p d = Some (d1, snd (list_op p xs))" "repr d1 (fst (list_op p xs))"
    using exec_law [OF Cons.prems] by blast
  from Cons.IH [OF d1(2)] d1(1) show ?case by (auto simp: split_beta Let_def)
qed simp

text \<open>No token is overtaken: it leaves after as many pops as there are tokens before it.\<close>

lemma no_overtaking:
  "\<lbrakk>repr d xs; t \<in> set xs; Unlink t \<notin> set ps; length (takeWhile ((\<noteq>) t) xs) < count_list ps Pop\<rbrakk>
   \<Longrightarrow> \<exists>d' rs. exec_all ps d = Some (d', rs) \<and> Some t \<in> set rs"
proof (induction ps arbitrary: d xs)
  case (Cons p ps)
  obtain d1 where d1: "exec p d = Some (d1, snd (list_op p xs))" "repr d1 (fst (list_op p xs))"
    using exec_law [OF Cons.prems(1)] by blast
  show ?case
  proof (cases "snd (list_op p xs) = Some t")
    case True
    then show ?thesis using d1(1) exec_all_list_run [OF d1(2), of ps] by auto
  next
    case False
    have "t \<in> set (fst (list_op p xs)) \<and>
        length (takeWhile ((\<noteq>) t) (fst (list_op p xs))) < count_list ps Pop"
    proof (cases p)
      case (Push s)
      then show ?thesis using Cons.prems by (auto simp: takeWhile_append1)
    next
      case (Unlink s)
      then have "s \<noteq> t" using Cons.prems by auto
      have "length (takeWhile ((\<noteq>) t) (remove1 s ys)) \<le> length (takeWhile ((\<noteq>) t) ys)" for ys
        using \<open>s \<noteq> t\<close> by (induction ys) auto
      from this [of xs] Unlink Cons.prems \<open>s \<noteq> t\<close> show ?thesis by auto
    next
      case Pop
      then show ?thesis using Cons.prems False by (cases xs) (auto split: if_splits)
    qed
    with Cons.IH [OF d1(2)] Cons.prems(3) d1(1) show ?thesis by auto
  qed
qed simp

end

definition order_repr :: "Order \<Rightarrow> Token list \<Rightarrow> bool" where
  "order_repr d xs \<longleftrightarrow> distinct xs \<and> d = order_of xs"

interpretation linked: token_queue order_op_exec order_repr
proof
  fix d xs p assume "order_repr d xs"
  then show "\<exists>d'. order_op_exec p d = Some (d', snd (list_op p xs)) \<and> order_repr d' (fst (list_op p xs))"
    by (cases p) (auto simp: order_repr_def push_back_order_of order_remove_order_of pop_front_order_of distinct_tl)
qed (simp add: order_repr_def)

lemma order_run_exec_all: "order_run = linked.exec_all"
proof (intro ext)
  show "order_run ps d = linked.exec_all ps d" for ps d
    by (induction ps arbitrary: d) (auto intro!: Option.bind_cong)
qed

section \<open>Properties\<close>

text \<open>
  C23: From an empty order, every sequence of pushes, unlinks and pops runs without hitting a
  missing neighbour, returns what the same sequence returns on a list (append unless present,
  delete, take from the front), and ends in the pointer structure of that list.
\<close>

theorem order_refines_list:
  "order_run ps Order_default =
     Some (order_of (fst (list_run ps [])), snd (list_run ps [])) \<and> distinct (fst (list_run ps []))"
proof -
  have "order_repr Order_default []" by (simp add: order_repr_def order_of_Nil)
  from linked.exec_all_list_run [OF this, of ps] show ?thesis
    by (auto simp: order_run_exec_all order_repr_def)
qed

text \<open>
  A queued token is never overtaken: whatever is pushed or unlinked in between, a token that
  stays in the order is returned by one of the next pops, counted by its distance from the front.
\<close>

theorem order_no_overtaking:
  assumes "distinct xs" "t \<in> set xs" "Unlink t \<notin> set ps"
    and "length (takeWhile ((\<noteq>) t) xs) < count_list ps Pop"
  shows "\<exists>d rs. order_run ps (order_of xs) = Some (d, rs) \<and> Some t \<in> set rs"
  using linked.no_overtaking [of "order_of xs" xs t ps] assms
  by (simp add: order_repr_def order_run_exec_all)

theorem order_no_overtaking_witness:
  "\<exists>d rs. order_run [Push 9, Pop, Push 5, Unlink 5, Pop] (order_of [4, 6]) = Some (d, rs) \<and> Some 6 \<in> set rs"
  by (rule order_no_overtaking) simp_all

end
