(* ===== verification/Wire_Types.thy ===== *)
theory Wire_Types
  imports Phonowire_Prelude
begin

text \<open>
  The wire values of \<open>crates/phonowire-audiosocket\<close>: type bytes (\<open>wire_type.rs\<close>), PCM payloads
  and rates (\<open>audio.rs\<close>), typed messages (\<open>message.rs\<close>), conversion failures (\<open>error.rs\<close>) and
  raw envelopes with their strict typed conversion (\<open>envelope.rs\<close>).

  A newtype around a byte or a slice is a datatype with one constructor; the fields are private
  in the source, so the values a program can hold are those its constructors build, which
  \<open>wf_typed\<close> and \<open>wf_raw\<close> describe.
\<close>

section \<open>Constants of the crate (lib.rs)\<close>

definition HEADER_BYTES :: nat where
  "HEADER_BYTES = 3"

definition MAX_BODY_BYTES :: nat where
  "MAX_BODY_BYTES = 65535"

section \<open>Audio (audio.rs)\<close>

datatype AudioPayloadError = OddLength | AudioPayloadTooLong

datatype SampleRate = Khz8 | Khz12 | Khz16 | Khz24 | Khz32 | Khz44_1 | Khz48 | Khz96 | Khz192

fun hertz :: "SampleRate \<Rightarrow> u32" where
  "hertz Khz8 = 8000"
| "hertz Khz12 = 12000"
| "hertz Khz16 = 16000"
| "hertz Khz24 = 24000"
| "hertz Khz32 = 32000"
| "hertz Khz44_1 = 44100"
| "hertz Khz48 = 48000"
| "hertz Khz96 = 96000"
| "hertz Khz192 = 192000"

datatype AudioPayload = AudioPayload (audio_bytes_of: bytes)

definition AudioPayload_new :: "bytes \<Rightarrow> AudioPayloadError + AudioPayload" where
  "AudioPayload_new bs =
     (if length bs > MAX_BODY_BYTES then Inl AudioPayloadTooLong
      else if length bs mod 2 \<noteq> 0 then Inl OddLength
      else Inr (AudioPayload bs))"

section \<open>Wire types (wire\_type.rs)\<close>

datatype WireType = WireType (wire_value: u8)

definition TERMINATE :: WireType where "TERMINATE = WireType 0x00"
definition UUID :: WireType where "UUID = WireType 0x01"
definition DTMF :: WireType where "DTMF = WireType 0x03"
definition ERROR :: WireType where "ERROR = WireType 0xff"

datatype KnownWireType =
    KTerminate | KUuid | KDtmf
  | Pcm8Khz | Pcm12Khz | Pcm16Khz | Pcm24Khz | Pcm32Khz | Pcm44Khz | Pcm48Khz | Pcm96Khz | Pcm192Khz
  | KError

definition known :: "WireType \<Rightarrow> KnownWireType option" where
  "known t =
     (let v = wire_value t in
      if v = 0x00 then Some KTerminate
      else if v = 0x01 then Some KUuid
      else if v = 0x03 then Some KDtmf
      else if v = 0x10 then Some Pcm8Khz
      else if v = 0x11 then Some Pcm12Khz
      else if v = 0x12 then Some Pcm16Khz
      else if v = 0x13 then Some Pcm24Khz
      else if v = 0x14 then Some Pcm32Khz
      else if v = 0x15 then Some Pcm44Khz
      else if v = 0x16 then Some Pcm48Khz
      else if v = 0x17 then Some Pcm96Khz
      else if v = 0x18 then Some Pcm192Khz
      else if v = 0xff then Some KError
      else None)"

datatype UnknownWireType = UnknownWireType (unknown_value: u8)

datatype UnknownWireTypeError = KnownType

definition UnknownWireType_new :: "u8 \<Rightarrow> UnknownWireTypeError + UnknownWireType" where
  "UnknownWireType_new v =
     (if known (WireType v) \<noteq> None then Inl KnownType else Inr (UnknownWireType v))"

section \<open>Typed messages (error.rs, message.rs)\<close>

datatype TypedMessageError =
    TerminatePayload | UuidLength | DtmfLength | DtmfNotAscii | OddPcmLength
  | UnknownTypeClassification

datatype Uuid = Uuid (uuid_bytes: bytes)

datatype Dtmf = Dtmf (dtmf_value: u8)

definition is_ascii :: "u8 \<Rightarrow> bool" where
  "is_ascii v \<longleftrightarrow> v < 128"

definition Dtmf_new :: "u8 \<Rightarrow> TypedMessageError + Dtmf" where
  "Dtmf_new v = (if \<not> is_ascii v then Inl DtmfNotAscii else Inr (Dtmf v))"

datatype RawEnvelopeError = PayloadTooLong

datatype OpaquePayload = OpaquePayload (opaque_bytes: bytes)

definition OpaquePayload_new :: "bytes \<Rightarrow> RawEnvelopeError + OpaquePayload" where
  "OpaquePayload_new bs =
     (if length bs > MAX_BODY_BYTES then Inl PayloadTooLong else Inr (OpaquePayload bs))"

datatype TypedMessage =
    MTerminate
  | MUuid Uuid
  | MDtmf Dtmf
  | MAudio SampleRate AudioPayload
  | MError OpaquePayload
  | MUnknown UnknownWireType OpaquePayload

section \<open>Raw envelopes and typed conversion (envelope.rs)\<close>

record RawEnvelope =
  wire_type :: WireType
  payload :: bytes

definition RawEnvelope_new :: "WireType \<Rightarrow> bytes \<Rightarrow> RawEnvelopeError + RawEnvelope" where
  "RawEnvelope_new t bs =
     (if length bs > MAX_BODY_BYTES then Inl PayloadTooLong
      else Inr \<lparr>wire_type = t, payload = bs\<rparr>)"

definition validate_typed_length :: "WireType \<Rightarrow> nat \<Rightarrow> TypedMessageError + unit" where
  "validate_typed_length t len =
     (let v = wire_value t in
      if v = 0x00 \<and> len \<noteq> 0 then Inl TerminatePayload
      else if v = 0x01 \<and> len \<noteq> 16 then Inl UuidLength
      else if v = 0x03 \<and> len \<noteq> 1 then Inl DtmfLength
      else if 0x10 \<le> v \<and> v \<le> 0x18 \<and> len mod 2 \<noteq> 0 then Inl OddPcmLength
      else Inr ())"

text \<open>The \<open>copy_from_slice\<close> in \<open>uuid\<close> and the index in \<open>dtmf\<close> panic on the wrong length.\<close>

definition raw_uuid :: "RawEnvelope \<Rightarrow> TypedMessage run" where
  "raw_uuid raw = do {
     bs \<leftarrow> copy_from_slice (replicate 16 0) 0 16 (payload raw);
     Some (MUuid (Uuid bs))
   }"

definition raw_dtmf :: "RawEnvelope \<Rightarrow> (TypedMessageError + TypedMessage) run" where
  "raw_dtmf raw = do {
     b \<leftarrow> fetch (payload raw) 0;
     Some (map_sum id MDtmf (Dtmf_new b))
   }"

definition raw_audio :: "RawEnvelope \<Rightarrow> SampleRate \<Rightarrow> TypedMessage" where
  "raw_audio raw rate = MAudio rate (AudioPayload (payload raw))"

definition raw_unknown :: "RawEnvelope \<Rightarrow> TypedMessage" where
  "raw_unknown raw =
     MUnknown (UnknownWireType (wire_value (wire_type raw))) (OpaquePayload (payload raw))"

definition typed :: "RawEnvelope \<Rightarrow> (TypedMessageError + TypedMessage) run" where
  "typed raw =
     (case validate_typed_length (wire_type raw) (length (payload raw)) of
        Inl e \<Rightarrow> Some (Inl e)
      | Inr _ \<Rightarrow>
         (case known (wire_type raw) of
            Some KTerminate \<Rightarrow> Some (Inr MTerminate)
          | Some KUuid \<Rightarrow> map_option Inr (raw_uuid raw)
          | Some KDtmf \<Rightarrow> raw_dtmf raw
          | Some Pcm8Khz \<Rightarrow> Some (Inr (raw_audio raw Khz8))
          | Some Pcm12Khz \<Rightarrow> Some (Inr (raw_audio raw Khz12))
          | Some Pcm16Khz \<Rightarrow> Some (Inr (raw_audio raw Khz16))
          | Some Pcm24Khz \<Rightarrow> Some (Inr (raw_audio raw Khz24))
          | Some Pcm32Khz \<Rightarrow> Some (Inr (raw_audio raw Khz32))
          | Some Pcm44Khz \<Rightarrow> Some (Inr (raw_audio raw Khz44_1))
          | Some Pcm48Khz \<Rightarrow> Some (Inr (raw_audio raw Khz48))
          | Some Pcm96Khz \<Rightarrow> Some (Inr (raw_audio raw Khz96))
          | Some Pcm192Khz \<Rightarrow> Some (Inr (raw_audio raw Khz192))
          | Some KError \<Rightarrow> Some (Inr (MError (OpaquePayload (payload raw))))
          | None \<Rightarrow> Some (Inr (raw_unknown raw))))"

section \<open>Well-formed values\<close>

lemma RawEnvelope_eta [simp]: "\<lparr>wire_type = wire_type raw, payload = payload raw\<rparr> = raw"
  by (cases raw) simp

definition wf_raw :: "RawEnvelope \<Rightarrow> bool" where
  "wf_raw raw \<longleftrightarrow> length (payload raw) \<le> MAX_BODY_BYTES"

fun wf_typed :: "TypedMessage \<Rightarrow> bool" where
  "wf_typed MTerminate = True"
| "wf_typed (MUuid u) = (length (uuid_bytes u) = 16)"
| "wf_typed (MDtmf d) = is_ascii (dtmf_value d)"
| "wf_typed (MAudio r p) =
     (length (audio_bytes_of p) \<le> MAX_BODY_BYTES \<and> even (length (audio_bytes_of p)))"
| "wf_typed (MError p) = (length (opaque_bytes p) \<le> MAX_BODY_BYTES)"
| "wf_typed (MUnknown t p) =
     (known (WireType (unknown_value t)) = None \<and> length (opaque_bytes p) \<le> MAX_BODY_BYTES)"

end
