(* ===== verification/Receiver_Base.thy ===== *)
theory Receiver_Base
  imports Wire_Types
begin

text \<open>
  The receiver crate's shared ground: validated worker limits
  (\<open>crates/phonowire-receiver/src/config.rs\<close>) and the identities of \<open>record.rs\<close>.  Connection
  identities order by instance and then sequence, as the source derives it, so they are an
  instance of \<open>linorder\<close>; the worker's maps are keyed by them.
\<close>

section \<open>Limits (config.rs)\<close>

definition READ_BYTES :: nat where "READ_BYTES = 4096"
definition EVENT_BATCH :: nat where "EVENT_BATCH = 128"
definition UUID_BYTES :: nat where "UUID_BYTES = 16"

datatype LimitsError = PayloadBelowUuid | FixedStorageOverflow

record Limits =
  max_connections :: nat
  queue_slots :: nat
  payload_capacity :: nat
  turn_steps :: nat
  fixed_buffer_capacity :: nat

text \<open>The arguments are \<open>NonZeroUsize\<close>, \<open>NonZeroUsize\<close>, \<open>NonZeroU16\<close> and \<open>NonZeroUsize\<close>.\<close>

definition limit_args :: "nat \<Rightarrow> nat \<Rightarrow> nat \<Rightarrow> nat \<Rightarrow> bool" where
  "limit_args mc qs pc ts \<longleftrightarrow>
     0 < mc \<and> mc \<le> USIZE_MAX \<and> 0 < qs \<and> qs \<le> USIZE_MAX \<and> 0 < pc \<and> pc \<le> U16_MAX \<and>
     0 < ts \<and> ts \<le> USIZE_MAX"

definition Limits_new :: "nat \<Rightarrow> nat \<Rightarrow> nat \<Rightarrow> nat \<Rightarrow> LimitsError + Limits" where
  "Limits_new mc qs pc ts =
     (if pc < UUID_BYTES then Inl PayloadBelowUuid
      else case checked_mul USIZE_MAX mc (READ_BYTES + pc) of
        None \<Rightarrow> Inl FixedStorageOverflow
      | Some fbc \<Rightarrow>
          Inr \<lparr>max_connections = mc, queue_slots = qs, payload_capacity = pc, turn_steps = ts,
               fixed_buffer_capacity = fbc\<rparr>)"

section \<open>Identities (record.rs)\<close>

datatype ConnectionId = ConnectionId (conn_instance: nat) (conn_sequence: nat)

instantiation ConnectionId :: linorder
begin

definition less_eq_ConnectionId :: "ConnectionId \<Rightarrow> ConnectionId \<Rightarrow> bool" where
  "a \<le> b \<longleftrightarrow> conn_instance a < conn_instance b \<or>
     (conn_instance a = conn_instance b \<and> conn_sequence a \<le> conn_sequence b)"

definition less_ConnectionId :: "ConnectionId \<Rightarrow> ConnectionId \<Rightarrow> bool" where
  "a < b \<longleftrightarrow> conn_instance a < conn_instance b \<or>
     (conn_instance a = conn_instance b \<and> conn_sequence a < conn_sequence b)"

instance
  by standard
    (auto simp: less_eq_ConnectionId_def less_ConnectionId_def ConnectionId.expand)

end

section \<open>Properties\<close>

text \<open>
  Limits are accepted exactly when one payload can hold the sixteen UUID bytes and the
  buffers of all admitted connections fit \<open>usize\<close>; the accepted limits keep the arguments, and
  the advertised fixed capacity covers a read buffer and a decoder scratch for each of up to
  \<open>max_connections\<close> connections.
\<close>

theorem limits_new_bounds:
  "case Limits_new mc qs pc ts of
     Inr l \<Rightarrow>
       UUID_BYTES \<le> pc \<and> mc * (READ_BYTES + pc) \<le> USIZE_MAX \<and>
       max_connections l = mc \<and> queue_slots l = qs \<and> payload_capacity l = pc \<and> turn_steps l = ts \<and>
       fixed_buffer_capacity l \<le> USIZE_MAX \<and>
       fixed_buffer_capacity l = (\<Sum>i<mc. READ_BYTES + payload_capacity l)
   | Inl PayloadBelowUuid \<Rightarrow> pc < UUID_BYTES
   | Inl FixedStorageOverflow \<Rightarrow> UUID_BYTES \<le> pc \<and> USIZE_MAX < mc * (READ_BYTES + pc)"
  by (auto simp: Limits_new_def checked_simps split: option.split)

end
