(* ===== verification/Byte_Budget.thy ===== *)
theory Byte_Budget
  imports Receiver_Base "HOL-Library.Multiset"
begin

text \<open>
  The shared account of retained output bytes (\<open>crates/phonowire-receiver/src/memory.rs\<close>): the
  budget every receiver record is charged to, the per-connection retention tracker, the charge
  a copy owns until it is dropped, and the exclusive credit subscription.

  A \<open>Mutex\<close>-protected section is one atomic operation of the model.  A budget and the trackers
  its charges refer to form a \<open>memory\<close>; trackers are referred to by an address, because a charge
  keeps a shared handle.  Arithmetic that panics in the source (\<open>expect\<close>, and the subtraction
  and addition of \<open>reserve\<close> that leave \<open>usize\<close>) is \<open>None\<close>.  Copies and drops run on several
  threads, so the second half of the theory interleaves their locked sections.
\<close>

section \<open>State\<close>

datatype BudgetError = TooLarge nat nat | Full nat nat

text \<open>A waker is identified by a number; waking is an output of the operation that wakes.\<close>

type_synonym waker = nat

record BudgetState =
  used :: nat
  subscriber :: "waker option"

record ByteBudget =
  capacity :: nat
  budget_state :: BudgetState

type_synonym RetentionTracker = "ConnectionId \<rightharpoonup> nat"

record Charge =
  charge_bytes :: nat
  retention :: "(nat \<times> ConnectionId) option"

record OwnedBytes =
  owned_bytes :: bytes
  charge :: Charge

datatype BudgetInUse = BudgetInUse

record memory =
  budget :: ByteBudget
  trackers :: "nat \<Rightarrow> RetentionTracker"

section \<open>Retention tracker\<close>

definition RetentionTracker_new :: RetentionTracker where
  "RetentionTracker_new = Map.empty"

definition RetentionTracker_used :: "RetentionTracker \<Rightarrow> ConnectionId \<Rightarrow> nat" where
  "RetentionTracker_used t i = (case t i of None \<Rightarrow> 0 | Some n \<Rightarrow> n)"

text \<open>\<open>entry(id).or_default()\<close> starts a missing entry at zero.\<close>

definition RetentionTracker_add ::
  "RetentionTracker \<Rightarrow> ConnectionId \<Rightarrow> nat \<Rightarrow> RetentionTracker run" where
  "RetentionTracker_add t i n =
     (if n = 0 then Some t
      else do {
        current \<leftarrow> checked_add USIZE_MAX (case t i of None \<Rightarrow> 0 | Some c \<Rightarrow> c) n;
        Some (t(i \<mapsto> current))
      })"

definition RetentionTracker_release ::
  "RetentionTracker \<Rightarrow> ConnectionId \<Rightarrow> nat \<Rightarrow> RetentionTracker run" where
  "RetentionTracker_release t i n =
     (if n = 0 then Some t
      else do {
        entry \<leftarrow> t i;
        current \<leftarrow> checked_sub entry n;
        Some (if current = 0 then t(i := None) else t(i \<mapsto> current))
      })"

section \<open>Byte budget\<close>

definition ByteBudget_new :: "nat \<Rightarrow> ByteBudget" where
  "ByteBudget_new cap = \<lparr>capacity = cap, budget_state = \<lparr>used = 0, subscriber = None\<rparr>\<rparr>"

definition budget_used :: "ByteBudget \<Rightarrow> nat" where
  "budget_used b = used (budget_state b)"

definition reserve ::
  "ByteBudget \<Rightarrow> nat \<Rightarrow> (nat \<times> ConnectionId) option \<Rightarrow> (ByteBudget \<times> (BudgetError + Charge)) run" where
  "reserve b required ret =
     do {
       available \<leftarrow> checked_sub (capacity b) (used (budget_state b));
       if required > available then Some (b, Inl (Full required available))
       else do {
         u \<leftarrow> checked_add USIZE_MAX (used (budget_state b)) required;
         Some (b\<lparr>budget_state := (budget_state b)\<lparr>used := u\<rparr>\<rparr>,
               Inr \<lparr>charge_bytes = required, retention = ret\<rparr>)
       }
     }"

definition track :: "memory \<Rightarrow> Charge \<Rightarrow> memory run" where
  "track m c =
     (case retention c of
        None \<Rightarrow> Some m
      | Some (t, i) \<Rightarrow> do {
          tr \<leftarrow> RetentionTracker_add (trackers m t) i (charge_bytes c);
          Some (m\<lparr>trackers := (trackers m)(t := tr)\<rparr>)
        })"

definition try_copy_tracked ::
  "memory \<Rightarrow> bytes \<Rightarrow> (nat \<times> ConnectionId) option \<Rightarrow> (memory \<times> (BudgetError + OwnedBytes)) run" where
  "try_copy_tracked m bs ret =
     (if length bs > capacity (budget m)
      then Some (m, Inl (TooLarge (length bs) (capacity (budget m))))
      else do {
        (b, r) \<leftarrow> reserve (budget m) (length bs) ret;
        (case r of
           Inl e \<Rightarrow> Some (m\<lparr>budget := b\<rparr>, Inl e)
         | Inr c \<Rightarrow> do {
             m' \<leftarrow> track (m\<lparr>budget := b\<rparr>) c;
             Some (m', Inr \<lparr>owned_bytes = bs, charge = c\<rparr>)
           })
      })"

definition try_copy :: "memory \<Rightarrow> bytes \<Rightarrow> (memory \<times> (BudgetError + OwnedBytes)) run" where
  "try_copy m bs = try_copy_tracked m bs None"

definition try_copy_for ::
  "memory \<Rightarrow> ConnectionId \<Rightarrow> nat \<Rightarrow> bytes \<Rightarrow> (memory \<times> (BudgetError + OwnedBytes)) run" where
  "try_copy_for m i t bs = try_copy_tracked m bs (Some (t, i))"

definition subscribe :: "ByteBudget \<Rightarrow> waker \<Rightarrow> ByteBudget \<times> (BudgetInUse + unit)" where
  "subscribe b w =
     (case subscriber (budget_state b) of
        Some _ \<Rightarrow> (b, Inl BudgetInUse)
      | None \<Rightarrow> (b\<lparr>budget_state := (budget_state b)\<lparr>subscriber := Some w\<rparr>\<rparr>, Inr ()))"

definition drop_subscription :: "ByteBudget \<Rightarrow> ByteBudget" where
  "drop_subscription b = b\<lparr>budget_state := (budget_state b)\<lparr>subscriber := None\<rparr>\<rparr>"

text \<open>The second component is the waker that is woken after the lock is given back.\<close>

definition budget_release :: "ByteBudget \<Rightarrow> nat \<Rightarrow> (ByteBudget \<times> waker option) run" where
  "budget_release b released =
     (if released = 0 then Some (b, None)
      else do {
        u \<leftarrow> checked_sub (used (budget_state b)) released;
        Some (b\<lparr>budget_state := (budget_state b)\<lparr>used := u\<rparr>\<rparr>, subscriber (budget_state b))
      })"

definition charged_capacity :: "OwnedBytes \<Rightarrow> nat" where
  "charged_capacity o' = charge_bytes (charge o')"

definition as_slice :: "OwnedBytes \<Rightarrow> bytes" where
  "as_slice o' = owned_bytes o'"

definition untrack :: "memory \<Rightarrow> Charge \<Rightarrow> memory run" where
  "untrack m c =
     (case retention c of
        None \<Rightarrow> Some m
      | Some (t, i) \<Rightarrow> do {
          tr \<leftarrow> RetentionTracker_release (trackers m t) i (charge_bytes c);
          Some (m\<lparr>trackers := (trackers m)(t := tr)\<rparr>)
        })"

definition drop_charge :: "memory \<Rightarrow> Charge \<Rightarrow> (memory \<times> waker option) run" where
  "drop_charge m c =
     do {
       m' \<leftarrow> untrack m c;
       (b, w) \<leftarrow> budget_release (budget m') (charge_bytes c);
       Some (m'\<lparr>budget := b\<rparr>, w)
     }"

section \<open>Interleaved copies and drops\<close>

text \<open>
  Threads copy and drop independently.  A charge is \<open>reserved\<close> between the locked section of
  \<open>reserve\<close> and that of \<open>tracker.add\<close>, \<open>live\<close> while an \<open>OwnedBytes\<close> owns it, and \<open>dropping\<close>
  between the two locked sections of its destructor.
\<close>

record accounts =
  mem :: memory
  reserved :: "Charge multiset"
  live :: "Charge multiset"
  dropping :: "Charge multiset"

datatype account_action =
    Reserve nat "(nat \<times> ConnectionId) option" | Track Charge | Untrack Charge | Refund Charge
  | Subscribe waker | Unsubscribe

definition enabled :: "account_action \<Rightarrow> accounts \<Rightarrow> bool" where
  "enabled a w =
     (case a of
        Reserve n r \<Rightarrow> n \<le> capacity (budget (mem w))
      | Track c \<Rightarrow> c \<in># reserved w
      | Untrack c \<Rightarrow> c \<in># live w
      | Refund c \<Rightarrow> c \<in># dropping w
      | Subscribe k \<Rightarrow> True
      | Unsubscribe \<Rightarrow> subscriber (budget_state (budget (mem w))) \<noteq> None)"

fun account_exec :: "account_action \<Rightarrow> accounts \<Rightarrow> accounts run" where
  "account_exec (Reserve n r) w =
     do {
       (b, res) \<leftarrow> reserve (budget (mem w)) n r;
       Some (case res of
           Inl e \<Rightarrow> w\<lparr>mem := (mem w)\<lparr>budget := b\<rparr>\<rparr>
         | Inr c \<Rightarrow> w\<lparr>mem := (mem w)\<lparr>budget := b\<rparr>, reserved := add_mset c (reserved w)\<rparr>)
     }"
| "account_exec (Track c) w =
     do {
       m \<leftarrow> track (mem w) c;
       Some (w\<lparr>mem := m, reserved := reserved w - {#c#}, live := add_mset c (live w)\<rparr>)
     }"
| "account_exec (Untrack c) w =
     do {
       m \<leftarrow> untrack (mem w) c;
       Some (w\<lparr>mem := m, live := live w - {#c#}, dropping := add_mset c (dropping w)\<rparr>)
     }"
| "account_exec (Refund c) w =
     do {
       (b, k) \<leftarrow> budget_release (budget (mem w)) (charge_bytes c);
       Some (w\<lparr>mem := (mem w)\<lparr>budget := b\<rparr>, dropping := dropping w - {#c#}\<rparr>)
     }"
| "account_exec (Subscribe k) w = Some (w\<lparr>mem := (mem w)\<lparr>budget := fst (subscribe (budget (mem w)) k)\<rparr>\<rparr>)"
| "account_exec Unsubscribe w = Some (w\<lparr>mem := (mem w)\<lparr>budget := drop_subscription (budget (mem w))\<rparr>\<rparr>)"

definition accounts_init :: "nat \<Rightarrow> accounts" where
  "accounts_init cap =
     \<lparr>mem = \<lparr>budget = ByteBudget_new cap, trackers = (\<lambda>_. RetentionTracker_new)\<rparr>,
      reserved = {#}, live = {#}, dropping = {#}\<rparr>"

inductive account_reachable :: "nat \<Rightarrow> accounts \<Rightarrow> bool" for cap where
  account_start: "account_reachable cap (accounts_init cap)"
| account_step:
    "\<lbrakk>account_reachable cap w; enabled a w; account_exec a w = Some w'\<rbrakk> \<Longrightarrow> account_reachable cap w'"

abbreviation total :: "Charge multiset \<Rightarrow> nat" where
  "total M \<equiv> sum_mset (image_mset charge_bytes M)"

definition total_for :: "nat \<Rightarrow> ConnectionId \<Rightarrow> Charge multiset \<Rightarrow> nat" where
  "total_for t i M = total (filter_mset (\<lambda>c. retention c = Some (t, i)) M)"

text \<open>Every byte in use belongs to exactly one charge, and each tracker entry to live charges.\<close>

definition accounts_ok :: "nat \<Rightarrow> accounts \<Rightarrow> bool" where
  "accounts_ok cap w \<longleftrightarrow>
     capacity (budget (mem w)) = cap \<and>
     budget_used (budget (mem w)) = total (reserved w + live w + dropping w) \<and>
     budget_used (budget (mem w)) \<le> cap \<and>
     (\<forall>t i. RetentionTracker_used (trackers (mem w) t) i = total_for t i (live w) \<and>
            trackers (mem w) t i \<noteq> Some 0)"

section \<open>Ledgers\<close>

text \<open>
  The budget and one connection's tracker entry keep the same promise: a quantity can be taken
  while the limit allows, what was taken can be given back, and the amount held is exactly what
  is outstanding.  A client that gives back only what it took never sees a failure.
\<close>

locale ledger =
  fixes take_n :: "'s \<Rightarrow> nat \<Rightarrow> 's option"
    and give_n :: "'s \<Rightarrow> nat \<Rightarrow> 's option"
    and held :: "'s \<Rightarrow> nat"
    and sound :: "'s \<Rightarrow> bool"
    and limit :: nat
  assumes take_law:
      "\<lbrakk>sound s; held s + n \<le> limit\<rbrakk> \<Longrightarrow> \<exists>s'. take_n s n = Some s' \<and> sound s' \<and> held s' = held s + n"
    and give_law:
      "\<lbrakk>sound s; n \<le> held s\<rbrakk> \<Longrightarrow> \<exists>s'. give_n s n = Some s' \<and> sound s' \<and> held s' = held s - n"
begin

fun take_all :: "'s \<Rightarrow> nat list \<Rightarrow> 's option" where
  "take_all s [] = Some s"
| "take_all s (n # ns) = take_n s n \<bind> (\<lambda>s'. take_all s' ns)"

fun give_all :: "'s \<Rightarrow> nat list \<Rightarrow> 's option" where
  "give_all s [] = Some s"
| "give_all s (n # ns) = give_n s n \<bind> (\<lambda>s'. give_all s' ns)"

lemma take_all_held:
  "\<lbrakk>sound s; held s + sum_list ns \<le> limit\<rbrakk> \<Longrightarrow>
   \<exists>s'. take_all s ns = Some s' \<and> sound s' \<and> held s' = held s + sum_list ns"
proof (induction ns arbitrary: s)
  case (Cons n ns)
  then obtain s1 where "take_n s n = Some s1" "sound s1" "held s1 = held s + n"
    using take_law [of s n] by auto
  with Cons.IH [of s1] Cons.prems show ?case by (auto simp: add.assoc)
qed auto

lemma give_all_held:
  "\<lbrakk>sound s; sum_list ns \<le> held s\<rbrakk> \<Longrightarrow>
   \<exists>s'. give_all s ns = Some s' \<and> sound s' \<and> held s' = held s - sum_list ns"
proof (induction ns arbitrary: s)
  case (Cons n ns)
  then obtain s1 where "give_n s n = Some s1" "sound s1" "held s1 = held s - n"
    using give_law [of s n] by auto
  with Cons.IH [of s1] Cons.prems show ?case by auto
qed auto

text \<open>Giving back in any order what was taken restores the amount held.\<close>

lemma take_give_any_order:
  assumes "sound s" "held s + sum_list ns \<le> limit" "mset ms = mset ns"
  shows "\<exists>s1 s2. take_all s ns = Some s1 \<and> give_all s1 ms = Some s2 \<and> held s2 = held s"
proof -
  have sum: "sum_list ms = sum_list ns" using assms(3) by (metis sum_mset_sum_list)
  obtain s1 where "take_all s ns = Some s1" "sound s1" "held s1 = held s + sum_list ns"
    using take_all_held [OF assms(1,2)] by blast
  with give_all_held [of s1 ms] sum show ?thesis by auto
qed

end

definition budget_take :: "ByteBudget \<Rightarrow> nat \<Rightarrow> ByteBudget option" where
  "budget_take b n =
     do { (b', r) \<leftarrow> reserve b n None; (case r of Inl e \<Rightarrow> None | Inr c \<Rightarrow> Some b') }"

definition budget_give :: "ByteBudget \<Rightarrow> nat \<Rightarrow> ByteBudget option" where
  "budget_give b n = map_option fst (budget_release b n)"

definition budget_ok :: "nat \<Rightarrow> ByteBudget \<Rightarrow> bool" where
  "budget_ok cap b \<longleftrightarrow> capacity b = cap \<and> budget_used b \<le> cap"

lemma reserve_fits:
  assumes "budget_used b + n \<le> capacity b" "capacity b \<le> USIZE_MAX"
  shows "reserve b n r =
    Some (b\<lparr>budget_state := (budget_state b)\<lparr>used := budget_used b + n\<rparr>\<rparr>,
          Inr \<lparr>charge_bytes = n, retention = r\<rparr>)"
  using assms by (simp add: reserve_def budget_used_def checked_add_def checked_sub_def)

lemma reserve_full:
  assumes "budget_used b \<le> capacity b" "capacity b < budget_used b + n"
  shows "reserve b n r = Some (b, Inl (Full n (capacity b - budget_used b)))"
  using assms by (auto simp: reserve_def budget_used_def checked_sub_def)

lemma budget_release_held:
  assumes "n \<le> budget_used b"
  shows "budget_release b n =
    Some (b\<lparr>budget_state := (budget_state b)\<lparr>used := budget_used b - n\<rparr>\<rparr>,
          if n = 0 then None else subscriber (budget_state b))"
  using assms by (auto simp: budget_release_def budget_used_def checked_sub_def)

definition budget_limit :: "nat \<Rightarrow> nat" where
  "budget_limit cap = min cap USIZE_MAX"

interpretation byte_ledger: ledger budget_take budget_give budget_used "budget_ok cap" "budget_limit cap"
  for cap
proof
  fix s n assume s: "budget_ok cap s" "budget_used s + n \<le> budget_limit cap"
  then show "\<exists>s'. budget_take s n = Some s' \<and> budget_ok cap s' \<and> budget_used s' = budget_used s + n"
    by (auto simp: budget_take_def reserve_def budget_ok_def budget_limit_def budget_used_def
        checked_add_def checked_sub_def)
next
  fix s n assume "budget_ok cap s" "n \<le> budget_used s"
  then show "\<exists>s'. budget_give s n = Some s' \<and> budget_ok cap s' \<and> budget_used s' = budget_used s - n"
    by (auto simp: budget_give_def budget_release_held budget_ok_def budget_used_def)
qed

definition tracker_ok :: "RetentionTracker \<Rightarrow> bool" where
  "tracker_ok t \<longleftrightarrow> (\<forall>i. t i \<noteq> Some 0)"

lemma tracker_add_fits:
  assumes "RetentionTracker_used t i + n \<le> USIZE_MAX"
  shows "RetentionTracker_add t i n =
    Some (if n = 0 then t else t(i \<mapsto> RetentionTracker_used t i + n))"
  using assms
  by (simp add: RetentionTracker_add_def RetentionTracker_used_def checked_add_def)

lemma tracker_release_held:
  assumes "n \<le> RetentionTracker_used t i"
  shows "RetentionTracker_release t i n =
    Some (if n = 0 then t else if n = RetentionTracker_used t i then t(i := None)
          else t(i \<mapsto> RetentionTracker_used t i - n))"
  using assms
  by (auto simp: RetentionTracker_release_def RetentionTracker_used_def checked_sub_def split: option.splits)

interpretation tracker_ledger:
  ledger "\<lambda>t. RetentionTracker_add t i" "\<lambda>t. RetentionTracker_release t i"
    "\<lambda>t. RetentionTracker_used t i" tracker_ok USIZE_MAX for i
proof
  fix t n assume "tracker_ok t" "RetentionTracker_used t i + n \<le> USIZE_MAX"
  then show "\<exists>s'. RetentionTracker_add t i n = Some s' \<and> tracker_ok s' \<and>
      RetentionTracker_used s' i = RetentionTracker_used t i + n"
    by (auto simp: tracker_add_fits tracker_ok_def RetentionTracker_used_def)
next
  fix t n assume "tracker_ok t" "n \<le> RetentionTracker_used t i"
  then show "\<exists>s'. RetentionTracker_release t i n = Some s' \<and> tracker_ok s' \<and>
      RetentionTracker_used s' i = RetentionTracker_used t i - n"
    by (auto simp: tracker_release_held tracker_ok_def RetentionTracker_used_def)
qed

section \<open>The interleaving invariant\<close>

lemma total_for_add [simp]:
  "total_for t i (add_mset c M) = (if retention c = Some (t, i) then charge_bytes c else 0) + total_for t i M"
  by (simp add: total_for_def)

lemma total_for_remove:
  assumes "c \<in># M"
  shows "total_for t i M = (if retention c = Some (t, i) then charge_bytes c else 0) + total_for t i (M - {#c#})"
  using total_for_add [of t i c "M - {#c#}"] assms by simp

lemma total_remove: "c \<in># M \<Longrightarrow> total M = charge_bytes c + total (M - {#c#})"
  by (metis image_mset_add_mset insert_DiffM sum_mset.insert)

lemma total_for_le: "total_for t i M \<le> total M"
  by (induction M) (auto simp: total_for_def)

lemma budget_used_upd [simp]:
  "budget_used (b\<lparr>budget_state := (budget_state b)\<lparr>used := n\<rparr>\<rparr>) = n"
  "budget_used (fst (subscribe b k)) = budget_used b"
  "budget_used (drop_subscription b) = budget_used b"
  "capacity (fst (subscribe b k)) = capacity b"
  "capacity (drop_subscription b) = capacity b"
  by (simp_all add: budget_used_def subscribe_def drop_subscription_def split: option.split)

lemma budget_used_same [simp]:
  "b\<lparr>budget_state := (budget_state b)\<lparr>used := budget_used b\<rparr>\<rparr> = b"
  by (cases b) (simp add: budget_used_def)

lemma tracker_used_upd [simp]:
  "RetentionTracker_used (t(i \<mapsto> n)) j = (if j = i then n else RetentionTracker_used t j)"
  "RetentionTracker_used (t(i := None)) j = (if j = i then 0 else RetentionTracker_used t j)"
  by (simp_all add: RetentionTracker_used_def)

lemma track_fits:
  assumes "\<And>t i. retention c = Some (t, i) \<Longrightarrow> RetentionTracker_used (trackers m t) i + charge_bytes c \<le> USIZE_MAX"
  shows "\<exists>m'. track m c = Some m' \<and> budget m' = budget m \<and>
    (\<forall>t i. RetentionTracker_used (trackers m' t) i =
             (if retention c = Some (t, i) then charge_bytes c else 0) + RetentionTracker_used (trackers m t) i) \<and>
    ((\<forall>t. tracker_ok (trackers m t)) \<longrightarrow> (\<forall>t. tracker_ok (trackers m' t)))"
proof (cases "retention c")
  case (Some ti)
  then obtain t i where "retention c = Some (t, i)" by (cases ti) auto
  with assms [of t i] show ?thesis by (auto simp: track_def tracker_add_fits tracker_ok_def)
qed (simp add: track_def)

lemma untrack_held:
  assumes "\<And>t i. retention c = Some (t, i) \<Longrightarrow> charge_bytes c \<le> RetentionTracker_used (trackers m t) i"
  shows "\<exists>m'. untrack m c = Some m' \<and> budget m' = budget m \<and>
    (\<forall>t i. RetentionTracker_used (trackers m' t) i =
             RetentionTracker_used (trackers m t) i - (if retention c = Some (t, i) then charge_bytes c else 0)) \<and>
    ((\<forall>t. tracker_ok (trackers m t)) \<longrightarrow> (\<forall>t. tracker_ok (trackers m' t)))"
proof (cases "retention c")
  case (Some ti)
  then obtain t i where "retention c = Some (t, i)" by (cases ti) auto
  with assms [of t i] show ?thesis by (auto simp: untrack_def tracker_release_held tracker_ok_def)
qed (simp add: untrack_def)

lemma accounts_ok_alt:
  "accounts_ok cap w \<longleftrightarrow>
     capacity (budget (mem w)) = cap \<and>
     budget_used (budget (mem w)) = total (reserved w) + total (live w) + total (dropping w) \<and>
     budget_used (budget (mem w)) \<le> cap \<and>
     (\<forall>t i. RetentionTracker_used (trackers (mem w) t) i = total_for t i (live w)) \<and>
     (\<forall>t. tracker_ok (trackers (mem w) t))"
  by (auto simp: accounts_ok_def tracker_ok_def)

lemma accounts_ok_init: "accounts_ok cap (accounts_init cap)"
  by (simp add: accounts_ok_alt accounts_init_def ByteBudget_new_def budget_used_def
      RetentionTracker_new_def RetentionTracker_used_def total_for_def tracker_ok_def)

lemma reserve_ok:
  assumes "accounts_ok cap w" "cap \<le> USIZE_MAX"
  shows "\<exists>w'. account_exec (Reserve n r) w = Some w' \<and> accounts_ok cap w'"
proof (cases "budget_used (budget (mem w)) + n \<le> cap")
  case True
  with assms show ?thesis by (simp add: accounts_ok_alt reserve_fits)
next
  case False
  with assms show ?thesis by (simp add: accounts_ok_alt reserve_full)
qed

lemma track_ok:
  assumes ok: "accounts_ok cap w" and cap: "cap \<le> USIZE_MAX" and c: "c \<in># reserved w"
  shows "\<exists>w'. account_exec (Track c) w = Some w' \<and> accounts_ok cap w'"
proof -
  have "total_for t i (live w) + charge_bytes c \<le> USIZE_MAX" for t i
    using ok cap total_remove [OF c] total_for_le [of t i "live w"] by (simp add: accounts_ok_alt)
  then obtain m' where "track (mem w) c = Some m'" "budget m' = budget (mem w)"
    "\<forall>t i. RetentionTracker_used (trackers m' t) i =
       (if retention c = Some (t, i) then charge_bytes c else 0) + total_for t i (live w)"
    "\<forall>t. tracker_ok (trackers m' t)"
    using track_fits [of c "mem w"] ok by (auto simp: accounts_ok_alt)
  then show ?thesis using ok total_remove [OF c] by (simp add: accounts_ok_alt)
qed

lemma untrack_ok:
  assumes ok: "accounts_ok cap w" and c: "c \<in># live w"
  shows "\<exists>w'. account_exec (Untrack c) w = Some w' \<and> accounts_ok cap w'"
proof -
  have "retention c = Some (t, i) \<Longrightarrow> charge_bytes c \<le> total_for t i (live w)" for t i
    using total_for_remove [OF c, of t i] by simp
  then obtain m' where "untrack (mem w) c = Some m'" "budget m' = budget (mem w)"
    "\<forall>t i. RetentionTracker_used (trackers m' t) i =
       total_for t i (live w) - (if retention c = Some (t, i) then charge_bytes c else 0)"
    "\<forall>t. tracker_ok (trackers m' t)"
    using untrack_held [of c "mem w"] ok by (auto simp: accounts_ok_alt)
  then show ?thesis using ok total_remove [OF c] total_for_remove [OF c] by (simp add: accounts_ok_alt)
qed

lemma refund_ok:
  assumes ok: "accounts_ok cap w" and c: "c \<in># dropping w"
  shows "\<exists>w'. account_exec (Refund c) w = Some w' \<and> accounts_ok cap w'"
  using ok total_remove [OF c] by (simp add: accounts_ok_alt budget_release_held)

lemma account_exec_ok:
  assumes "accounts_ok cap w" "cap \<le> USIZE_MAX" "enabled a w"
  shows "\<exists>w'. account_exec a w = Some w' \<and> accounts_ok cap w'"
proof (cases a)
  case (Subscribe k)
  then show ?thesis using assms(1) by (simp add: accounts_ok_alt)
next
  case Unsubscribe
  then show ?thesis using assms(1) by (simp add: accounts_ok_alt)
qed (use assms reserve_ok track_ok untrack_ok refund_ok in \<open>auto simp: enabled_def simp del: account_exec.simps\<close>)

lemma account_reachable_ok:
  assumes "account_reachable cap w" "cap \<le> USIZE_MAX"
  shows "accounts_ok cap w"
  using assms(1)
proof induction
  case account_start
  show ?case by (rule accounts_ok_init)
next
  case (account_step w a w')
  with account_exec_ok [OF account_step.IH assms(2)] show ?case by fastforce
qed

section \<open>Properties\<close>

definition memory_ok :: "memory \<Rightarrow> bool" where
  "memory_ok m \<longleftrightarrow>
     capacity (budget m) \<le> USIZE_MAX \<and> budget_used (budget m) \<le> capacity (budget m) \<and>
     (\<forall>t i. RetentionTracker_used (trackers m t) i \<le> budget_used (budget m)) \<and>
     (\<forall>t. tracker_ok (trackers m t))"

text \<open>
  C12: Under any interleaving of the locked sections of copies and drops on one budget, no step
  panics, the bytes in use are exactly those of the charges alive in some phase and never exceed
  the capacity, every tracker shows exactly the live bytes of its connection, and a connection
  without live bytes has no entry.
\<close>

theorem memory_interleaving_safe:
  assumes "account_reachable cap w" "cap \<le> USIZE_MAX" "enabled a w"
  shows "account_exec a w \<noteq> None \<and>
    budget_used (budget (mem w)) = total (reserved w + live w + dropping w) \<and>
    budget_used (budget (mem w)) \<le> cap \<and>
    RetentionTracker_used (trackers (mem w) t) i = total_for t i (live w) \<and>
    (total_for t i (live w) = 0 \<longrightarrow> trackers (mem w) t i = None)"
proof -
  have ok: "accounts_ok cap w" using account_reachable_ok [OF assms(1,2)] .
  then have used: "RetentionTracker_used (trackers (mem w) t) i = total_for t i (live w)"
    and no0: "trackers (mem w) t i \<noteq> Some 0" by (simp_all add: accounts_ok_def)
  have "total_for t i (live w) = 0 \<longrightarrow> trackers (mem w) t i = None"
    using used no0 by (cases "trackers (mem w) t i") (auto simp: RetentionTracker_used_def)
  then show ?thesis
    using ok used account_exec_ok [OF ok assms(2,3)] by (auto simp: accounts_ok_def)
qed

theorem memory_interleaving_safe_witness:
  "\<exists>w. account_reachable 4 w \<and> live w = {#\<lparr>charge_bytes = 3, retention = Some (0, ConnectionId 1 1)\<rparr>#} \<and>
     RetentionTracker_used (trackers (mem w) 0) (ConnectionId 1 1) = 3 \<and>
     account_exec (Untrack \<lparr>charge_bytes = 3, retention = Some (0, ConnectionId 1 1)\<rparr>) w \<noteq> None"
proof -
  let ?c = "\<lparr>charge_bytes = 3, retention = Some (0, ConnectionId 1 1)\<rparr>"
  let ?w0 = "accounts_init 4"
  let ?w1 = "the (account_exec (Reserve 3 (Some (0, ConnectionId 1 1))) ?w0)"
  let ?w2 = "the (account_exec (Track ?c) ?w1)"
  note ev = accounts_init_def ByteBudget_new_def reserve_def checked_add_def checked_sub_def
    USIZE_MAX_def track_def RetentionTracker_add_def RetentionTracker_new_def enabled_def
  have s1: "account_exec (Reserve 3 (Some (0, ConnectionId 1 1))) ?w0 = Some ?w1"
    by (simp add: ev)
  have s2: "account_exec (Track ?c) ?w1 = Some ?w2" by (simp add: ev)
  have r1: "account_reachable 4 ?w1"
    by (rule account_step [OF account_start _ s1]) (simp add: ev)
  have r2: "account_reachable 4 ?w2"
    by (rule account_step [OF r1 _ s2]) (simp add: ev)
  have l: "live ?w2 = {#?c#}" by (simp add: ev)
  have en: "enabled (Untrack ?c) ?w2" using l by (simp add: enabled_def)
  have "account_exec (Untrack ?c) ?w2 \<noteq> None \<and>
    RetentionTracker_used (trackers (mem ?w2) 0) (ConnectionId 1 1) = total_for 0 (ConnectionId 1 1) (live ?w2)"
    using memory_interleaving_safe [OF r2 _ en, of 0 "ConnectionId 1 1"] by (simp add: USIZE_MAX_def)
  moreover have "total_for 0 (ConnectionId 1 1) (live ?w2) = 3" unfolding l by (simp add: total_for_def)
  ultimately show ?thesis using r2 l by metis
qed

lemma try_copy_spec:
  assumes "memory_ok m"
  shows "\<exists>m' r. try_copy_tracked m bs ret = Some (m', r) \<and> memory_ok m' \<and>
    (case r of
       Inl (TooLarge n cap) \<Rightarrow> m' = m \<and> n = length bs \<and> cap = capacity (budget m) \<and> cap < n
     | Inl (Full n avail) \<Rightarrow> m' = m \<and> n = length bs \<and> n \<le> capacity (budget m) \<and>
         avail = capacity (budget m) - budget_used (budget m) \<and> avail < n
     | Inr o' \<Rightarrow> budget_used (budget m) + length bs \<le> capacity (budget m) \<and>
         as_slice o' = bs \<and> charged_capacity o' = length bs \<and> retention (charge o') = ret \<and>
         budget_used (budget m') = budget_used (budget m) + length bs \<and>
         capacity (budget m') = capacity (budget m) \<and>
         (\<forall>t i. RetentionTracker_used (trackers m' t) i =
            (if ret = Some (t, i) then length bs else 0) + RetentionTracker_used (trackers m t) i))"
proof -
  consider "capacity (budget m) < length bs"
    | "length bs \<le> capacity (budget m)" "capacity (budget m) < budget_used (budget m) + length bs"
    | "budget_used (budget m) + length bs \<le> capacity (budget m)" by linarith
  then show ?thesis
  proof cases
    case 1
    with assms show ?thesis by (simp add: try_copy_tracked_def)
  next
    case 2
    have "try_copy_tracked m bs ret =
        Some (m, Inl (Full (length bs) (capacity (budget m) - budget_used (budget m))))"
      using assms 2 by (simp add: try_copy_tracked_def memory_ok_def reserve_full)
    moreover have "capacity (budget m) - budget_used (budget m) < length bs"
      using 2 assms by (simp add: memory_ok_def less_diff_conv2)
    ultimately show ?thesis using 2 assms by auto
  next
    case 3
    let ?b = "(budget m)\<lparr>budget_state := (budget_state (budget m))\<lparr>used := budget_used (budget m) + length bs\<rparr>\<rparr>"
    let ?c = "\<lparr>charge_bytes = length bs, retention = ret\<rparr>"
    have res: "reserve (budget m) (length bs) ret = Some (?b, Inr ?c)"
      using assms 3 by (simp add: memory_ok_def reserve_fits)
    have "RetentionTracker_used (trackers m t) i + length bs \<le> USIZE_MAX" for t i
      using assms 3 unfolding memory_ok_def by (meson add_le_mono1 order_trans)
    then obtain m' where m': "track (m\<lparr>budget := ?b\<rparr>) ?c = Some m'" "budget m' = ?b"
      "\<forall>t i. RetentionTracker_used (trackers m' t) i =
         (if ret = Some (t, i) then length bs else 0) + RetentionTracker_used (trackers m t) i"
      "\<forall>t. tracker_ok (trackers m' t)"
      using track_fits [of ?c "m\<lparr>budget := ?b\<rparr>"] assms by (auto simp: memory_ok_def)
    then have "memory_ok m'" using assms 3 by (auto simp: memory_ok_def intro: le_SucI trans_le_add1)
    with m' 3 res show ?thesis
      by (simp add: try_copy_tracked_def as_slice_def charged_capacity_def)
  qed
qed

text \<open>
  A copy is refused as too large exactly when it alone exceeds the capacity, as full exactly
  when the bytes in use leave too little, and then changes nothing; otherwise it owns exactly the
  bytes given, is charged exactly their number and leaves an account that satisfies the same
  invariant.  It never panics.
\<close>

theorem try_copy_branches:
  assumes "memory_ok m"
  shows "\<exists>m' r. try_copy_tracked m bs ret = Some (m', r) \<and> memory_ok m' \<and>
    (case r of
       Inl (TooLarge n cap) \<Rightarrow> m' = m \<and> n = length bs \<and> cap = capacity (budget m) \<and> cap < n
     | Inl (Full n avail) \<Rightarrow> m' = m \<and> n = length bs \<and> n \<le> capacity (budget m) \<and>
         avail = capacity (budget m) - budget_used (budget m) \<and> avail < n
     | Inr o' \<Rightarrow> budget_used (budget m) + length bs \<le> capacity (budget m) \<and>
         as_slice o' = bs \<and> charged_capacity o' = length bs \<and> retention (charge o') = ret \<and>
         budget_used (budget m') = budget_used (budget m) + length bs \<and>
         capacity (budget m') = capacity (budget m) \<and>
         (\<forall>t i. RetentionTracker_used (trackers m' t) i =
            (if ret = Some (t, i) then length bs else 0) + RetentionTracker_used (trackers m t) i))"
  using try_copy_spec [OF assms] .

lemma memory_ok_init: "cap \<le> USIZE_MAX \<Longrightarrow> memory_ok (mem (accounts_init cap))"
  by (simp add: memory_ok_def accounts_init_def ByteBudget_new_def budget_used_def
      RetentionTracker_new_def RetentionTracker_used_def tracker_ok_def)

theorem try_copy_branches_witness:
  "\<exists>m'. try_copy_tracked (mem (accounts_init 4)) [7, 8] (Some (0, ConnectionId 1 2)) =
       Some (m', Inr \<lparr>owned_bytes = [7, 8],
                      charge = \<lparr>charge_bytes = 2, retention = Some (0, ConnectionId 1 2)\<rparr>\<rparr>) \<and>
     budget_used (budget m') = 2 \<and> RetentionTracker_used (trackers m' 0) (ConnectionId 1 2) = 2"
proof -
  let ?r = "Inr \<lparr>owned_bytes = [7, 8], charge = \<lparr>charge_bytes = 2, retention = Some (0, ConnectionId 1 2)\<rparr>\<rparr>"
  have ok: "memory_ok (mem (accounts_init 4))" by (rule memory_ok_init) (simp add: USIZE_MAX_def)
  have "\<exists>m'. try_copy_tracked (mem (accounts_init 4)) [7, 8] (Some (0, ConnectionId 1 2)) = Some (m', ?r)"
    by (simp add: try_copy_tracked_def accounts_init_def ByteBudget_new_def reserve_def checked_add_def
        checked_sub_def USIZE_MAX_def track_def RetentionTracker_add_def RetentionTracker_new_def)
  with try_copy_branches [OF ok, of "[7, 8]" "Some (0, ConnectionId 1 2)"] show ?thesis
    by (auto simp: accounts_init_def ByteBudget_new_def budget_used_def RetentionTracker_used_def
        RetentionTracker_new_def)
qed

text \<open>
  C28: Dropping the storage a copy returned restores the account exactly: the bytes in use, every
  tracker entry and the subscription are what they were before the copy, and the registered
  subscriber is woken exactly when the copy held at least one byte.
\<close>

theorem copy_drop_restores:
  assumes "memory_ok m" "try_copy_tracked m bs ret = Some (m1, Inr o')"
  shows "drop_charge m1 (charge o') =
    Some (m, if bs = [] then None else subscriber (budget_state (budget m)))"
proof -
  have fits: "budget_used (budget m) + length bs \<le> capacity (budget m)"
  proof (rule ccontr)
    assume "\<not> ?thesis"
    then have "length bs \<le> capacity (budget m) \<longrightarrow> reserve (budget m) (length bs) ret =
        Some (budget m, Inl (Full (length bs) (capacity (budget m) - budget_used (budget m))))"
      using assms(1) by (simp add: memory_ok_def reserve_full)
    with assms(2) show False by (simp add: try_copy_tracked_def split: if_splits)
  qed
  have cap: "capacity (budget m) \<le> USIZE_MAX" using assms(1) by (simp add: memory_ok_def)
  have le: "RetentionTracker_used (trackers m t) i + length bs \<le> USIZE_MAX" for t i
    using assms(1) fits unfolding memory_ok_def by (meson add_le_mono1 order_trans)
  have ok: "trackers m t i \<noteq> Some 0" for t i using assms(1) by (simp add: memory_ok_def tracker_ok_def)
  note ev = try_copy_tracked_def reserve_fits [OF fits cap]
  have len: "length bs \<le> capacity (budget m)" using fits by simp
  show ?thesis
  proof (cases ret)
    case None
    with assms(2) len show ?thesis
      by (auto simp: ev track_def drop_charge_def untrack_def budget_release_held)
  next
    case (Some ti)
    then obtain t i where ret: "ret = Some (t, i)" by (cases ti) auto
    show ?thesis
    proof (cases "bs = []")
      case True
      with assms(2) ret fits show ?thesis
        using reserve_fits [of "budget m" 0 ret] cap
        by (auto simp: try_copy_tracked_def track_def drop_charge_def untrack_def budget_release_def
            RetentionTracker_add_def RetentionTracker_release_def)
    next
      case False
      then have m1: "m1 = \<lparr>budget = (budget m)\<lparr>budget_state := (budget_state (budget m))\<lparr>used := budget_used (budget m) + length bs\<rparr>\<rparr>,
            trackers = (trackers m)(t := (trackers m t)(i \<mapsto> RetentionTracker_used (trackers m t) i + length bs))\<rparr>"
        and c: "charge o' = \<lparr>charge_bytes = length bs, retention = ret\<rparr>"
        using assms(2) fits ret le by (auto simp: ev track_def tracker_add_fits)
      have restored: "(if length bs = RetentionTracker_used (trackers m t) i + length bs then (trackers m t)(i := None)
          else (trackers m t)(i \<mapsto> RetentionTracker_used (trackers m t) i)) = trackers m t"
        using ok [of t i] by (cases "trackers m t i") (auto simp: RetentionTracker_used_def fun_eq_iff)
      show ?thesis using False restored
        by (simp add: m1 c ret drop_charge_def untrack_def tracker_release_held budget_release_held)
           (auto simp: fun_eq_iff split: if_splits)
    qed
  qed
qed

theorem copy_drop_restores_witness:
  "\<exists>m1 o'. try_copy_tracked (mem (accounts_init 4)) [7, 8] (Some (0, ConnectionId 1 2)) = Some (m1, Inr o') \<and>
     drop_charge m1 (charge o') = Some (mem (accounts_init 4), None)"
proof -
  have ok: "memory_ok (mem (accounts_init 4))" by (rule memory_ok_init) (simp add: USIZE_MAX_def)
  obtain m1 o' where c: "try_copy_tracked (mem (accounts_init 4)) [7, 8] (Some (0, ConnectionId 1 2)) = Some (m1, Inr o')"
    by (simp add: try_copy_tracked_def accounts_init_def ByteBudget_new_def reserve_def checked_add_def
        checked_sub_def USIZE_MAX_def track_def RetentionTracker_add_def RetentionTracker_new_def)
  show ?thesis
    using copy_drop_restores [OF ok c] c by (simp add: accounts_init_def ByteBudget_new_def)
qed

end
