(* ===== verification/Frame_Encoder.thy ===== *)
theory Frame_Encoder
  imports Wire_Types
begin

text \<open>
  Bounded encoding of one wire frame (\<open>crates/phonowire-audiosocket/src/encoder.rs\<close>).  The
  destination slice is a list that the operations return updated, beside their result.

  The specification side is \<open>frame_bytes\<close>, the bytes of a frame on the wire, and
  \<open>envelope_of\<close>, the raw envelope that carries a typed message.  The lemmas show that
  \<open>encode\<close> writes exactly those bytes or nothing, and that \<open>typed\<close> and \<open>envelope_of\<close> are
  inverse to each other on well-formed values.
\<close>

section \<open>The encoder\<close>

datatype EncodeError = OutputTooShort (required: nat) (available: nat)

definition write_frame :: "WireType \<Rightarrow> bytes \<Rightarrow> bytes \<Rightarrow> ((EncodeError + nat) \<times> bytes) run" where
  "write_frame t p dst = do {
     payload_length \<leftarrow> map_option word_of_nat (try_from U16_MAX (length p));
     let required = HEADER_BYTES + length p;
     if length dst < required then Some (Inl (OutputTooShort required (length dst)), dst)
     else do {
       dst \<leftarrow> store dst 0 (wire_value t);
       dst \<leftarrow> copy_from_slice dst 1 HEADER_BYTES (to_be_bytes16 payload_length);
       dst \<leftarrow> copy_from_slice dst HEADER_BYTES required p;
       Some (Inr required, dst)
     }
   }"

fun rate_wire_type :: "SampleRate \<Rightarrow> WireType" where
  "rate_wire_type Khz8 = WireType 0x10"
| "rate_wire_type Khz12 = WireType 0x11"
| "rate_wire_type Khz16 = WireType 0x12"
| "rate_wire_type Khz24 = WireType 0x13"
| "rate_wire_type Khz32 = WireType 0x14"
| "rate_wire_type Khz44_1 = WireType 0x15"
| "rate_wire_type Khz48 = WireType 0x16"
| "rate_wire_type Khz96 = WireType 0x17"
| "rate_wire_type Khz192 = WireType 0x18"

fun encode :: "TypedMessage \<Rightarrow> bytes \<Rightarrow> ((EncodeError + nat) \<times> bytes) run" where
  "encode MTerminate dst = write_frame TERMINATE [] dst"
| "encode (MUuid uuid) dst = write_frame UUID (uuid_bytes uuid) dst"
| "encode (MDtmf dtmf) dst = write_frame DTMF [dtmf_value dtmf] dst"
| "encode (MAudio rate p) dst = write_frame (rate_wire_type rate) (audio_bytes_of p) dst"
| "encode (MError p) dst = write_frame ERROR (opaque_bytes p) dst"
| "encode (MUnknown t p) dst = write_frame (WireType (unknown_value t)) (opaque_bytes p) dst"

definition encode_raw :: "RawEnvelope \<Rightarrow> bytes \<Rightarrow> ((EncodeError + nat) \<times> bytes) run" where
  "encode_raw raw dst = write_frame (wire_type raw) (payload raw) dst"

section \<open>What a frame is\<close>

definition frame_bytes :: "RawEnvelope \<Rightarrow> bytes" where
  "frame_bytes raw =
     wire_value (wire_type raw) # to_be_bytes16 (word_of_nat (length (payload raw))) @ payload raw"

fun envelope_of :: "TypedMessage \<Rightarrow> RawEnvelope" where
  "envelope_of MTerminate = \<lparr>wire_type = TERMINATE, payload = []\<rparr>"
| "envelope_of (MUuid uuid) = \<lparr>wire_type = UUID, payload = uuid_bytes uuid\<rparr>"
| "envelope_of (MDtmf dtmf) = \<lparr>wire_type = DTMF, payload = [dtmf_value dtmf]\<rparr>"
| "envelope_of (MAudio rate p) = \<lparr>wire_type = rate_wire_type rate, payload = audio_bytes_of p\<rparr>"
| "envelope_of (MError p) = \<lparr>wire_type = ERROR, payload = opaque_bytes p\<rparr>"
| "envelope_of (MUnknown t p) = \<lparr>wire_type = WireType (unknown_value t), payload = opaque_bytes p\<rparr>"

lemma length_frame_bytes [simp]: "length (frame_bytes raw) = HEADER_BYTES + length (payload raw)"
  by (simp add: frame_bytes_def HEADER_BYTES_def)

section \<open>Encoding writes one exact frame or nothing\<close>

lemma write_frame_short:
  assumes "length p \<le> MAX_BODY_BYTES" "length dst < HEADER_BYTES + length p"
  shows "write_frame t p dst =
    Some (Inl (OutputTooShort (HEADER_BYTES + length p) (length dst)), dst)"
  using assms by (simp add: write_frame_def try_from_def MAX_BODY_BYTES_def U16_MAX_def)

lemma header_writes:
  assumes "3 \<le> length (dst::bytes)"
  shows "put_slice (dst[0 := a]) 1 [b, c] = [a, b, c] @ drop 3 dst"
  using assms by (cases dst) (auto simp: put_slice_def numeral_3_eq_3)

lemma write_frame_fits:
  assumes p: "length p \<le> MAX_BODY_BYTES" and fit: "HEADER_BYTES + length p \<le> length dst"
  shows "write_frame t p dst =
    Some (Inr (HEADER_BYTES + length p),
          frame_bytes \<lparr>wire_type = t, payload = p\<rparr> @ drop (HEADER_BYTES + length p) dst)"
proof -
  have len: "try_from U16_MAX (length p) = Some (length p)"
    using p by (simp add: try_from_def MAX_BODY_BYTES_def U16_MAX_def)
  obtain b c where be: "to_be_bytes16 (word_of_nat (length p)) = [b, c]"
    by (simp add: to_be_bytes16_def)
  have fit': "3 + length p \<le> length dst" using fit by (simp add: HEADER_BYTES_def)
  have ne: "dst \<noteq> []" using fit' by auto
  let ?d1 = "[wire_value t, b, c] @ drop 3 dst"
  have d1: "copy_from_slice (dst[0 := wire_value t]) 1 3 [b, c] = Some ?d1"
    using fit' header_writes [of dst] by (simp add: slice_simps)
  have d2: "copy_from_slice ?d1 3 (3 + length p) p
      = Some ([wire_value t, b, c] @ p @ drop (3 + length p) dst)"
    using fit' by (simp add: slice_simps put_slice_def numeral_3_eq_3 add.commute)
  show ?thesis
    using fit' ne d1 d2
    by (simp add: write_frame_def len be frame_bytes_def HEADER_BYTES_def slice_simps Let_def)
qed

text \<open>\<open>encode\<close> and \<open>encode_raw\<close> go through one description of the frame.\<close>

lemma encode_envelope: "encode m dst = encode_raw (envelope_of m) dst"
  by (cases m) (simp_all add: encode_raw_def)

lemma wf_envelope_of: "wf_typed m \<Longrightarrow> wf_raw (envelope_of m)"
  by (cases m) (auto simp: wf_raw_def MAX_BODY_BYTES_def)

lemma encode_raw_wf:
  assumes "wf_raw raw"
  shows "encode_raw raw dst =
    Some (if length dst < length (frame_bytes raw)
          then (Inl (OutputTooShort (length (frame_bytes raw)) (length dst)), dst)
          else (Inr (length (frame_bytes raw)),
                frame_bytes raw @ drop (length (frame_bytes raw)) dst))"
proof (cases "length dst < HEADER_BYTES + length (payload raw)")
  case True
  then show ?thesis using assms by (simp add: encode_raw_def wf_raw_def write_frame_short)
next
  case False
  then show ?thesis
    using assms write_frame_fits [of "payload raw" dst "wire_type raw"]
    by (simp add: encode_raw_def wf_raw_def)
qed

section \<open>Typed conversion is the inverse of the envelope\<close>

lemmas wire_consts = TERMINATE_def UUID_def DTMF_def ERROR_def

lemma known_rate:
  "known (rate_wire_type r) =
     Some (case r of Khz8 \<Rightarrow> Pcm8Khz | Khz12 \<Rightarrow> Pcm12Khz | Khz16 \<Rightarrow> Pcm16Khz | Khz24 \<Rightarrow> Pcm24Khz
       | Khz32 \<Rightarrow> Pcm32Khz | Khz44_1 \<Rightarrow> Pcm44Khz | Khz48 \<Rightarrow> Pcm48Khz | Khz96 \<Rightarrow> Pcm96Khz
       | Khz192 \<Rightarrow> Pcm192Khz)"
  by (cases r) (simp_all add: known_def)

lemma validate_rate:
  "validate_typed_length (rate_wire_type r) n = (if odd n then Inl OddPcmLength else Inr ())"
  by (cases r) (auto simp: validate_typed_length_def odd_iff_mod_2_eq_one)

lemma pcm_range_known:
  assumes "0x10 \<le> v" "v \<le> (0x18::u8)"
  shows "\<exists>r. WireType v = rate_wire_type r"
proof -
  have "unat v \<in> {16..24}" using assms by (simp add: word_le_nat_alt)
  then have "v = word_of_nat (unat v)" "unat v \<in> set [16..<25]" by auto
  then have "v \<in> set (map word_of_nat [16..<25])" by (metis image_eqI list.set_map)
  then have "v \<in> {16, 17, 18, 19, 20, 21, 22, 23, 24}" by (simp add: upt_rec)
  then show ?thesis
    by (auto intro: exI [of _ Khz8] exI [of _ Khz12] exI [of _ Khz16] exI [of _ Khz24]
        exI [of _ Khz32] exI [of _ Khz44_1] exI [of _ Khz48] exI [of _ Khz96] exI [of _ Khz192])
qed

fun known_wire :: "KnownWireType \<Rightarrow> WireType" where
  "known_wire KTerminate = TERMINATE"
| "known_wire KUuid = UUID"
| "known_wire KDtmf = DTMF"
| "known_wire Pcm8Khz = rate_wire_type Khz8"
| "known_wire Pcm12Khz = rate_wire_type Khz12"
| "known_wire Pcm16Khz = rate_wire_type Khz16"
| "known_wire Pcm24Khz = rate_wire_type Khz24"
| "known_wire Pcm32Khz = rate_wire_type Khz32"
| "known_wire Pcm44Khz = rate_wire_type Khz44_1"
| "known_wire Pcm48Khz = rate_wire_type Khz48"
| "known_wire Pcm96Khz = rate_wire_type Khz96"
| "known_wire Pcm192Khz = rate_wire_type Khz192"
| "known_wire KError = ERROR"

lemma known_SomeD: "known t = Some k \<Longrightarrow> t = known_wire k"
  by (cases t) (auto simp: known_def Let_def wire_consts split: if_splits)

lemma known_wire_inverse [simp]: "known (known_wire k) = Some k"
  by (cases k) (simp_all add: known_def wire_consts)

text \<open>
  The typed policy as the protocol contract states it, type by type: the error a wrong body
  gets, and the message a right body carries.
\<close>

fun body_error :: "KnownWireType \<Rightarrow> bytes \<Rightarrow> TypedMessageError option" where
  "body_error KTerminate p = (if p = [] then None else Some TerminatePayload)"
| "body_error KUuid p = (if length p = 16 then None else Some UuidLength)"
| "body_error KDtmf p =
     (if length p \<noteq> 1 then Some DtmfLength
      else if is_ascii (hd p) then None else Some DtmfNotAscii)"
| "body_error KError p = None"
| "body_error _ p = (if odd (length p) then Some OddPcmLength else None)"

fun message_of :: "KnownWireType \<Rightarrow> bytes \<Rightarrow> TypedMessage" where
  "message_of KTerminate p = MTerminate"
| "message_of KUuid p = MUuid (Uuid p)"
| "message_of KDtmf p = MDtmf (Dtmf (hd p))"
| "message_of Pcm8Khz p = MAudio Khz8 (AudioPayload p)"
| "message_of Pcm12Khz p = MAudio Khz12 (AudioPayload p)"
| "message_of Pcm16Khz p = MAudio Khz16 (AudioPayload p)"
| "message_of Pcm24Khz p = MAudio Khz24 (AudioPayload p)"
| "message_of Pcm32Khz p = MAudio Khz32 (AudioPayload p)"
| "message_of Pcm44Khz p = MAudio Khz44_1 (AudioPayload p)"
| "message_of Pcm48Khz p = MAudio Khz48 (AudioPayload p)"
| "message_of Pcm96Khz p = MAudio Khz96 (AudioPayload p)"
| "message_of Pcm192Khz p = MAudio Khz192 (AudioPayload p)"
| "message_of KError p = MError (OpaquePayload p)"

definition typed_policy :: "RawEnvelope \<Rightarrow> TypedMessageError + TypedMessage" where
  "typed_policy raw =
     (case known (wire_type raw) of
        None \<Rightarrow> Inr (raw_unknown raw)
      | Some k \<Rightarrow>
         (case body_error k (payload raw) of
            Some e \<Rightarrow> Inl e
          | None \<Rightarrow> Inr (message_of k (payload raw))))"

lemma typed_unassigned:
  assumes "known (wire_type raw) = None"
  shows "typed raw = Some (Inr (raw_unknown raw))"
proof -
  have "\<not> (0x10 \<le> wire_value (wire_type raw) \<and> wire_value (wire_type raw) \<le> 0x18)"
    using assms pcm_range_known known_rate by (metis WireType.exhaust_sel option.discI)
  then show ?thesis
    using assms
    by (auto simp: typed_def validate_typed_length_def known_def Let_def split: if_splits)
qed

lemma typed_known_wire:
  assumes "wire_type raw = known_wire k"
  shows "typed raw =
    Some (case body_error k (payload raw) of
            Some e \<Rightarrow> Inl e | None \<Rightarrow> Inr (message_of k (payload raw)))"
proof (cases k)
  case KDtmf
  then show ?thesis
    using assms
    by (cases "payload raw")
      (auto simp: typed_def validate_typed_length_def wire_consts known_def raw_dtmf_def fetch_def
        Dtmf_new_def)
qed (use assms in \<open>auto simp: typed_def validate_typed_length_def wire_consts known_def raw_uuid_def
        raw_audio_def slice_simps put_slice_def odd_iff_mod_2_eq_one\<close>)

lemma typed_eq_policy: "typed raw = Some (typed_policy raw)"
proof (cases "known (wire_type raw)")
  case None
  then show ?thesis by (simp add: typed_policy_def typed_unassigned)
next
  case (Some k)
  then show ?thesis by (simp add: typed_policy_def typed_known_wire [OF known_SomeD])
qed

lemma envelope_of_message_of:
  "body_error k p = None \<Longrightarrow> envelope_of (message_of k p) = \<lparr>wire_type = known_wire k, payload = p\<rparr>"
  by (cases k) (auto split: if_splits simp: length_Suc_conv)

lemma wf_message_of:
  "body_error k p = None \<Longrightarrow> length p \<le> MAX_BODY_BYTES \<Longrightarrow> wf_typed (message_of k p)"
  by (cases k) (auto split: if_splits)

lemma typed_sound:
  assumes "wf_raw raw" "typed raw = Some (Inr m)"
  shows "wf_typed m \<and> envelope_of m = raw"
proof (cases "known (wire_type raw)")
  case None
  then show ?thesis
    using assms by (auto simp: typed_unassigned raw_unknown_def wf_raw_def)
next
  case (Some k)
  then have t: "wire_type raw = known_wire k" by (rule known_SomeD)
  then have "body_error k (payload raw) = None" "m = message_of k (payload raw)"
    using assms(2) by (auto simp: typed_known_wire [OF t] split: option.splits)
  then show ?thesis
    using assms(1) t by (simp add: envelope_of_message_of wf_message_of wf_raw_def)
qed

lemma typed_envelope_of:
  assumes "wf_typed m"
  shows "typed (envelope_of m) = Some (Inr m)"
proof (cases m)
  case (MUnknown t p)
  then show ?thesis using assms by (simp add: typed_unassigned raw_unknown_def)
next
  case (MAudio r p)
  then show ?thesis using assms
    by (cases r) (simp_all add: typed_eq_policy typed_policy_def known_def)
qed (use assms in \<open>simp_all add: typed_eq_policy typed_policy_def known_def wire_consts\<close>)

lemma typed_policy_envelope_of: "wf_typed m \<Longrightarrow> typed_policy (envelope_of m) = Inr m"
  using typed_envelope_of [of m] by (simp add: typed_eq_policy)

section \<open>Properties\<close>

text \<open>
  C21: Encoding a well-formed message never panics.  When the destination is too short it
  reports the required and available sizes and leaves every byte unchanged; otherwise it writes
  the one-byte type, the big-endian length and the payload, returns that exact frame length and
  leaves the rest of the destination untouched.
\<close>

theorem encode_exact_or_unchanged:
  assumes "wf_typed m"
  shows "encode m dst =
    Some (let frame = frame_bytes (envelope_of m) in
          if length dst < length frame
          then (Inl (OutputTooShort (length frame) (length dst)), dst)
          else (Inr (length frame), frame @ drop (length frame) dst))"
  using encode_raw_wf [OF wf_envelope_of [OF assms]] by (simp add: encode_envelope Let_def)

theorem encode_exact_or_unchanged_witness:
  "encode (MDtmf (Dtmf 35)) [1, 2, 3, 4, 5] = Some (Inr 4, [3, 0, 1, 35, 5])"
  using encode_exact_or_unchanged [of "MDtmf (Dtmf 35)" "[1, 2, 3, 4, 5]"]
  by (simp add: is_ascii_def frame_bytes_def wire_consts to_be_bytes16_def HEADER_BYTES_def)

text \<open>
  The typed conversion never panics and follows the protocol contract type by type: an
  unassigned type byte is kept with its opaque body, and a documented type gets either its
  message or the one error its body deserves, lengths being checked before content.
\<close>

theorem typed_follows_contract:
  "typed raw =
     Some (case known (wire_type raw) of
             None \<Rightarrow> Inr (raw_unknown raw)
           | Some k \<Rightarrow>
              (case body_error k (payload raw) of
                 Some e \<Rightarrow> Inl e
               | None \<Rightarrow> Inr (message_of k (payload raw))))"
  by (simp add: typed_eq_policy typed_policy_def)

text \<open>
  C22: On bodies that fit the wire, the typed conversion loses and invents nothing: it
  succeeds with \<open>m\<close> exactly on the envelope that the encoder sends for \<open>m\<close>, and every message it
  returns is well formed.
\<close>

theorem typed_inverts_envelope:
  assumes "wf_raw raw"
  shows "typed raw = Some (Inr m) \<longleftrightarrow> wf_typed m \<and> envelope_of m = raw"
  using typed_sound [OF assms] typed_envelope_of by blast

theorem typed_inverts_envelope_witness:
  "typed \<lparr>wire_type = WireType 0x16, payload = [1, 0]\<rparr> = Some (Inr (MAudio Khz48 (AudioPayload [1, 0])))"
  using typed_inverts_envelope
    [of "\<lparr>wire_type = WireType 0x16, payload = [1, 0]\<rparr>" "MAudio Khz48 (AudioPayload [1, 0])"]
  by (simp add: wf_raw_def MAX_BODY_BYTES_def)

end
