(* ===== verification/Frame_Decoder.thy ===== *)
theory Frame_Decoder
  imports Frame_Encoder
begin

text \<open>
  Incremental bounded decoding (\<open>crates/phonowire-audiosocket/src/decoder.rs\<close>): the private
  \<open>Framer\<close>, the \<open>RawDecoder\<close> and the strict \<open>Decoder\<close>.  A \<open>feed\<close> returns the decoder, the
  remaining input slice and the result; a decoder borrows its scratch, so both decoders are
  their framer.

  The interface locale \<open>stream_decoder\<close> states what a client of either decoder relies on, and
  proves once that how a byte stream is cut into chunks does not matter; both decoders are
  interpretations.  The functional specification is \<open>framing_spec\<close>, one step of a parser over
  the bytes received since the last frame boundary.
\<close>

section \<open>Results and states\<close>

datatype 'm DecodeOutcome = NeedInput | Frame 'm

datatype DecodeError =
    InvalidLength TypedMessageError
  | ResourceLimit nat nat
  | InvalidContent TypedMessageError
  | DecodeFailed

datatype FinishError =
    TruncatedHeader nat nat
  | TruncatedPayload nat nat
  | FinishFailed

record CompletedFrame =
  frame_wire_type :: WireType
  frame_length :: nat

datatype FramerState = Header nat | Body WireType nat nat | Failed

record Framer =
  scratch :: bytes
  header :: bytes
  framer_state :: FramerState

section \<open>The framer\<close>

definition copy_prefix :: "bytes \<Rightarrow> bytes \<Rightarrow> nat \<times> bytes \<times> bytes" where
  "copy_prefix destination input =
     (let count = min (length destination) (length input) in
      (count, put_slice destination 0 (take count input), drop count input))"

definition Framer_new :: "bytes \<Rightarrow> Framer" where
  "Framer_new buf = \<lparr>scratch = buf, header = replicate HEADER_BYTES 0, framer_state = Header 0\<rparr>"

definition fail :: "Framer \<Rightarrow> Framer" where
  "fail f = f\<lparr>framer_state := Failed\<rparr>"

function Framer_feed ::
  "Framer \<Rightarrow> bytes \<Rightarrow> (WireType \<Rightarrow> nat \<Rightarrow> TypedMessageError + unit)
     \<Rightarrow> (Framer \<times> bytes \<times> (DecodeError + CompletedFrame option)) run" where
  "Framer_feed f input validate_header =
     (case framer_state f of
        Failed \<Rightarrow> Some (f, input, Inl DecodeFailed)
      | Header received \<Rightarrow> do {
          dst \<leftarrow> sub_slice (header f) received (length (header f));
          let (copied, dst, input) = copy_prefix dst input;
          let f = f\<lparr>header := put_slice (header f) received dst\<rparr>;
          let received = received + copied;
          if received < HEADER_BYTES then
            Some (f\<lparr>framer_state := Header received\<rparr>, input, Inr None)
          else
            (let t = WireType (header f ! 0);
                 len = unat (from_be_bytes16 (header f ! 1) (header f ! 2)) in
             case validate_header t len of
               Inl e \<Rightarrow> Some (fail f, input, Inl (InvalidLength e))
             | Inr _ \<Rightarrow>
                if len > length (scratch f) then
                  Some (fail f, input, Inl (ResourceLimit len (length (scratch f))))
                else if len = 0 then
                  Some (f\<lparr>framer_state := Header 0\<rparr>, input,
                        Inr (Some \<lparr>frame_wire_type = t, frame_length = len\<rparr>))
                else Framer_feed (f\<lparr>framer_state := Body t len 0\<rparr>) input validate_header)
        }
      | Body t len received \<Rightarrow> do {
          dst \<leftarrow> sub_slice (scratch f) received len;
          let (copied, dst, input) = copy_prefix dst input;
          let f = f\<lparr>scratch := put_slice (scratch f) received dst\<rparr>;
          let received = received + copied;
          if received < len then
            Some (f\<lparr>framer_state := Body t len received\<rparr>, input, Inr None)
          else
            Some (f\<lparr>framer_state := Header 0\<rparr>, input,
                  Inr (Some \<lparr>frame_wire_type = t, frame_length = len\<rparr>))
        })"
  by pat_completeness auto
termination
  by (relation "measure (\<lambda>(f, _, _). case framer_state f of Header _ \<Rightarrow> 1 | _ \<Rightarrow> 0)") auto

declare Framer_feed.simps [simp del]

definition Framer_raw :: "bytes \<Rightarrow> CompletedFrame \<Rightarrow> RawEnvelope run" where
  "Framer_raw buf frame = do {
     p \<leftarrow> sub_slice buf 0 (frame_length frame);
     Some \<lparr>wire_type = frame_wire_type frame, payload = p\<rparr>
   }"

definition Framer_finish :: "Framer \<Rightarrow> FinishError + unit" where
  "Framer_finish f =
     (case framer_state f of
        Header received \<Rightarrow>
          if received = 0 then Inr () else Inl (TruncatedHeader HEADER_BYTES received)
      | Body t len received \<Rightarrow> Inl (TruncatedPayload len received)
      | Failed \<Rightarrow> Inl FinishFailed)"

section \<open>The two public decoders\<close>

definition RawDecoder_feed ::
  "Framer \<Rightarrow> bytes \<Rightarrow> (Framer \<times> bytes \<times> (DecodeError + RawEnvelope DecodeOutcome)) run" where
  "RawDecoder_feed d input = do {
     (d, input, r) \<leftarrow> Framer_feed d input (\<lambda>_ _. Inr ());
     case r of
       Inl e \<Rightarrow> Some (d, input, Inl e)
     | Inr None \<Rightarrow> Some (d, input, Inr NeedInput)
     | Inr (Some frame) \<Rightarrow> do {
         raw \<leftarrow> Framer_raw (scratch d) frame;
         Some (d, input, Inr (Frame raw))
       }
   }"

definition Decoder_feed ::
  "Framer \<Rightarrow> bytes \<Rightarrow> (Framer \<times> bytes \<times> (DecodeError + TypedMessage DecodeOutcome)) run" where
  "Decoder_feed d input = do {
     (d, input, completed) \<leftarrow> Framer_feed d input validate_typed_length;
     case completed of
       Inl e \<Rightarrow> Some (d, input, Inl e)
     | Inr None \<Rightarrow> Some (d, input, Inr NeedInput)
     | Inr (Some frame) \<Rightarrow> do {
         raw \<leftarrow> Framer_raw (scratch d) frame;
         r \<leftarrow> typed raw;
         case r of
           Inl e \<Rightarrow> Some (d\<lparr>framer_state := Failed\<rparr>, input, Inl (InvalidContent e))
         | Inr m \<Rightarrow> Some (d, input, Inr (Frame m))
       }
   }"

abbreviation "RawDecoder_new \<equiv> Framer_new"
abbreviation "Decoder_new \<equiv> Framer_new"
abbreviation "RawDecoder_finish \<equiv> Framer_finish"
abbreviation "Decoder_finish \<equiv> Framer_finish"

section \<open>One pass of the loop, by state\<close>

text \<open>
  \<open>framer_inv v f\<close>: the fixed header array, counters inside their ranges, and, inside a body,
  a header that holds the type and length being received and that passed the check \<open>v\<close>.
\<close>

definition framer_inv :: "(WireType \<Rightarrow> nat \<Rightarrow> TypedMessageError + unit) \<Rightarrow> Framer \<Rightarrow> bool" where
  "framer_inv v f \<longleftrightarrow>
     length (header f) = HEADER_BYTES \<and>
     (case framer_state f of
        Header received \<Rightarrow> received < HEADER_BYTES
      | Body t len received \<Rightarrow>
          received < len \<and> len \<le> length (scratch f) \<and>
          t = WireType (header f ! 0) \<and>
          len = unat (from_be_bytes16 (header f ! 1) (header f ! 2)) \<and>
          v t len = Inr ()
      | Failed \<Rightarrow> True)"

lemma framer_inv_new: "framer_inv v (Framer_new buf)"
  by (simp add: framer_inv_def Framer_new_def HEADER_BYTES_def)

lemma put_slice_append:
  "i + length s \<le> length xs \<Longrightarrow>
   put_slice (put_slice xs i s) (i + length s) s' = put_slice xs i (s @ s')"
  by (simp add: put_slice_def ac_simps)

text \<open>Copying a prefix of the input into the borrow \<open>xs[i..j]\<close>, and writing the borrow back.\<close>

lemma copy_segment:
  assumes "i \<le> j" "j \<le> length xs"
  obtains d d' where "sub_slice xs i j = Some d"
    and "copy_prefix d input = (min (j - i) (length input), d', drop (j - i) input)"
    and "put_slice xs i d' = put_slice xs i (take (j - i) input)"
proof -
  let ?d = "take (j - i) (drop i xs)"
  let ?d' = "put_slice ?d 0 (take (j - i) input)"
  have len: "length ?d = j - i" using assms by simp
  have "drop (length (take (j - i) input)) ?d @ drop (i + (j - i)) xs
      = drop (i + length (take (j - i) input)) xs"
    using assms
    by (metis (no_types, lifting) add.commute append_take_drop_id drop_append drop_drop len
        le_add_diff_inverse2 length_take min.cobounded2 diff_is_0_eq drop0)
  then have "put_slice xs i ?d' = put_slice xs i (take (j - i) input)"
    using assms by (simp add: put_slice_def)
  moreover have "copy_prefix ?d input = (min (j - i) (length input), ?d', drop (j - i) input)"
    by (simp only: copy_prefix_def len) (simp add: Let_def min_def)
  ultimately show thesis using assms that by (simp add: slice_simps)
qed

definition header_done ::
  "(WireType \<Rightarrow> nat \<Rightarrow> TypedMessageError + unit) \<Rightarrow> Framer \<Rightarrow> bytes
     \<Rightarrow> (Framer \<times> bytes \<times> (DecodeError + CompletedFrame option)) run" where
  "header_done v f input =
     (let t = WireType (header f ! 0);
          len = unat (from_be_bytes16 (header f ! 1) (header f ! 2)) in
      case v t len of
        Inl e \<Rightarrow> Some (fail f, input, Inl (InvalidLength e))
      | Inr _ \<Rightarrow>
         if len > length (scratch f) then
           Some (fail f, input, Inl (ResourceLimit len (length (scratch f))))
         else if len = 0 then
           Some (f\<lparr>framer_state := Header 0\<rparr>, input,
                 Inr (Some \<lparr>frame_wire_type = t, frame_length = len\<rparr>))
         else Framer_feed (f\<lparr>framer_state := Body t len 0\<rparr>) input v)"

lemma feed_Failed:
  "framer_state f = Failed \<Longrightarrow> Framer_feed f xs v = Some (f, xs, Inl DecodeFailed)"
  by (simp add: Framer_feed.simps)

lemma framer_inv_HeaderD:
  "framer_inv v f \<Longrightarrow> framer_state f = Header r \<Longrightarrow> r < HEADER_BYTES \<and> length (header f) = HEADER_BYTES"
  by (simp add: framer_inv_def)

lemma framer_inv_BodyD:
  "framer_inv v f \<Longrightarrow> framer_state f = Body t len r \<Longrightarrow> r < len \<and> len \<le> length (scratch f)"
  by (simp add: framer_inv_def)

lemma feed_Header_short:
  assumes "framer_inv v f" "framer_state f = Header r" "r + length xs < HEADER_BYTES"
  shows "Framer_feed f xs w =
    Some (f\<lparr>header := put_slice (header f) r xs, framer_state := Header (r + length xs)\<rparr>, [], Inr None)"
proof -
  have h: "r \<le> length (header f)" "length (header f) = HEADER_BYTES"
    using framer_inv_HeaderD [OF assms(1,2)] by simp_all
  show ?thesis
    using assms(2,3) h(2)
    by (rule_tac copy_segment [OF h(1) order_refl, of xs]) (simp add: Framer_feed.simps)
qed

lemma feed_Header_full:
  assumes "framer_inv v f" "framer_state f = Header r" "HEADER_BYTES \<le> r + length xs"
  shows "Framer_feed f xs w =
    header_done w (f\<lparr>header := put_slice (header f) r (take (HEADER_BYTES - r) xs)\<rparr>)
      (drop (HEADER_BYTES - r) xs)"
proof -
  have h: "r \<le> length (header f)" "length (header f) = HEADER_BYTES"
    using framer_inv_HeaderD [OF assms(1,2)] by simp_all
  have m: "min (HEADER_BYTES - r) (length xs) = HEADER_BYTES - r" "r \<le> HEADER_BYTES"
    using assms(3) h by simp_all
  show ?thesis
    using assms(2) h(2) m
    by (rule_tac copy_segment [OF h(1) order_refl, of xs])
      (simp add: Framer_feed.simps [of f] header_done_def Let_def split: sum.split)
qed

lemma feed_Body_short:
  assumes "framer_inv v f" "framer_state f = Body t len r" "r + length xs < len"
  shows "Framer_feed f xs w =
    Some (f\<lparr>scratch := put_slice (scratch f) r xs, framer_state := Body t len (r + length xs)\<rparr>, [], Inr None)"
proof -
  have h: "r \<le> len" "len \<le> length (scratch f)"
    using framer_inv_BodyD [OF assms(1,2)] by simp_all
  show ?thesis
    using assms(2,3) by (rule_tac copy_segment [OF h, of xs]) (simp add: Framer_feed.simps)
qed

lemma feed_Body_full:
  assumes "framer_inv v f" "framer_state f = Body t len r" "len \<le> r + length xs"
  shows "Framer_feed f xs w =
    Some (f\<lparr>scratch := put_slice (scratch f) r (take (len - r) xs), framer_state := Header 0\<rparr>,
          drop (len - r) xs, Inr (Some \<lparr>frame_wire_type = t, frame_length = len\<rparr>))"
proof -
  have h: "r \<le> len" "len \<le> length (scratch f)"
    using framer_inv_BodyD [OF assms(1,2)] by simp_all
  show ?thesis
    using assms(2,3) h by (rule_tac copy_segment [OF h, of xs]) (simp add: Framer_feed.simps)
qed

section \<open>The framing specification\<close>

text \<open>
  An abstract decoder is the bytes received since the last frame boundary, or dead after a
  terminal error.  One step looks at those bytes followed by the new input.
\<close>

datatype pending = Live bytes | Dead

definition frame_step ::
  "(WireType \<Rightarrow> nat \<Rightarrow> TypedMessageError + unit) \<Rightarrow> nat \<Rightarrow> pending \<Rightarrow> bytes
     \<Rightarrow> pending \<times> bytes \<times> (DecodeError + RawEnvelope DecodeOutcome)" where
  "frame_step v cap a xs =
     (case a of
        Dead \<Rightarrow> (Dead, xs, Inl DecodeFailed)
      | Live p \<Rightarrow>
         (let bs = p @ xs;
              t = WireType (bs ! 0);
              len = unat (from_be_bytes16 (bs ! 1) (bs ! 2)) in
          if length bs < HEADER_BYTES then (Live bs, [], Inr NeedInput)
          else case v t len of
            Inl e \<Rightarrow> (Dead, drop HEADER_BYTES bs, Inl (InvalidLength e))
          | Inr _ \<Rightarrow>
             if len > cap then (Dead, drop HEADER_BYTES bs, Inl (ResourceLimit len cap))
             else if length bs < HEADER_BYTES + len then (Live bs, [], Inr NeedInput)
             else (Live [], drop (HEADER_BYTES + len) bs,
                   Inr (Frame \<lparr>wire_type = t, payload = take len (drop HEADER_BYTES bs)\<rparr>))))"

text \<open>What a framer's storage means: bytes beyond the received counts are stale.\<close>

definition framer_abs :: "Framer \<Rightarrow> pending" where
  "framer_abs f =
     (case framer_state f of
        Header r \<Rightarrow> Live (take r (header f))
      | Body t len r \<Rightarrow> Live (header f @ take r (scratch f))
      | Failed \<Rightarrow> Dead)"

definition raw_result ::
  "Framer \<times> bytes \<times> (DecodeError + CompletedFrame option)
     \<Rightarrow> (Framer \<times> bytes \<times> (DecodeError + RawEnvelope DecodeOutcome)) run" where
  "raw_result = (\<lambda>(d, input, r).
     case r of
       Inl e \<Rightarrow> Some (d, input, Inl e)
     | Inr None \<Rightarrow> Some (d, input, Inr NeedInput)
     | Inr (Some frame) \<Rightarrow> do {
         raw \<leftarrow> Framer_raw (scratch d) frame;
         Some (d, input, Inr (Frame raw))
       })"

definition Framer_raw_feed ::
  "(WireType \<Rightarrow> nat \<Rightarrow> TypedMessageError + unit) \<Rightarrow> Framer \<Rightarrow> bytes
     \<Rightarrow> (Framer \<times> bytes \<times> (DecodeError + RawEnvelope DecodeOutcome)) run" where
  "Framer_raw_feed v d input = Framer_feed d input v \<bind> raw_result"

definition framer_ok ::
  "(WireType \<Rightarrow> nat \<Rightarrow> TypedMessageError + unit) \<Rightarrow> nat \<Rightarrow> Framer \<Rightarrow> bool" where
  "framer_ok v cap f \<longleftrightarrow> framer_inv v f \<and> length (scratch f) = cap"

lemma header_three:
  assumes "length h = HEADER_BYTES"
  obtains a b c where "h = [a, b, c]"
  using assms by (auto simp: HEADER_BYTES_def numeral_3_eq_3 length_Suc_conv)

lemma body_simulates:
  assumes ok: "framer_ok v cap f" and st: "framer_state f = Body t len r"
    and step: "frame_step v cap (framer_abs f) xs = (a', rest, res)"
  shows "\<exists>f'. Framer_raw_feed v f xs = Some (f', rest, res) \<and> framer_ok v cap f' \<and> framer_abs f' = a'"
proof -
  have inv: "framer_inv v f" and cap: "length (scratch f) = cap" using ok by (auto simp: framer_ok_def)
  obtain a b c where h: "header f = [a, b, c]" using header_three [of "header f"] inv
    by (auto simp: framer_inv_def)
  have body: "r < len" "len \<le> cap" "t = WireType a" "unat (from_be_bytes16 b c) = len" "v t len = Inr ()"
    using inv st h cap by (auto simp: framer_inv_def)
  have abs: "framer_abs f = Live ([a, b, c] @ take r (scratch f))"
    using st h by (simp add: framer_abs_def)
  have r: "length (take r (scratch f)) = r" using body cap by simp
  show ?thesis
  proof (cases "r + length xs < len")
    case True
    let ?f' = "f\<lparr>scratch := put_slice (scratch f) r xs, framer_state := Body t len (r + length xs)\<rparr>"
    have "(a', rest, res) = (Live ([a, b, c] @ take r (scratch f) @ xs), [], Inr NeedInput)"
      using step body True r by (simp add: frame_step_def abs HEADER_BYTES_def)
    moreover have "framer_inv v ?f'"
      using True body h cap by (simp add: framer_inv_def HEADER_BYTES_def)
    ultimately show ?thesis
      using feed_Body_short [OF inv st True] True body h cap
      by (simp add: Framer_raw_feed_def raw_result_def framer_ok_def framer_abs_def)
  next
    case False
    let ?f' = "f\<lparr>scratch := put_slice (scratch f) r (take (len - r) xs), framer_state := Header 0\<rparr>"
    have le: "len \<le> r + length xs" using False by simp
    have "(a', rest, res) = (Live [], drop (len - r) xs,
        Inr (Frame \<lparr>wire_type = t, payload = take r (scratch f) @ take (len - r) xs\<rparr>))"
      using step body False r by (simp add: frame_step_def abs HEADER_BYTES_def numeral_3_eq_3)
    moreover have "take len (put_slice (scratch f) r (take (len - r) xs)) = take r (scratch f) @ take (len - r) xs"
      using take_put_slice_self [of r "scratch f" "take (len - r) xs"] le body cap by simp
    moreover have "framer_inv v ?f'" using h by (simp add: framer_inv_def HEADER_BYTES_def)
    ultimately show ?thesis
      using feed_Body_full [OF inv st le] le body cap
      by (simp add: Framer_raw_feed_def raw_result_def framer_ok_def framer_abs_def Framer_raw_def slice_simps)
  qed
qed

lemma header_done_simulates:
  assumes h: "header f = [a, b, c]" and cap: "length (scratch f) = cap"
    and step: "frame_step v cap (Live []) ([a, b, c] @ ys) = (a', rest, res)"
  shows "\<exists>f'. (header_done v f ys \<bind> raw_result) = Some (f', rest, res)
    \<and> framer_ok v cap f' \<and> framer_abs f' = a'"
proof -
  let ?t = "WireType a" and ?len = "unat (from_be_bytes16 b c)"
  let ?f2 = "f\<lparr>framer_state := Body ?t ?len 0\<rparr>"
  consider (invalid) e where "v ?t ?len = Inl e"
    | (large) "v ?t ?len = Inr ()" "?len > cap"
    | (empty) "v ?t ?len = Inr ()" "?len \<le> cap" "?len = 0"
    | (body) "v ?t ?len = Inr ()" "?len \<le> cap" "?len \<noteq> 0"
    by (cases "v ?t ?len"; cases "?len = 0"; cases "?len > cap") (simp_all add: not_less)
  then show ?thesis
  proof cases
    case body
    have ok: "framer_ok v cap ?f2"
      using body h cap by (simp add: framer_ok_def framer_inv_def HEADER_BYTES_def)
    have "frame_step v cap (framer_abs ?f2) ys = (a', rest, res)"
      using step h by (simp add: frame_step_def framer_abs_def)
    from body_simulates [OF ok _ this] show ?thesis
      using body h cap by (simp add: header_done_def Framer_raw_feed_def)
  qed (use h cap step in \<open>auto simp: header_done_def raw_result_def frame_step_def framer_ok_def framer_inv_def
        framer_abs_def fail_def HEADER_BYTES_def Framer_raw_def slice_simps\<close>)
qed

lemma framer_simulates:
  assumes ok: "framer_ok v cap f" and step: "frame_step v cap (framer_abs f) xs = (a', rest, res)"
  shows "\<exists>f'. Framer_raw_feed v f xs = Some (f', rest, res) \<and> framer_ok v cap f' \<and> framer_abs f' = a'"
proof (cases "framer_state f")
  case (Body t len r)
  then show ?thesis by (rule body_simulates [OF ok _ step])
next
  case Failed
  then show ?thesis using ok step
    by (auto simp: Framer_raw_feed_def raw_result_def feed_Failed frame_step_def framer_abs_def)
next
  case (Header r)
  have inv: "framer_inv v f" and cap: "length (scratch f) = cap" using ok by (auto simp: framer_ok_def)
  have h: "r < HEADER_BYTES" "length (header f) = HEADER_BYTES"
    using framer_inv_HeaderD [OF inv Header] by simp_all
  have abs: "framer_abs f = Live (take r (header f))" using Header by (simp add: framer_abs_def)
  show ?thesis
  proof (cases "r + length xs < HEADER_BYTES")
    case True
    then have "(a', rest, res) = (Live (take r (header f) @ xs), [], Inr NeedInput)"
      using step h by (simp add: frame_step_def abs)
    with True show ?thesis
      using feed_Header_short [OF inv Header True, of v] h cap
      by (simp add: Framer_raw_feed_def raw_result_def framer_ok_def framer_inv_def framer_abs_def)
  next
    case False
    let ?h = "put_slice (header f) r (take (HEADER_BYTES - r) xs)"
    let ?f1 = "f\<lparr>header := ?h\<rparr>" and ?ys = "drop (HEADER_BYTES - r) xs"
    have hd: "?h = take r (header f) @ take (HEADER_BYTES - r) xs"
      using False h by (simp add: put_slice_def)
    then have "length ?h = HEADER_BYTES" using False h by simp
    then obtain a b c where abc: "?h = [a, b, c]" by (rule header_three)
    then have "take r (header f) @ xs = [a, b, c] @ ?ys" using hd
      by (metis append.assoc append_take_drop_id)
    then have "frame_step v cap (Live []) ([a, b, c] @ ?ys) = (a', rest, res)"
      using step by (simp only: frame_step_def abs pending.case append_Nil)
    then show ?thesis
      using header_done_simulates [of ?f1 a b c cap v ?ys a' rest res] abc cap False
        feed_Header_full [OF inv Header, of xs v]
      by (simp add: Framer_raw_feed_def)
  qed
qed

section \<open>Draining a stream\<close>

text \<open>
  The consumer loop around either decoder, as the crate's example runs it: feed while the input
  slice is not empty, collect the frames, stop at the first decoder error.  \<open>None\<close> stands for a
  panic or for a loop that does not end; the lemmas below exclude both.
\<close>

partial_function (option) drain ::
  "('d \<Rightarrow> bytes \<Rightarrow> ('d \<times> bytes \<times> ('e + 'm DecodeOutcome)) option) \<Rightarrow> 'd \<Rightarrow> bytes
     \<Rightarrow> ('d \<times> 'm list \<times> 'e option) option" where
  "drain feed d input =
     (if input = [] then Some (d, [], None)
      else do {
        (d, input, r) \<leftarrow> feed d input;
        case r of
          Inl e \<Rightarrow> Some (d, [], Some e)
        | Inr NeedInput \<Rightarrow> drain feed d input
        | Inr (Frame m) \<Rightarrow> do {
            (d, ms, e) \<leftarrow> drain feed d input;
            Some (d, m # ms, e)
          }
      })"

fun drain_chunks ::
  "('d \<Rightarrow> bytes \<Rightarrow> ('d \<times> bytes \<times> ('e + 'm DecodeOutcome)) option) \<Rightarrow> 'd \<Rightarrow> bytes list
     \<Rightarrow> ('d \<times> 'm list \<times> 'e option) option" where
  "drain_chunks feed d [] = Some (d, [], None)"
| "drain_chunks feed d (c # cs) = do {
     (d, ms, e) \<leftarrow> drain feed d c;
     case e of
       Some e \<Rightarrow> Some (d, ms, Some e)
     | None \<Rightarrow> do {
         (d, ms', e') \<leftarrow> drain_chunks feed d cs;
         Some (d, ms @ ms', e')
       }
   }"

text \<open>
  What a client relies on.  \<open>step\<close> is the decoder's meaning over abstract states; every
  decoder in a good state behaves as \<open>step\<close> says; \<open>NeedInput\<close> takes all the input and resumes
  exactly; a frame or an error does not depend on the bytes after it; a frame uses input.
\<close>

locale stream_decoder =
  fixes feed :: "'d \<Rightarrow> bytes \<Rightarrow> ('d \<times> bytes \<times> ('e + 'm DecodeOutcome)) option"
    and good :: "'d \<Rightarrow> bool"
    and absd :: "'d \<Rightarrow> 'a"
    and step :: "'a \<Rightarrow> bytes \<Rightarrow> 'a \<times> bytes \<times> ('e + 'm DecodeOutcome)"
  assumes feed_step: "good d \<Longrightarrow> step (absd d) xs = (a', rest, r) \<Longrightarrow>
      \<exists>d'. feed d xs = Some (d', rest, r) \<and> good d' \<and> absd d' = a'"
    and step_need: "good d \<Longrightarrow> step (absd d) xs = (a', rest, Inr NeedInput) \<Longrightarrow>
      rest = [] \<and> step (absd d) (xs @ ys) = step a' ys"
    and step_done: "good d \<Longrightarrow> step (absd d) xs = (a', rest, r) \<Longrightarrow> r \<noteq> Inr NeedInput \<Longrightarrow>
      step (absd d) (xs @ ys) = (a', rest @ ys, r)"
    and step_progress: "good d \<Longrightarrow> step (absd d) xs = (a', rest, Inr (Frame m)) \<Longrightarrow>
      length rest < length xs"
begin

lemma feed_cases:
  assumes "good d"
  obtains (need) d' where "feed d xs = Some (d', [], Inr NeedInput)" "good d'"
      "step (absd d) xs = (absd d', [], Inr NeedInput)"
  | (frame) d' rest m where "feed d xs = Some (d', rest, Inr (Frame m))" "good d'"
      "step (absd d) xs = (absd d', rest, Inr (Frame m))" "length rest < length xs"
  | (error) d' rest e where "feed d xs = Some (d', rest, Inl e)" "good d'"
      "step (absd d) xs = (absd d', rest, Inl e)"
proof -
  obtain a' rest r where st: "step (absd d) xs = (a', rest, r)" by (cases "step (absd d) xs")
  obtain d' where d': "feed d xs = Some (d', rest, r)" "good d'" "absd d' = a'"
    using feed_step [OF assms st] by blast
  show thesis
  proof (cases r)
    case (Inl e)
    then show ?thesis using d' st error by simp
  next
    case (Inr x)
    then show ?thesis
      using d' st need frame step_need [OF assms] step_progress [OF assms]
      by (cases x) auto
  qed
qed

lemma drain_empty [simp]: "drain feed d [] = Some (d, [], None)"
  by (simp add: drain.simps)

text \<open>The loop ends, never panics, and depends on the abstract state only.\<close>

lemma drain_total:
  "good d \<Longrightarrow> good d2 \<Longrightarrow> absd d2 = absd d \<Longrightarrow>
   \<exists>d' d2' ms e. drain feed d xs = Some (d', ms, e) \<and> good d' \<and>
     drain feed d2 xs = Some (d2', ms, e) \<and> good d2' \<and> absd d2' = absd d'"
proof (induction xs arbitrary: d d2 rule: length_induct)
  case (1 xs)
  show ?case
  proof (cases "xs = []")
    case True
    with 1 show ?thesis by auto
  next
    case False
    note unf = drain.simps [of feed d xs] drain.simps [of feed d2 xs]
    from \<open>good d\<close> show ?thesis
    proof (cases rule: feed_cases [of _ xs])
      case (need d')
      with 1 feed_step [of d2 xs] False show ?thesis by (auto simp: unf)
    next
      case (error d' rest e)
      with 1 feed_step [of d2 xs] False show ?thesis by (auto simp: unf)
    next
      case (frame d' rest m)
      then obtain d2' where d2': "feed d2 xs = Some (d2', rest, Inr (Frame m))" "good d2'" "absd d2' = absd d'"
        using 1 feed_step [of d2 xs] by auto
      with 1 frame obtain f f2 ms e where
        "drain feed d' rest = Some (f, ms, e)" "good f"
        "drain feed d2' rest = Some (f2, ms, e)" "good f2" "absd f2 = absd f"
        by meson
      with frame d2' False show ?thesis by (auto simp: unf)
    qed
  qed
qed

text \<open>\<open>drains d xs a ms e\<close>: the loop over \<open>xs\<close> ends in a good decoder whose meaning is \<open>a\<close>.\<close>

definition drains :: "'d \<Rightarrow> bytes \<Rightarrow> 'a \<Rightarrow> 'm list \<Rightarrow> 'e option \<Rightarrow> bool" where
  "drains d xs a ms e \<longleftrightarrow> (\<exists>d'. drain feed d xs = Some (d', ms, e) \<and> good d' \<and> absd d' = a)"

lemma drains_ex: "good d \<Longrightarrow> \<exists>a ms e. drains d xs a ms e"
  unfolding drains_def using drain_total by blast

lemma drains_cong: "good d \<Longrightarrow> good d2 \<Longrightarrow> absd d2 = absd d \<Longrightarrow> drains d2 xs a ms e \<longleftrightarrow> drains d xs a ms e"
  unfolding drains_def using drain_total [of d d2 xs] by auto

lemma drains_need:
  "good d \<Longrightarrow> xs \<noteq> [] \<Longrightarrow> step (absd d) xs = (b, rest, Inr NeedInput) \<Longrightarrow>
   drains d xs a ms e \<longleftrightarrow> a = b \<and> ms = [] \<and> e = None"
  using feed_step [of d xs] step_need [of d xs]
  by (fastforce simp: drains_def drain.simps [of feed d xs])

lemma drains_error:
  "good d \<Longrightarrow> xs \<noteq> [] \<Longrightarrow> step (absd d) xs = (b, rest, Inl err) \<Longrightarrow>
   drains d xs a ms e \<longleftrightarrow> a = b \<and> ms = [] \<and> e = Some err"
  using feed_step [of d xs] by (fastforce simp: drains_def drain.simps [of feed d xs])

lemma drains_frame:
  assumes "good d" "xs \<noteq> []" "step (absd d) xs = (absd d', rest, Inr (Frame m))" "good d'"
  shows "drains d xs a ms e \<longleftrightarrow> (\<exists>ms'. ms = m # ms' \<and> drains d' rest a ms' e)"
proof -
  obtain d2 where d2: "feed d xs = Some (d2, rest, Inr (Frame m))" "good d2" "absd d2 = absd d'"
    using feed_step [OF assms(1,3)] by blast
  have "drains d xs a ms e \<longleftrightarrow> (\<exists>ms'. ms = m # ms' \<and> drains d2 rest a ms' e)"
    using assms(2) d2
    by (auto simp: drains_def drain.simps [of feed d xs] bind_eq_Some_conv split: prod.splits)
  then show ?thesis using drains_cong [OF assms(4) d2(2,3)] by simp
qed

lemma drains_resume:
  assumes "good d" "good d'" "step (absd d) xs = (absd d', rest, Inr NeedInput)" "xs \<noteq> []"
  shows "drains d (xs @ ys) a ms e \<longleftrightarrow> drains d' ys a ms e"
proof (cases "ys = []")
  case True
  then show ?thesis using assms drains_need by (auto simp: drains_def)
next
  case False
  have same: "step (absd d) (xs @ ys) = step (absd d') ys" using assms step_need by auto
  from \<open>good d'\<close> show ?thesis
  proof (cases rule: feed_cases [of _ ys])
    case (frame d3 rest' m)
    then show ?thesis
      using assms False same drains_frame [of d "xs @ ys" d3 rest' m] drains_frame [of d' ys d3 rest' m] by simp
  qed (use assms False same in \<open>auto simp: drains_need drains_error\<close>)
qed

lemma drains_append:
  "good d \<Longrightarrow> drains d xs b ms e \<Longrightarrow>
   (case e of
      Some err \<Rightarrow> drains d (xs @ ys) b ms e
    | None \<Rightarrow> \<forall>d1 a ms' e'. good d1 \<longrightarrow> absd d1 = b \<longrightarrow> drains d1 ys a ms' e' \<longrightarrow>
        drains d (xs @ ys) a (ms @ ms') e')"
proof (induction xs arbitrary: d ms rule: length_induct)
  case (1 xs)
  show ?case
  proof (cases "xs = []")
    case True
    then have "b = absd d" "ms = []" "e = None" using 1 by (auto simp: drains_def)
    moreover have "drains d ys a ms' e' \<longleftrightarrow> drains d1 ys a ms' e'"
      if "good d1" "absd d1 = absd d" for d1 a ms' e'
      by (rule drains_cong [OF 1(2) that, symmetric])
    ultimately show ?thesis using True by simp
  next
    case False
    from \<open>good d\<close> show ?thesis
    proof (cases rule: feed_cases [of _ xs])
      case (need d')
      have "b = absd d'" "ms = []" "e = None"
        using drains_need [OF 1(2) False need(3)] 1(3) by simp_all
      moreover have "drains d (xs @ ys) a ms' e' \<longleftrightarrow> drains d' ys a ms' e'" for a ms' e'
        using drains_resume [OF 1(2) need(2,3) False] .
      moreover have "drains d1 ys a ms' e' \<longleftrightarrow> drains d' ys a ms' e'"
        if "good d1" "absd d1 = absd d'" for d1 a ms' e'
        by (rule drains_cong [OF need(2) that])
      ultimately show ?thesis by simp
    next
      case (error d' rest err)
      then have "step (absd d) (xs @ ys) = (absd d', rest @ ys, Inl err)"
        using step_done 1(2) by blast
      then show ?thesis using error 1(2,3) False by (auto simp: drains_error)
    next
      case (frame d' rest m)
      obtain ms1 where ms1: "ms = m # ms1" "drains d' rest b ms1 e"
        using 1(2,3) False drains_frame [OF _ _ frame(3,2)] by auto
      have "step (absd d) (xs @ ys) = (absd d', rest @ ys, Inr (Frame m))"
        using step_done 1(2) frame by blast
      then have "drains d (xs @ ys) a (m # ms') e' \<longleftrightarrow> drains d' (rest @ ys) a ms' e'" for a ms' e'
        using drains_frame [of d "xs @ ys" d' "rest @ ys" m] 1(2) False frame by auto
      moreover note 1(1) [rule_format, OF frame(4) frame(2) ms1(2)]
      ultimately show ?thesis by (auto simp: ms1 split: option.splits)
    qed
  qed
qed

text \<open>How the stream is cut does not matter.\<close>

lemma drain_chunks_concat:
  "good d \<Longrightarrow> drains d (concat cs) a ms e \<Longrightarrow>
   \<exists>d'. drain_chunks feed d cs = Some (d', ms, e) \<and> good d' \<and> absd d' = a"
proof (induction cs arbitrary: d a ms)
  case Nil
  then show ?case by (simp add: drains_def)
next
  case (Cons c cs)
  obtain b ms1 e1 where 1: "drains d c b ms1 e1" using drains_ex Cons.prems by blast
  then obtain d1 where d1: "drain feed d c = Some (d1, ms1, e1)" "good d1" "absd d1 = b"
    by (auto simp: drains_def)
  show ?case
  proof (cases e1)
    case (Some err)
    then have "drains d (c @ concat cs) b ms1 e1" using drains_append [OF Cons.prems(1) 1] by simp
    with Cons.prems(2) have "a = b" "ms = ms1" "e = e1" by (auto simp: drains_def)
    then show ?thesis using d1 Some by simp
  next
    case None
    obtain a2 ms2 e2 where 2: "drains d1 (concat cs) a2 ms2 e2" using drains_ex d1 by blast
    then have "drains d (c @ concat cs) a2 (ms1 @ ms2) e2"
      using drains_append [OF Cons.prems(1) 1] None d1 by simp
    with Cons.prems(2) have eq: "a = a2" "ms = ms1 @ ms2" "e = e2" by (auto simp: drains_def)
    with Cons.IH [OF d1(2)] 2 obtain d2 where
      "drain_chunks feed d1 cs = Some (d2, ms2, e)" "good d2" "absd d2 = a" by blast
    then show ?thesis using d1 None eq by simp
  qed
qed

end

section \<open>Both decoders are stream decoders\<close>

lemma frame_step_needD:
  "frame_step v cap a xs = (a', rest, Inr NeedInput) \<Longrightarrow> \<exists>p. a = Live p \<and> a' = Live (p @ xs) \<and> rest = []"
  by (cases a) (auto simp: frame_step_def Let_def split: if_splits sum.splits)

lemma frame_step_need:
  assumes "frame_step v cap a xs = (a', rest, Inr NeedInput)"
  shows "rest = [] \<and> frame_step v cap a (xs @ ys) = frame_step v cap a' ys"
proof -
  obtain p where "a = Live p" "a' = Live (p @ xs)" "rest = []"
    using frame_step_needD [OF assms] by blast
  then show ?thesis by (simp only: frame_step_def pending.case append.assoc simp_thms)
qed

lemma three_prefix: "HEADER_BYTES \<le> length bs \<Longrightarrow> \<exists>x y z zs. bs = x # y # z # zs"
  by (auto simp: HEADER_BYTES_def numeral_3_eq_3 Suc_le_length_iff)

lemma frame_step_Live: "frame_step v cap (Live p) xs = frame_step v cap (Live []) (p @ xs)"
  by (simp only: frame_step_def pending.case append_Nil)

lemma frame_step_short:
  "length bs < HEADER_BYTES \<Longrightarrow> frame_step v cap (Live []) bs = (Live bs, [], Inr NeedInput)"
  by (simp add: frame_step_def)

lemma frame_step_Cons3:
  "frame_step v cap (Live []) (x # y # z # zs) =
     (case v (WireType x) (unat (from_be_bytes16 y z)) of
        Inl e \<Rightarrow> (Dead, zs, Inl (InvalidLength e))
      | Inr _ \<Rightarrow>
         if unat (from_be_bytes16 y z) > cap
         then (Dead, zs, Inl (ResourceLimit (unat (from_be_bytes16 y z)) cap))
         else if length zs < unat (from_be_bytes16 y z) then (Live (x # y # z # zs), [], Inr NeedInput)
         else (Live [], drop (unat (from_be_bytes16 y z)) zs,
               Inr (Frame \<lparr>wire_type = WireType x, payload = take (unat (from_be_bytes16 y z)) zs\<rparr>)))"
  by (simp add: frame_step_def Let_def HEADER_BYTES_def numeral_3_eq_3 split: sum.split)

lemma frame_step_done_Nil:
  assumes "frame_step v cap (Live []) bs = (a', rest, r)" "r \<noteq> Inr NeedInput"
  shows "frame_step v cap (Live []) (bs @ ys) = (a', rest @ ys, r)"
proof (cases "length bs < HEADER_BYTES")
  case True
  then show ?thesis using assms by (auto simp: frame_step_short)
next
  case False
  then obtain x y z zs where "bs = x # y # z # zs" using three_prefix [of bs] by (auto simp: not_less)
  then show ?thesis
    using assms by (auto simp: frame_step_Cons3 split: sum.splits if_splits)
qed

lemma frame_step_done:
  assumes "frame_step v cap a xs = (a', rest, r)" "r \<noteq> Inr NeedInput"
  shows "frame_step v cap a (xs @ ys) = (a', rest @ ys, r)"
proof (cases a)
  case Dead
  then show ?thesis using assms by (auto simp: frame_step_def)
next
  case (Live p)
  then show ?thesis
    using assms frame_step_done_Nil [of v cap "p @ xs" a' rest r ys] frame_step_Live [of v cap p]
    by simp
qed

lemma frame_step_progress:
  assumes "framer_ok v cap f" "frame_step v cap (framer_abs f) xs = (a', rest, Inr (Frame m))"
  shows "length rest < length xs"
proof (cases "framer_state f")
  case (Header r)
  then show ?thesis using assms
    by (auto simp: framer_ok_def framer_inv_def framer_abs_def frame_step_def Let_def
        split: sum.splits if_splits)
next
  case (Body t len r)
  then obtain a b c where "header f = [a, b, c]"
    using assms(1) header_three [of "header f"] by (auto simp: framer_ok_def framer_inv_def)
  then show ?thesis using assms Body
    by (auto simp: framer_ok_def framer_inv_def framer_abs_def frame_step_def HEADER_BYTES_def Let_def
        split: sum.splits if_splits)
next
  case Failed
  then show ?thesis using assms by (simp add: framer_abs_def frame_step_def)
qed

lemma framer_stream_decoder:
  "stream_decoder (Framer_raw_feed v) (framer_ok v cap) framer_abs (frame_step v cap)"
  by unfold_locales
    (auto dest: framer_simulates frame_step_need frame_step_done frame_step_progress)

abbreviation accept_any :: "WireType \<Rightarrow> nat \<Rightarrow> TypedMessageError + unit" where
  "accept_any \<equiv> (\<lambda>_ _. Inr ())"

lemma RawDecoder_feed_alt: "RawDecoder_feed = Framer_raw_feed accept_any"
  by (simp add: fun_eq_iff RawDecoder_feed_def Framer_raw_feed_def raw_result_def)

interpretation raw_stream: stream_decoder RawDecoder_feed "framer_ok accept_any cap" framer_abs
  "frame_step accept_any cap" for cap
  unfolding RawDecoder_feed_alt by (rule framer_stream_decoder)

definition typed_result ::
  "'a \<times> bytes \<times> (DecodeError + RawEnvelope DecodeOutcome) \<Rightarrow> ('a \<Rightarrow> 'a)
     \<Rightarrow> 'a \<times> bytes \<times> (DecodeError + TypedMessage DecodeOutcome)" where
  "typed_result x die = (case x of
       (d, input, Inl e) \<Rightarrow> (d, input, Inl e)
     | (d, input, Inr NeedInput) \<Rightarrow> (d, input, Inr NeedInput)
     | (d, input, Inr (Frame raw)) \<Rightarrow>
        (case typed_policy raw of
           Inl e \<Rightarrow> (die d, input, Inl (InvalidContent e))
         | Inr m \<Rightarrow> (d, input, Inr (Frame m))))"

definition typed_step ::
  "nat \<Rightarrow> pending \<Rightarrow> bytes \<Rightarrow> pending \<times> bytes \<times> (DecodeError + TypedMessage DecodeOutcome)" where
  "typed_step cap a xs = typed_result (frame_step validate_typed_length cap a xs) (\<lambda>_. Dead)"

lemma Decoder_feed_alt:
  "Decoder_feed d xs =
     map_option (\<lambda>x. typed_result x fail) (Framer_raw_feed validate_typed_length d xs)"
  by (simp add: Decoder_feed_def Framer_raw_feed_def raw_result_def typed_result_def typed_eq_policy
      fail_def map_conv_bind_option)
    (auto intro!: Option.bind_cong simp: typed_eq_policy fail_def split: sum.splits option.splits)

lemma fail_dead: "framer_ok v cap f \<Longrightarrow> framer_ok v cap (fail f) \<and> framer_abs (fail f) = Dead"
  by (simp add: framer_ok_def framer_inv_def framer_abs_def fail_def)

lemma typed_simulates:
  assumes "framer_ok validate_typed_length cap f"
    and "typed_step cap (framer_abs f) xs = (a', rest, r)"
  shows "\<exists>f'. Decoder_feed f xs = Some (f', rest, r) \<and> framer_ok validate_typed_length cap f'
    \<and> framer_abs f' = a'"
proof -
  obtain b rest0 r0 where st: "frame_step validate_typed_length cap (framer_abs f) xs = (b, rest0, r0)"
    by (cases "frame_step validate_typed_length cap (framer_abs f) xs")
  then obtain f' where f': "Framer_raw_feed validate_typed_length f xs = Some (f', rest0, r0)"
    "framer_ok validate_typed_length cap f'" "framer_abs f' = b"
    using framer_simulates [OF assms(1) st] by blast
  show ?thesis
    using assms(2) st f' fail_dead [OF f'(2)]
    by (auto simp: Decoder_feed_alt typed_step_def typed_result_def
        split: sum.splits DecodeOutcome.splits)
qed

interpretation typed_stream: stream_decoder Decoder_feed "framer_ok validate_typed_length cap" framer_abs
  "typed_step cap" for cap
proof unfold_locales
  fix d xs a' rest r
  assume "framer_ok validate_typed_length cap d" "typed_step cap (framer_abs d) xs = (a', rest, r)"
  then show "\<exists>d'. Decoder_feed d xs = Some (d', rest, r) \<and> framer_ok validate_typed_length cap d'
      \<and> framer_abs d' = a'"
    by (rule typed_simulates)
next
  fix d xs a' rest ys
  assume "typed_step cap (framer_abs d) xs = (a', rest, Inr NeedInput)"
  then show "rest = [] \<and> typed_step cap (framer_abs d) (xs @ ys) = typed_step cap a' ys"
  proof -
    assume "typed_step cap (framer_abs d) xs = (a', rest, Inr NeedInput)"
    then have "frame_step validate_typed_length cap (framer_abs d) xs = (a', rest, Inr NeedInput)"
      by (auto simp: typed_step_def typed_result_def split: prod.splits sum.splits DecodeOutcome.splits)
    from frame_step_need [OF this, of ys] show ?thesis by (simp add: typed_step_def)
  qed
next
  fix d xs a' rest r ys
  assume "typed_step cap (framer_abs d) xs = (a', rest, r)" "r \<noteq> Inr NeedInput"
  then show "typed_step cap (framer_abs d) (xs @ ys) = (a', rest @ ys, r)"
    by (auto simp: typed_step_def typed_result_def dest: frame_step_done [where ys = ys]
        split: prod.splits sum.splits DecodeOutcome.splits)
next
  fix d xs a' rest m
  assume "framer_ok validate_typed_length cap d" "typed_step cap (framer_abs d) xs = (a', rest, Inr (Frame m))"
  then show "length rest < length xs"
    by (auto simp: typed_step_def typed_result_def dest: frame_step_progress
        split: prod.splits sum.splits DecodeOutcome.splits)
qed

section \<open>The reference parser\<close>

text \<open>
  The frames of a complete byte string, the bytes left over and the error that stops the
  parse: a recursive descent over the string, with no buffer and no counter.  The strict
  decoder's reference applies the typed policy to those frames in order.
\<close>

function (sequential) parse_frames ::
  "(WireType \<Rightarrow> nat \<Rightarrow> TypedMessageError + unit) \<Rightarrow> nat \<Rightarrow> bytes
     \<Rightarrow> RawEnvelope list \<times> pending \<times> DecodeError option" where
  "parse_frames v cap (x # y # z # zs) =
     (let len = unat (from_be_bytes16 y z) in
      case v (WireType x) len of
        Inl e \<Rightarrow> ([], Dead, Some (InvalidLength e))
      | Inr _ \<Rightarrow>
         if len > cap then ([], Dead, Some (ResourceLimit len cap))
         else if length zs < len then ([], Live (x # y # z # zs), None)
         else
           (case parse_frames v cap (drop len zs) of
              (fs, a, e) \<Rightarrow> (\<lparr>wire_type = WireType x, payload = take len zs\<rparr> # fs, a, e)))"
| "parse_frames v cap bs = ([], Live bs, None)"
  by pat_completeness auto
termination by (relation "measure (\<lambda>(_, _, bs). length bs)") auto

fun type_frames ::
  "RawEnvelope list \<Rightarrow> pending \<Rightarrow> DecodeError option \<Rightarrow> TypedMessage list \<times> pending \<times> DecodeError option"
  where
  "type_frames [] a e = ([], a, e)"
| "type_frames (raw # fs) a e =
     (case typed_policy raw of
        Inl err \<Rightarrow> ([], Dead, Some (InvalidContent err))
      | Inr m \<Rightarrow> (case type_frames fs a e of (ms, a', e') \<Rightarrow> (m # ms, a', e')))"

definition parse_messages :: "nat \<Rightarrow> bytes \<Rightarrow> TypedMessage list \<times> pending \<times> DecodeError option" where
  "parse_messages cap bs =
     (case parse_frames validate_typed_length cap bs of (fs, a, e) \<Rightarrow> type_frames fs a e)"

lemma parse_frames_short:
  "length bs < HEADER_BYTES \<Longrightarrow> parse_frames v cap bs = ([], Live bs, None)"
  by (cases "(v, cap, bs)" rule: parse_frames.cases) (auto simp: HEADER_BYTES_def)

text \<open>Parsing a longer string continues from what a shorter one left pending.\<close>

lemma parse_frames_append:
  "parse_frames v cap (bs @ zs) =
     (case parse_frames v cap bs of
        (fs, Live p, None) \<Rightarrow> (case parse_frames v cap (p @ zs) of (gs, a, e) \<Rightarrow> (fs @ gs, a, e))
      | (fs, a, e) \<Rightarrow> (fs, a, e))"
proof (induction v cap bs rule: parse_frames.induct)
  case (1 v cap x y z xs)
  let ?len = "unat (from_be_bytes16 y z)"
  show ?case
  proof (cases "length xs < ?len")
    case False
    then have IH: "\<not> cap < ?len \<Longrightarrow> v (WireType x) ?len = Inr u \<Longrightarrow> parse_frames v cap (drop ?len xs @ zs) =
      (case parse_frames v cap (drop ?len xs) of
        (fs, Live p, None) \<Rightarrow> (case parse_frames v cap (p @ zs) of (gs, a, e) \<Rightarrow> (fs @ gs, a, e))
      | (fs, a, e) \<Rightarrow> (fs, a, e))" for u
      using 1 by simp
    with False show ?thesis
      by (auto simp: Let_def split: sum.splits prod.splits pending.splits option.splits)
  qed (auto simp: Let_def split: sum.splits prod.splits)
qed (auto split: prod.splits)

lemma parse_frames_bytes: "parse_frames v cap bs = (fs, Live p, None) \<Longrightarrow> length bs = length (concat (map frame_bytes fs)) + length p"
proof (induction v cap bs arbitrary: fs rule: parse_frames.induct)
  case (1 v cap x y z xs)
  then show ?case
    by (auto simp: Let_def HEADER_BYTES_def split: sum.splits prod.splits if_splits)
qed auto

lemma framer_ok_new: "framer_ok v (length buf) (Framer_new buf)"
  by (simp add: framer_ok_def framer_inv_new) (simp add: Framer_new_def)

lemma framer_abs_new: "framer_abs (Framer_new buf) = Live []"
  by (simp add: framer_abs_def Framer_new_def)

text \<open>One step of the parser is one step of the framing specification.\<close>

lemma parse_frames_step:
  "parse_frames v cap bs =
     (case frame_step v cap (Live []) bs of
        (a, rest, Inl e) \<Rightarrow> ([], a, Some e)
      | (a, rest, Inr NeedInput) \<Rightarrow> ([], a, None)
      | (a, rest, Inr (Frame raw)) \<Rightarrow>
         (case parse_frames v cap rest of (fs, a', e) \<Rightarrow> (raw # fs, a', e)))"
proof (cases "length bs < HEADER_BYTES")
  case True
  then show ?thesis by (simp add: parse_frames_short frame_step_short)
next
  case False
  then obtain x y z zs where "bs = x # y # z # zs" using three_prefix [of bs] by (auto simp: not_less)
  then show ?thesis by (auto simp: frame_step_Cons3 Let_def split: sum.split)
qed

lemma frame_step_frame_Live:
  "frame_step v cap a bs = (a', rest, Inr (Frame raw)) \<Longrightarrow> a' = Live []"
  by (cases a) (auto simp: frame_step_def Let_def split: sum.splits if_splits)

lemma raw_drains_parse:
  "framer_ok accept_any cap d \<Longrightarrow> framer_abs d = Live [] \<Longrightarrow>
   parse_frames accept_any cap bs = (fs, a, e) \<Longrightarrow> raw_stream.drains cap d bs a fs e"
proof (induction bs arbitrary: d fs rule: length_induct)
  case (1 bs)
  note parse = 1(4) [unfolded parse_frames_step [of _ _ bs]]
  show ?case
  proof (cases "bs = []")
    case True
    then show ?thesis using 1 by (auto simp: raw_stream.drains_def)
  next
    case False
    from 1(2) show ?thesis
    proof (cases rule: raw_stream.feed_cases [of cap d bs])
      case (frame d' rest raw)
      have d': "framer_abs d' = Live []" using frame_step_frame_Live [OF frame(3)] .
      obtain fs' where "fs = raw # fs'" "parse_frames accept_any cap rest = (fs', a, e)"
        using parse frame(3) 1(3) by (auto split: prod.splits)
      then show ?thesis
        using raw_stream.drains_frame [OF 1(2) False frame(3,2)] 1(1) frame(2,4) d' by blast
    qed (use parse 1(2,3) False in \<open>auto simp: raw_stream.drains_need raw_stream.drains_error\<close>)
  qed
qed

lemma typed_drains_parse:
  "framer_ok validate_typed_length cap d \<Longrightarrow> framer_abs d = Live [] \<Longrightarrow>
   parse_messages cap bs = (ms, a, e) \<Longrightarrow> typed_stream.drains cap d bs a ms e"
proof (induction bs arbitrary: d ms rule: length_induct)
  case (1 bs)
  note parse = 1(4) [unfolded parse_messages_def parse_frames_step [of _ _ bs]]
  show ?case
  proof (cases "bs = []")
    case True
    then show ?thesis using 1 by (auto simp: typed_stream.drains_def parse_messages_def)
  next
    case False
    from 1(2) show ?thesis
    proof (cases rule: typed_stream.feed_cases [of cap d bs])
      case (frame d' rest m)
      then obtain raw where raw: "frame_step validate_typed_length cap (Live []) bs
          = (framer_abs d', rest, Inr (Frame raw))" "typed_policy raw = Inr m"
        using 1(3) by (auto simp: typed_step_def typed_result_def split: prod.splits sum.splits DecodeOutcome.splits)
      have d': "framer_abs d' = Live []" using frame_step_frame_Live [OF raw(1)] .
      obtain ms' where "ms = m # ms'" "parse_messages cap rest = (ms', a, e)"
        using parse raw by (auto simp: parse_messages_def split: prod.splits)
      then show ?thesis
        using typed_stream.drains_frame [OF 1(2) False frame(3,2)] 1(1) frame(2,4) d' by blast
    qed (use parse 1(2,3) False in \<open>auto simp: typed_stream.drains_need typed_stream.drains_error
          typed_step_def typed_result_def split: prod.splits sum.splits DecodeOutcome.splits\<close>)
  qed
qed

section \<open>Errors, ends and round trips\<close>

lemma frame_step_error_Dead: "frame_step v cap a xs = (a', rest, Inl e) \<Longrightarrow> a' = Dead"
  by (cases a) (auto simp: frame_step_def Let_def split: sum.splits if_splits)

lemma typed_step_error_Dead: "typed_step cap a xs = (a', rest, Inl e) \<Longrightarrow> a' = Dead"
  by (auto simp: typed_step_def typed_result_def dest: frame_step_error_Dead
      split: prod.splits sum.splits DecodeOutcome.splits)

lemma framer_abs_Dead: "framer_abs f = Dead \<longleftrightarrow> framer_state f = Failed"
  by (simp add: framer_abs_def split: FramerState.splits)

lemma Decoder_feed_step:
  "framer_ok validate_typed_length cap d \<Longrightarrow> Decoder_feed d xs = Some (d', rest, r) \<Longrightarrow>
   typed_step cap (framer_abs d) xs = (framer_abs d', rest, r) \<and> framer_ok validate_typed_length cap d'"
  using typed_stream.feed_step [of cap d xs] by (cases "typed_step cap (framer_abs d) xs") auto

lemma RawDecoder_feed_step:
  "framer_ok accept_any cap d \<Longrightarrow> RawDecoder_feed d xs = Some (d', rest, r) \<Longrightarrow>
   frame_step accept_any cap (framer_abs d) xs = (framer_abs d', rest, r) \<and> framer_ok accept_any cap d'"
  using raw_stream.feed_step [of cap d xs] by (cases "frame_step accept_any cap (framer_abs d) xs") auto

lemma finish_abs:
  assumes "framer_ok v cap f"
  shows "Framer_finish f =
    (case framer_abs f of
       Dead \<Rightarrow> Inl FinishFailed
     | Live p \<Rightarrow>
        if p = [] then Inr ()
        else if length p < HEADER_BYTES then Inl (TruncatedHeader HEADER_BYTES (length p))
        else Inl (TruncatedPayload (unat (from_be_bytes16 (p ! 1) (p ! 2))) (length p - HEADER_BYTES)))"
proof (cases "framer_state f")
  case (Body t len r)
  then obtain a b c where "header f = [a, b, c]"
    using assms header_three [of "header f"] by (auto simp: framer_ok_def framer_inv_def)
  then show ?thesis using assms Body
    by (simp add: framer_ok_def framer_inv_def framer_abs_def Framer_finish_def HEADER_BYTES_def)
next
  case (Header r)
  then show ?thesis using assms
    by (auto simp: framer_ok_def framer_inv_def framer_abs_def Framer_finish_def)
qed (simp add: framer_abs_def Framer_finish_def)

lemma parse_frames_frame_bytes:
  assumes "wf_raw raw" "length (payload raw) \<le> cap"
    and "v (wire_type raw) (length (payload raw)) = Inr ()"
  shows "parse_frames v cap (frame_bytes raw @ rest) =
    (case parse_frames v cap rest of (fs, a, e) \<Rightarrow> (raw # fs, a, e))"
proof -
  let ?n = "length (payload raw)"
  have n: "unat (word_of_nat ?n :: u16) = ?n"
    using assms(1) by (simp add: wf_raw_def MAX_BODY_BYTES_def)
  obtain y z where yz: "to_be_bytes16 (word_of_nat ?n) = [y, z]" by (simp add: to_be_bytes16_def)
  then have "unat (from_be_bytes16 y z) = ?n"
    using from_be_to_be16 [of "word_of_nat ?n"] n by simp
  then show ?thesis using assms yz by (simp add: frame_bytes_def)
qed

lemma typed_valid_length:
  assumes "typed raw = Some (Inr m)"
  shows "validate_typed_length (wire_type raw) (length (payload raw)) = Inr ()"
  using assms by (auto simp: typed_def split: sum.splits)

lemma parse_messages_frames:
  assumes "\<forall>m\<in>set ms. wf_typed m \<and> length (payload (envelope_of m)) \<le> cap"
  shows "parse_messages cap (concat (map (frame_bytes \<circ> envelope_of) ms)) = (ms, Live [], None)"
proof -
  have "parse_frames validate_typed_length cap (concat (map (frame_bytes \<circ> envelope_of) ms))
      = (map envelope_of ms, Live [], None)"
    using assms
    by (induction ms) (auto simp: parse_frames_frame_bytes wf_envelope_of
        typed_valid_length [OF typed_envelope_of])
  moreover have "type_frames (map envelope_of ms) (Live []) None = (ms, Live [], None)"
    using assms by (induction ms) (auto simp: typed_policy_envelope_of)
  ultimately show ?thesis by (simp add: parse_messages_def)
qed

lemma encode_Inr_frame:
  assumes "wf_typed m" "encode m dst = Some (Inr n, out)"
  shows "take n out = frame_bytes (envelope_of m)"
  using assms encode_raw_wf [OF wf_envelope_of] by (auto simp: encode_envelope split: if_splits)

section \<open>Properties\<close>

text \<open>
  C17: The raw decoder, over any scratch buffer and however the stream is cut into chunks,
  never panics, ends its loop, and returns exactly the frames, the terminal error and the
  partial frame that the reference parser finds in the whole stream.
\<close>

theorem raw_decoder_parses_stream:
  "case parse_frames accept_any (length buf) (concat chunks) of
     (frames, left_over, err) \<Rightarrow>
       \<exists>d. drain_chunks RawDecoder_feed (RawDecoder_new buf) chunks = Some (d, frames, err)
         \<and> framer_abs d = left_over"
proof -
  obtain fs a e where p: "parse_frames accept_any (length buf) (concat chunks) = (fs, a, e)"
    by (cases "parse_frames accept_any (length buf) (concat chunks)")
  from raw_stream.drain_chunks_concat [OF framer_ok_new raw_drains_parse [OF framer_ok_new framer_abs_new p]]
  show ?thesis by (auto simp: p)
qed

text \<open>
  C2: The strict decoder, over any scratch buffer and however the stream is cut into chunks,
  never panics, ends its loop, and returns exactly the typed messages of the reference parser,
  up to the first declared length, capacity or content error, which it reports.
\<close>

theorem decoder_parses_stream:
  "case parse_messages (length buf) (concat chunks) of
     (messages, left_over, err) \<Rightarrow>
       \<exists>d. drain_chunks Decoder_feed (Decoder_new buf) chunks = Some (d, messages, err)
         \<and> framer_abs d = left_over"
proof -
  obtain ms a e where p: "parse_messages (length buf) (concat chunks) = (ms, a, e)"
    by (cases "parse_messages (length buf) (concat chunks)")
  from typed_stream.drain_chunks_concat [OF framer_ok_new typed_drains_parse [OF framer_ok_new framer_abs_new p]]
  show ?thesis by (auto simp: p)
qed

text \<open>
  C3: Encoding any list of well-formed messages that fit the scratch, sending the frames in
  any chunks and decoding them returns the same messages, with no error, at a frame boundary.
\<close>

theorem encode_decode_roundtrip:
  assumes wf: "\<forall>m\<in>set ms. wf_typed m \<and> length (payload (envelope_of m)) \<le> length buf"
    and enc: "list_all2 (\<lambda>m (dst, n, out). encode m dst = Some (Inr n, out)) ms written"
    and sent: "concat chunks = concat (map (\<lambda>(dst, n, out). take n out) written)"
  shows "\<exists>d. drain_chunks Decoder_feed (Decoder_new buf) chunks = Some (d, ms, None)
    \<and> Decoder_finish d = Inr ()"
proof -
  from enc wf have "map (\<lambda>(dst, n, out). take n out) written = map (frame_bytes \<circ> envelope_of) ms"
    by (induction rule: list_all2_induct) (auto simp: encode_Inr_frame)
  then have p: "parse_messages (length buf) (concat chunks) = (ms, Live [], None)"
    using parse_messages_frames [OF wf] sent by simp
  from typed_stream.drain_chunks_concat [OF framer_ok_new typed_drains_parse [OF framer_ok_new framer_abs_new p]]
  show ?thesis using finish_abs by fastforce
qed

theorem encode_decode_roundtrip_witness:
  "\<exists>d. drain_chunks Decoder_feed (Decoder_new [0, 0])
      [[3], [0, 1, 53, 0x10], [0, 2, 1, 2]] =
        Some (d, [MDtmf (Dtmf 53), MAudio Khz8 (AudioPayload [1, 2])], None)
    \<and> Decoder_finish d = Inr ()"
  by (rule encode_decode_roundtrip [where written =
        "[([9, 9, 9, 9, 9], 4, [3, 0, 1, 53, 9]), ([7, 7, 7, 7, 7], 5, [0x10, 0, 2, 1, 2])]"])
    (simp_all add: is_ascii_def write_frame_def wire_consts try_from_def U16_MAX_def to_be_bytes16_def
      MAX_BODY_BYTES_def HEADER_BYTES_def store_def copy_from_slice_def put_slice_def)

text \<open>
  C20: A terminal error of the strict decoder is absorbing: every later feed fails with
  \<open>Failed\<close> and consumes nothing, and finishing reports the failure, never a clean end.
\<close>

theorem decoder_error_absorbing:
  assumes "framer_ok validate_typed_length cap d" "Decoder_feed d xs = Some (d', rest, Inl e)"
  shows "Decoder_feed d' ys = Some (d', ys, Inl DecodeFailed) \<and> Decoder_finish d' = Inl FinishFailed"
proof -
  have "framer_state d' = Failed"
    using Decoder_feed_step [OF assms] typed_step_error_Dead framer_abs_Dead by metis
  then show ?thesis by (simp add: Decoder_feed_def feed_Failed Framer_finish_def)
qed

theorem decoder_error_absorbing_witness:
  "\<exists>d'. Decoder_feed (Decoder_new [0]) [0x03, 0, 2, 7] = Some (d', [7], Inl (InvalidLength DtmfLength))
    \<and> Decoder_feed d' [0, 0, 0] = Some (d', [0, 0, 0], Inl DecodeFailed)"
proof -
  let ?d = "Decoder_new [0] :: Framer"
  have ok: "framer_ok validate_typed_length 1 ?d" using framer_ok_new [of _ "[0]"] by simp
  have "Decoder_feed ?d [0x03, 0, 2, 7] =
      Some (?d\<lparr>header := [3, 0, 2], framer_state := Failed\<rparr>, [7], Inl (InvalidLength DtmfLength))"
    by (simp add: Decoder_feed_def Framer_feed.simps Framer_new_def HEADER_BYTES_def sub_slice_def
        copy_prefix_def put_slice_def from_be_bytes16_def validate_typed_length_def fail_def numeral_3_eq_3)
  with decoder_error_absorbing [OF ok this] show ?thesis by blast
qed

text \<open>
  C18: A header whose declared length breaks the typed policy, or exceeds the scratch, is
  refused after exactly the three header bytes, at whichever byte of the input the header ends:
  no body byte is consumed.
\<close>

theorem decoder_refuses_before_body:
  assumes ok: "framer_ok validate_typed_length cap d" and live: "framer_abs d = Live p"
    and split: "p @ xs = x # y # z # body"
    and bad: "validate_typed_length (WireType x) len = Inl e \<or>
      (validate_typed_length (WireType x) len = Inr () \<and> cap < len)"
    and len: "len = unat (from_be_bytes16 y z)"
  shows "\<exists>d'. Decoder_feed d xs =
    Some (d', body, Inl (if cap < len \<and> validate_typed_length (WireType x) len = Inr ()
                         then ResourceLimit len cap else InvalidLength e))"
proof -
  have "typed_step cap (framer_abs d) xs = (Dead, body,
      Inl (if cap < len \<and> validate_typed_length (WireType x) len = Inr ()
           then ResourceLimit len cap else InvalidLength e))"
    using bad len live split frame_step_Live [of validate_typed_length cap p xs]
    by (auto simp: typed_step_def typed_result_def frame_step_Cons3)
  from typed_stream.feed_step [OF ok this] show ?thesis by blast
qed

theorem decoder_refuses_before_body_witness:
  "\<exists>d'. Decoder_feed (Decoder_new [0, 0]) [0xff, 0, 3, 9, 9] = Some (d', [9, 9], Inl (ResourceLimit 3 2))"
proof -
  have ok: "framer_ok validate_typed_length 2 (Framer_new [0, 0])"
    using framer_ok_new [of _ "[0, 0]"] by (simp add: numeral_2_eq_2)
  have ok_len: "validate_typed_length (WireType 0xff) 3 = Inr ()"
    by (simp add: validate_typed_length_def)
  have "\<exists>d'. Decoder_feed (Framer_new [0, 0]) [0xff, 0, 3, 9, 9] =
    Some (d', [9, 9], Inl (if (2::nat) < 3 \<and> validate_typed_length (WireType 0xff) 3 = Inr ()
                         then ResourceLimit 3 2 else InvalidLength UuidLength))"
    by (rule decoder_refuses_before_body [OF ok framer_abs_new, where y = "0" and z = "3"])
      (simp_all add: ok_len unat_from_be_bytes16)
  then show ?thesis by (simp add: ok_len)
qed

text \<open>
  C19: Ending the input is judged by the bytes of the unfinished frame alone: clean exactly at a
  frame boundary, otherwise the received count of the header, or the declared and received
  counts of the body, of the stream's last partial frame.
\<close>

theorem finish_reports_partial_frame:
  "case parse_messages (length buf) (concat chunks) of
     (messages, left_over, err) \<Rightarrow>
       \<exists>d. drain_chunks Decoder_feed (Decoder_new buf) chunks = Some (d, messages, err) \<and>
         Decoder_finish d =
           (case left_over of
              Dead \<Rightarrow> Inl FinishFailed
            | Live p \<Rightarrow>
               if p = [] then Inr ()
               else if length p < HEADER_BYTES then Inl (TruncatedHeader HEADER_BYTES (length p))
               else Inl (TruncatedPayload (unat (from_be_bytes16 (p ! 1) (p ! 2)))
                           (length p - HEADER_BYTES)))"
proof -
  obtain ms a e where p: "parse_messages (length buf) (concat chunks) = (ms, a, e)"
    by (cases "parse_messages (length buf) (concat chunks)")
  from typed_stream.drain_chunks_concat [OF framer_ok_new typed_drains_parse [OF framer_ok_new framer_abs_new p]]
  obtain d where "drain_chunks Decoder_feed (Decoder_new buf) chunks = Some (d, ms, e)"
    "framer_ok validate_typed_length (length buf) d" "framer_abs d = a" by blast
  then show ?thesis using finish_abs [of validate_typed_length "length buf" d] by (auto simp: p)
qed

end
