(* ===== verification/Incoming_Session.thy ===== *)
theory Incoming_Session
  imports Wire_Types
begin

unbundle bit_operations_syntax

text \<open>
  Incoming session policy (\<open>crates/phonowire-audiosocket/src/session.rs\<close>): the rate profile kept
  as a 16-bit mask, and the session state machine over typed messages.  A session operation
  returns the session beside its result.

  The specification side is \<open>admits\<close>, the set of rates a mask stands for, and \<open>session_spec\<close>,
  the policy as a function of what the session has accepted so far.  The locale
  \<open>terminal_machine\<close> collects what a client of a machine with an absorbing end relies on; the
  session is an interpretation, and the lemmas about whole message sequences come from there.
\<close>

section \<open>Ends, profiles, events\<close>

datatype SessionEnd = Terminate | PeerError OpaquePayload | EndOfInput

record IncomingProfile =
  accepted_rates :: u16

fun rate_bit :: "SampleRate \<Rightarrow> u16" where
  "rate_bit Khz8 = push_bit 0 1"
| "rate_bit Khz12 = push_bit 1 1"
| "rate_bit Khz16 = push_bit 2 1"
| "rate_bit Khz24 = push_bit 3 1"
| "rate_bit Khz32 = push_bit 4 1"
| "rate_bit Khz44_1 = push_bit 5 1"
| "rate_bit Khz48 = push_bit 6 1"
| "rate_bit Khz96 = push_bit 7 1"
| "rate_bit Khz192 = push_bit 8 1"

definition PCM_8_KHZ :: IncomingProfile where
  "PCM_8_KHZ = \<lparr>accepted_rates = 1\<rparr>"

definition ALL_KNOWN_RATES :: IncomingProfile where
  "ALL_KNOWN_RATES = \<lparr>accepted_rates = push_bit 9 1 - 1\<rparr>"

text \<open>The \<open>while index < rates.len()\<close> loop, over the part of the slice still to be read.\<close>

fun from_rates_loop :: "u16 \<Rightarrow> SampleRate list \<Rightarrow> u16" where
  "from_rates_loop acc [] = acc"
| "from_rates_loop acc (r # rs) = from_rates_loop (acc OR rate_bit r) rs"

definition from_rates :: "SampleRate list \<Rightarrow> IncomingProfile" where
  "from_rates rates = \<lparr>accepted_rates = from_rates_loop 0 rates\<rparr>"

definition accepts :: "IncomingProfile \<Rightarrow> SampleRate \<Rightarrow> bool" where
  "accepts p rate \<longleftrightarrow> accepted_rates p AND rate_bit rate \<noteq> 0"

datatype IncomingEvent =
    EvStarted Uuid
  | EvAudio Uuid SampleRate AudioPayload
  | EvDtmf Uuid Dtmf
  | EvEnded "Uuid option" SessionEnd

datatype IncomingSessionError =
    MissingUuid
  | DuplicateUuid
  | UnsupportedRate SampleRate
  | UnsupportedDigit Dtmf
  | UnsupportedType UnknownWireType
  | AfterEnd

datatype SessionState = AwaitingUuid | Active Uuid | Ended

record IncomingSession =
  session_state :: SessionState
  profile :: IncomingProfile

type_synonym session_result = "IncomingSession \<times> (IncomingSessionError + IncomingEvent)"

section \<open>Operations\<close>

definition with_profile :: "IncomingProfile \<Rightarrow> IncomingSession" where
  "with_profile p = \<lparr>session_state = AwaitingUuid, profile = p\<rparr>"

definition session_new :: IncomingSession where
  "session_new = with_profile ALL_KNOWN_RATES"

definition identity :: "IncomingSession \<Rightarrow> Uuid option" where
  "identity s = (case session_state s of AwaitingUuid \<Rightarrow> None | Ended \<Rightarrow> None | Active uuid \<Rightarrow> Some uuid)"

definition session_end :: "IncomingSession \<Rightarrow> SessionEnd \<Rightarrow> IncomingSession \<times> IncomingEvent" where
  "session_end s reason = (s\<lparr>session_state := Ended\<rparr>, EvEnded (identity s) reason)"

definition reject :: "IncomingSession \<Rightarrow> IncomingSessionError \<Rightarrow> session_result" where
  "reject s e = (s\<lparr>session_state := Ended\<rparr>, Inl e)"

definition session_uuid :: "IncomingSession \<Rightarrow> Uuid \<Rightarrow> session_result" where
  "session_uuid s uuid =
     (case session_state s of
        AwaitingUuid \<Rightarrow> (s\<lparr>session_state := Active uuid\<rparr>, Inr (EvStarted uuid))
      | Active _ \<Rightarrow> reject s DuplicateUuid
      | Ended \<Rightarrow> (s, Inl AfterEnd))"

definition session_audio :: "IncomingSession \<Rightarrow> SampleRate \<Rightarrow> AudioPayload \<Rightarrow> session_result" where
  "session_audio s rate p =
     (case session_state s of
        AwaitingUuid \<Rightarrow> reject s MissingUuid
      | Ended \<Rightarrow> (s, Inl AfterEnd)
      | Active uuid \<Rightarrow>
         if \<not> accepts (profile s) rate then reject s (UnsupportedRate rate)
         else (s, Inr (EvAudio uuid rate p)))"

text \<open>The byte ranges \<open>'0'..='9'\<close>, \<open>'*'\<close>, \<open>'#'\<close> and \<open>'A'..='D'\<close> of the \<open>matches!\<close>.\<close>

definition supported_digit :: "u8 \<Rightarrow> bool" where
  "supported_digit v \<longleftrightarrow>
     (48 \<le> v \<and> v \<le> 57) \<or> v = 42 \<or> v = 35 \<or> (65 \<le> v \<and> v \<le> 68)"

definition session_dtmf :: "IncomingSession \<Rightarrow> Dtmf \<Rightarrow> session_result" where
  "session_dtmf s digit =
     (case session_state s of
        AwaitingUuid \<Rightarrow> reject s MissingUuid
      | Ended \<Rightarrow> (s, Inl AfterEnd)
      | Active uuid \<Rightarrow>
         if \<not> supported_digit (dtmf_value digit) then reject s (UnsupportedDigit digit)
         else (s, Inr (EvDtmf uuid digit)))"

definition receive :: "IncomingSession \<Rightarrow> TypedMessage \<Rightarrow> session_result" where
  "receive s message =
     (if session_state s = Ended then (s, Inl AfterEnd)
      else case message of
        MTerminate \<Rightarrow> map_prod id Inr (session_end s Terminate)
      | MError p \<Rightarrow> map_prod id Inr (session_end s (PeerError p))
      | MUuid uuid \<Rightarrow> session_uuid s uuid
      | MAudio rate p \<Rightarrow> session_audio s rate p
      | MDtmf digit \<Rightarrow> session_dtmf s digit
      | MUnknown t _ \<Rightarrow> reject s (UnsupportedType t))"

definition end_of_input :: "IncomingSession \<Rightarrow> session_result" where
  "end_of_input s =
     (if session_state s = Ended then (s, Inl AfterEnd)
      else map_prod id Inr (session_end s EndOfInput))"

lemmas session_defs = receive_def end_of_input_def session_end_def session_uuid_def session_audio_def
  session_dtmf_def reject_def identity_def

section \<open>Profiles are sets of rates\<close>

fun rate_index :: "SampleRate \<Rightarrow> nat" where
  "rate_index Khz8 = 0"
| "rate_index Khz12 = 1"
| "rate_index Khz16 = 2"
| "rate_index Khz24 = 3"
| "rate_index Khz32 = 4"
| "rate_index Khz44_1 = 5"
| "rate_index Khz48 = 6"
| "rate_index Khz96 = 7"
| "rate_index Khz192 = 8"

lemma rate_index_inj [simp]: "rate_index a = rate_index b \<longleftrightarrow> a = b"
  by (cases a; cases b) simp_all

lemma rate_index_bound: "rate_index r < 9"
  by (cases r) simp_all

lemma rate_bit_index: "rate_bit r = push_bit (rate_index r) 1"
  by (cases r) simp_all

lemma bit_rate_bit: "bit (rate_bit r) n \<longleftrightarrow> n = rate_index r"
  using rate_index_bound [of r] by (auto simp: rate_bit_index push_bit_of_1 bit_exp_iff)

lemma accepts_bit: "accepts p r \<longleftrightarrow> bit (accepted_rates p) (rate_index r)"
proof -
  have "accepted_rates p AND rate_bit r = 0 \<longleftrightarrow> (\<forall>n. \<not> bit (accepted_rates p AND rate_bit r) n)"
    using bit_imp_le_length [of "accepted_rates p AND rate_bit r"] by (auto simp: bit_eq_iff)
  then show ?thesis by (auto simp: accepts_def bit_and_iff bit_rate_bit)
qed

lemma from_rates_loop_bit:
  "bit (from_rates_loop acc rs) (rate_index r) \<longleftrightarrow> bit acc (rate_index r) \<or> r \<in> set rs"
  by (induction acc rs rule: from_rates_loop.induct) (auto simp: bit_or_iff bit_rate_bit)

lemma accepts_from_rates_iff: "accepts (from_rates rates) r \<longleftrightarrow> r \<in> set rates"
  by (simp add: accepts_bit from_rates_def from_rates_loop_bit)

lemma accepts_all: "accepts ALL_KNOWN_RATES r"
  by (cases r) (simp_all add: accepts_def ALL_KNOWN_RATES_def)

lemma accepts_pcm8: "accepts PCM_8_KHZ r \<longleftrightarrow> r = Khz8"
  by (cases r) (simp_all add: accepts_def PCM_8_KHZ_def)

section \<open>Whole sessions\<close>

text \<open>A session's input: typed messages and the caller's report of a clean end of input.\<close>

datatype session_input = Message TypedMessage | Eof

fun session_step :: "IncomingSession \<Rightarrow> session_input \<Rightarrow> session_result" where
  "session_step s (Message m) = receive s m"
| "session_step s Eof = end_of_input s"

fun run_inputs :: "('s \<Rightarrow> 'i \<Rightarrow> 's \<times> 'r) \<Rightarrow> 's \<Rightarrow> 'i list \<Rightarrow> 's \<times> 'r list" where
  "run_inputs step s [] = (s, [])"
| "run_inputs step s (i # is) =
     (case step s i of (s', r) \<Rightarrow> (case run_inputs step s' is of (s'', rs) \<Rightarrow> (s'', r # rs)))"

locale terminal_machine =
  fixes step :: "'s \<Rightarrow> 'i \<Rightarrow> 's \<times> ('e + 'o)"
    and ended :: "'s \<Rightarrow> bool"
    and after_end :: 'e
  assumes ended_absorbs: "ended s \<Longrightarrow> step s i = (s, Inl after_end)"
    and error_ends: "step s i = (s', Inl e) \<Longrightarrow> ended s'"
begin

lemma run_ended: "ended s \<Longrightarrow> run_inputs step s is = (s, replicate (length is) (Inl after_end))"
  by (induction "is") (auto simp: ended_absorbs)

lemma run_length: "run_inputs step s is = (s', rs) \<Longrightarrow> length rs = length is"
  by (induction "is" arbitrary: s rs) (auto split: prod.splits)

lemma run_after_error:
  assumes "run_inputs step s (is @ [i]) = (s', rs @ [Inl e])"
  shows "run_inputs step s' js = (s', replicate (length js) (Inl after_end))"
proof -
  have "run_inputs step s (is @ [i]) = (t, rs @ [Inl e]) \<Longrightarrow> ended t" for t
  proof (induction "is" arbitrary: s rs)
    case Nil
    then show ?case by (auto split: prod.splits dest: error_ends)
  next
    case (Cons j js)
    then show ?case by (cases rs) (auto split: prod.splits dest: run_length)
  qed
  with assms show ?thesis by (simp add: run_ended)
qed

lemma run_append:
  "run_inputs step s (xs @ ys) =
     (case run_inputs step s xs of (s', rs) \<Rightarrow>
       (case run_inputs step s' ys of (s'', rs') \<Rightarrow> (s'', rs @ rs')))"
  by (induction xs arbitrary: s) (auto split: prod.splits)

end

interpretation session_machine: terminal_machine session_step
  "\<lambda>s::IncomingSession. session_state s = Ended" AfterEnd
proof unfold_locales
  fix s :: IncomingSession and i
  assume "session_state s = Ended"
  then show "session_step s i = (s, Inl AfterEnd)" by (cases i) (simp_all add: session_defs)
next
  fix s s' :: IncomingSession and i e
  assume "session_step s i = (s', Inl e)"
  then show "session_state s' = Ended"
    by (cases i) (auto simp: session_defs split: if_splits TypedMessage.splits SessionState.splits)
qed

text \<open>
  The shape of what a session reports: an optional start, then media and digits of the started
  identity, then one end or one refusal, then nothing but \<open>AfterEnd\<close>.
\<close>

fun reports :: "SessionState \<Rightarrow> (IncomingSessionError + IncomingEvent) list \<Rightarrow> bool" where
  "reports st [] = True"
| "reports Ended (r # rs) = (r = Inl AfterEnd \<and> reports Ended rs)"
| "reports AwaitingUuid (r # rs) =
     (case r of
        Inr (EvStarted u) \<Rightarrow> reports (Active u) rs
      | Inr (EvEnded None _) \<Rightarrow> reports Ended rs
      | Inl e \<Rightarrow> e \<noteq> AfterEnd \<and> reports Ended rs
      | _ \<Rightarrow> False)"
| "reports (Active u) (r # rs) =
     (case r of
        Inr (EvAudio u' _ _) \<Rightarrow> u' = u \<and> reports (Active u) rs
      | Inr (EvDtmf u' _) \<Rightarrow> u' = u \<and> reports (Active u) rs
      | Inr (EvEnded (Some u') _) \<Rightarrow> u' = u \<and> reports Ended rs
      | Inl e \<Rightarrow> e \<noteq> AfterEnd \<and> reports Ended rs
      | _ \<Rightarrow> False)"

lemma session_step_reports:
  assumes "session_step s i = (s', r)" "reports (session_state s') rs"
  shows "reports (session_state s) (r # rs)"
proof (cases i)
  case Eof
  then show ?thesis using assms
    by (auto simp: session_defs split: if_splits SessionState.splits)
next
  case (Message m)
  then show ?thesis using assms
    by (cases m; cases "session_state s") (auto simp: session_defs split: if_splits)
qed

lemma run_reports: "run_inputs session_step s is = (s', rs) \<Longrightarrow> reports (session_state s) rs"
proof (induction "is" arbitrary: s rs)
  case (Cons i js)
  then show ?case by (auto split: prod.splits intro: session_step_reports)
qed simp

lemma session_step_profile: "session_step s i = (s', r) \<Longrightarrow> profile s' = profile s"
  by (cases i) (auto simp: session_defs split: if_splits TypedMessage.splits SessionState.splits)

section \<open>Properties\<close>

text \<open>
  A profile built from a list of rates accepts exactly the listed rates (order and
  repetition do not matter), the default profile accepts all nine and the 8 kHz profile only
  8 kHz: the 16-bit mask loses nothing.
\<close>

theorem profile_accepts_listed_rates:
  "(accepts (from_rates rates) r \<longleftrightarrow> r \<in> set rates)
   \<and> accepts ALL_KNOWN_RATES r \<and> (accepts PCM_8_KHZ r \<longleftrightarrow> r = Khz8)"
  by (simp add: accepts_from_rates_iff accepts_all accepts_pcm8)

text \<open>
  C6: What a session reports over any sequence of messages and ends of input has the shape of
  the session contract: nothing of a call before its UUID, one start, every later event under
  that same UUID, one end or refusal, and \<open>AfterEnd\<close> for everything after it.
\<close>

theorem session_reports_contract:
  "reports AwaitingUuid (snd (run_inputs session_step (with_profile p) inputs))"
  using run_reports [of "with_profile p" inputs]
  by (cases "run_inputs session_step (with_profile p) inputs") (simp add: with_profile_def)

text \<open>
  A session event means exactly what the peer sent and the policy allows: the first UUID
  starts it; audio is accepted, with its own rate and bytes, exactly for an active session whose
  profile admits the rate; a digit exactly for an active session and \<open>0-9 * # A-D\<close>; and an ended
  event carries the identity the session had.
\<close>

theorem session_event_iff:
  "snd (receive s m) = Inr ev \<longleftrightarrow>
     (case ev of
        EvStarted u \<Rightarrow> session_state s = AwaitingUuid \<and> m = MUuid u
      | EvAudio u r p \<Rightarrow> session_state s = Active u \<and> m = MAudio r p \<and> accepts (profile s) r
      | EvDtmf u d \<Rightarrow> session_state s = Active u \<and> m = MDtmf d \<and> supported_digit (dtmf_value d)
      | EvEnded u Terminate \<Rightarrow> session_state s \<noteq> Ended \<and> u = identity s \<and> m = MTerminate
      | EvEnded u (PeerError p) \<Rightarrow> session_state s \<noteq> Ended \<and> u = identity s \<and> m = MError p
      | EvEnded u EndOfInput \<Rightarrow> False)"
  by (cases m; cases "session_state s"; cases ev)
    (auto simp: session_defs split: SessionEnd.splits)

text \<open>
  A refused message ends the session for good: whatever comes after the refusal, the
  session stays as it is and answers \<open>AfterEnd\<close> to each input.
\<close>

theorem session_refusal_is_final:
  assumes "run_inputs session_step s (before @ [i]) = (s', results @ [Inl e])"
  shows "run_inputs session_step s' later = (s', replicate (length later) (Inl AfterEnd))"
  using assms by (rule session_machine.run_after_error)

theorem session_refusal_is_final_witness:
  "run_inputs session_step (with_profile PCM_8_KHZ)
     (([] @ [Message (MDtmf (Dtmf 53))]) @ [Message (MUuid (Uuid [])), Eof])
   = (\<lparr>session_state = Ended, profile = PCM_8_KHZ\<rparr>, [Inl MissingUuid, Inl AfterEnd, Inl AfterEnd])"
proof -
  have 1: "run_inputs session_step (with_profile PCM_8_KHZ) ([] @ [Message (MDtmf (Dtmf 53))])
      = (\<lparr>session_state = Ended, profile = PCM_8_KHZ\<rparr>, [] @ [Inl MissingUuid])"
    by (simp add: session_defs with_profile_def)
  note 2 = session_refusal_is_final [OF 1, of "[Message (MUuid (Uuid [])), Eof]"]
  show ?thesis
    unfolding session_machine.run_append [of _ "[] @ _"] 1 prod.case 2 by (simp add: numeral_2_eq_2)
qed

end
