(* ===== verification/Receiver_Record.thy ===== *)
theory Receiver_Record
  imports Byte_Budget Frame_Decoder Incoming_Session
begin

text \<open>
  The owned observations a receiver hands to its consumer
  (\<open>crates/phonowire-receiver/src/record.rs\<close>).  A peer address is the text it prints as, and an
  \<open>Instant\<close> is a natural number.  Constructor names that another component already uses carry
  the prefix of their type (\<open>R\<close> for a record kind, \<open>End\<close> for an end reason).
\<close>

type_synonym instant = nat
type_synonym SocketAddr = string

datatype WireOffset = WireOffset (offset_get: nat)

datatype EndReason =
    CleanEof
  | EndTerminate
  | EndPeerError OwnedBytes
  | InvalidMessage TypedMessageError
  | EndDecode DecodeError
  | Truncated FinishError
  | Policy IncomingSessionError
  | Transport io_error
  | ResourceRefused BudgetError
  | OffsetExhausted

datatype RecordKind =
    RConnected SocketAddr
  | RWire OwnedBytes
  | RStarted Uuid
  | RAudio Uuid SampleRate OwnedBytes
  | RDtmf Uuid Dtmf
  | REnded "Uuid option" EndReason

record Record =
  connection :: ConnectionId
  rec_offset :: WireOffset
  observed_at :: instant
  rec_kind :: RecordKind

instantiation WireOffset :: linorder
begin

definition less_eq_WireOffset :: "WireOffset \<Rightarrow> WireOffset \<Rightarrow> bool" where
  "a \<le> b \<longleftrightarrow> offset_get a \<le> offset_get b"

definition less_WireOffset :: "WireOffset \<Rightarrow> WireOffset \<Rightarrow> bool" where
  "a < b \<longleftrightarrow> offset_get a < offset_get b"

instance
  by standard (auto simp: less_eq_WireOffset_def less_WireOffset_def WireOffset.expand)

end

text \<open>The charges a record owns: dropping the record drops them.\<close>

fun kind_charges :: "RecordKind \<Rightarrow> Charge list" where
  "kind_charges (RWire b) = [charge b]"
| "kind_charges (RAudio u r b) = [charge b]"
| "kind_charges (REnded u (EndPeerError b)) = [charge b]"
| "kind_charges _ = []"

definition is_ended :: "RecordKind \<Rightarrow> bool" where
  "is_ended k = (case k of REnded u r \<Rightarrow> True | _ \<Rightarrow> False)"

end
