(* ===== verification/Record_Handoff.thy ===== *)
theory Record_Handoff
  imports Receiver_Record
begin

text \<open>
  The bounded handoff of records from the worker to its consumer
  (\<open>crates/phonowire-receiver/src/handoff.rs\<close>).  The standard library's \<open>sync_channel\<close> is its
  queue with a positive bound, the number of live senders and whether the receiving end is still
  there; dropping the receiving end discards what is queued.  Wake-ups are outputs: the wakers an
  operation wakes, in order.
\<close>

datatype SendFailure = SendFull Record | SendDisconnected Record
datatype TryRecvError = Empty | TryDisconnected
datatype RecvTimeoutError = Timeout | TimeoutDisconnected
datatype recv_outcome = Blocked | Received Record | Disconnected

record handoff =
  chan_bound :: nat
  chan_queue :: "Record list"
  chan_senders :: nat
  chan_receiver :: bool
  credit_waker :: waker
  disconnected_waker :: waker

definition channel :: "nat \<Rightarrow> waker \<Rightarrow> waker \<Rightarrow> handoff" where
  "channel cap c d =
     \<lparr>chan_bound = cap, chan_queue = [], chan_senders = 1, chan_receiver = True,
      credit_waker = c, disconnected_waker = d\<rparr>"

definition try_send :: "handoff \<Rightarrow> Record \<Rightarrow> handoff \<times> (SendFailure + unit)" where
  "try_send h r =
     (if \<not> chan_receiver h then (h, Inl (SendDisconnected r))
      else if length (chan_queue h) < chan_bound h
        then (h\<lparr>chan_queue := chan_queue h @ [r]\<rparr>, Inr ())
      else (h, Inl (SendFull r)))"

text \<open>
  \<open>recv\<close> on an empty queue blocks while a sender is alive; \<open>Blocked\<close> is that the call has not
  returned.  A queued record is returned even when every sender is gone.
\<close>

definition recv :: "handoff \<Rightarrow> handoff \<times> recv_outcome \<times> waker list" where
  "recv h =
     (case chan_queue h of
        r # rs \<Rightarrow> (h\<lparr>chan_queue := rs\<rparr>, Received r, [credit_waker h])
      | [] \<Rightarrow> (h, if chan_senders h = 0 then Disconnected else Blocked, []))"

definition try_recv :: "handoff \<Rightarrow> handoff \<times> (TryRecvError + Record) \<times> waker list" where
  "try_recv h =
     (case chan_queue h of
        r # rs \<Rightarrow> (h\<lparr>chan_queue := rs\<rparr>, Inr r, [credit_waker h])
      | [] \<Rightarrow> (h, Inl (if chan_senders h = 0 then TryDisconnected else Empty), []))"

text \<open>The state is the one at the moment the call returns: an arrival before the deadline, or the deadline.\<close>

definition recv_timeout :: "handoff \<Rightarrow> handoff \<times> (RecvTimeoutError + Record) \<times> waker list" where
  "recv_timeout h =
     (case chan_queue h of
        r # rs \<Rightarrow> (h\<lparr>chan_queue := rs\<rparr>, Inr r, [credit_waker h])
      | [] \<Rightarrow> (h, Inl (if chan_senders h = 0 then TimeoutDisconnected else Timeout), []))"

definition clone_sender :: "handoff \<Rightarrow> handoff" where
  "clone_sender h = h\<lparr>chan_senders := chan_senders h + 1\<rparr>"

definition drop_sender :: "handoff \<Rightarrow> handoff" where
  "drop_sender h = h\<lparr>chan_senders := chan_senders h - 1\<rparr>"

text \<open>The queued records are returned: they are dropped here, with the charges they own.\<close>

definition drop_records :: "handoff \<Rightarrow> handoff \<times> Record list \<times> waker list" where
  "drop_records h =
     (h\<lparr>chan_queue := [], chan_receiver := False\<rparr>, chan_queue h, [disconnected_waker h])"

section \<open>Histories of one channel\<close>

datatype handoff_action = Send Record | Receive | CloneSender | DropSender | DropRecords

record history =
  hand :: handoff
  accepted :: "Record list"
  returned :: "Record list"
  received :: "Record list"
  discarded :: "Record list"
  woken :: "waker list"

definition history_start :: "handoff \<Rightarrow> history" where
  "history_start h = \<lparr>hand = h, accepted = [], returned = [], received = [], discarded = [], woken = []\<rparr>"

text \<open>Only an existing end acts: sending needs a live sender, receiving and dropping the receiver.\<close>

fun handoff_step :: "history \<Rightarrow> handoff_action \<Rightarrow> history" where
  "handoff_step s (Send r) =
     (if chan_senders (hand s) = 0 then s
      else case try_send (hand s) r of
        (h, Inr _) \<Rightarrow> s\<lparr>hand := h, accepted := accepted s @ [r]\<rparr>
      | (h, Inl (SendFull r')) \<Rightarrow> s\<lparr>hand := h, returned := returned s @ [r']\<rparr>
      | (h, Inl (SendDisconnected r')) \<Rightarrow> s\<lparr>hand := h, returned := returned s @ [r']\<rparr>)"
| "handoff_step s Receive =
     (if \<not> chan_receiver (hand s) then s
      else case try_recv (hand s) of
        (h, Inr r, ws) \<Rightarrow> s\<lparr>hand := h, received := received s @ [r], woken := woken s @ ws\<rparr>
      | (h, Inl e, ws) \<Rightarrow> s\<lparr>hand := h, woken := woken s @ ws\<rparr>)"
| "handoff_step s CloneSender =
     (if chan_senders (hand s) = 0 then s else s\<lparr>hand := clone_sender (hand s)\<rparr>)"
| "handoff_step s DropSender = s\<lparr>hand := drop_sender (hand s)\<rparr>"
| "handoff_step s DropRecords =
     (if \<not> chan_receiver (hand s) then s
      else case drop_records (hand s) of
        (h, ds, ws) \<Rightarrow> s\<lparr>hand := h, discarded := discarded s @ ds, woken := woken s @ ws\<rparr>)"

definition handoff_run :: "history \<Rightarrow> handoff_action list \<Rightarrow> history" where
  "handoff_run = foldl handoff_step"

section \<open>Bounded queues\<close>

text \<open>
  What the worker and the consumer rely on: an accepted element goes to the back, an element
  comes from the front, and a full queue refuses.
\<close>

locale bounded_queue =
  fixes push :: "'q \<Rightarrow> 'a \<Rightarrow> 'q option"
    and pop :: "'q \<Rightarrow> ('q \<times> 'a) option"
    and contents :: "'q \<Rightarrow> 'a list"
    and bound :: "'q \<Rightarrow> nat"
    and is_open :: "'q \<Rightarrow> bool"
  assumes push_law: "push q x = Some q' \<Longrightarrow>
      is_open q' \<and> contents q' = contents q @ [x] \<and> bound q' = bound q \<and> length (contents q) < bound q"
    and push_room: "\<lbrakk>is_open q; push q x = None\<rbrakk> \<Longrightarrow> bound q \<le> length (contents q)"
    and pop_law: "pop q = Some (q', x) \<Longrightarrow> contents q = x # contents q' \<and> bound q' = bound q"
    and pop_none: "pop q = None \<Longrightarrow> contents q = []"
begin

fun pushes :: "'q \<Rightarrow> 'a list \<Rightarrow> 'q option" where
  "pushes q [] = Some q"
| "pushes q (x # xs) = push q x \<bind> (\<lambda>q'. pushes q' xs)"

fun pops :: "'q \<Rightarrow> nat \<Rightarrow> 'a list" where
  "pops q 0 = []"
| "pops q (Suc n) = (case pop q of None \<Rightarrow> [] | Some (q', x) \<Rightarrow> x # pops q' n)"

lemma pushes_contents:
  "pushes q xs = Some q' \<Longrightarrow> contents q' = contents q @ xs \<and> bound q' = bound q"
proof (induction xs arbitrary: q)
  case (Cons x xs)
  then obtain q1 where q1: "push q x = Some q1" "pushes q1 xs = Some q'"
    by (auto split: bind_splits)
  with Cons.IH [OF q1(2)] push_law [OF q1(1)] show ?case by simp
qed simp

lemma pushes_fit:
  "\<lbrakk>is_open q; length (contents q) + length xs \<le> bound q\<rbrakk> \<Longrightarrow> \<exists>q'. pushes q xs = Some q'"
proof (induction xs arbitrary: q)
  case (Cons x xs)
  obtain q1 where q1: "push q x = Some q1"
    using push_room [of q x] Cons.prems by (cases "push q x") auto
  with Cons.IH [of q1] Cons.prems push_law [OF q1] show ?case by simp
qed simp

lemma pops_contents: "pops q n = take n (contents q)"
proof (induction n arbitrary: q)
  case (Suc n)
  show ?case
  proof (cases "pop q")
    case None
    then show ?thesis using pop_none [of q] by simp
  next
    case (Some p)
    then obtain q' x where "pop q = Some (q', x)" by (cases p) auto
    then show ?thesis using pop_law [of q q' x] Suc.IH [of q'] by simp
  qed
qed simp

text \<open>What is pushed while there is room comes out in the order it went in.\<close>

lemma push_pop_order:
  "\<lbrakk>is_open q; contents q = []; length xs \<le> bound q\<rbrakk> \<Longrightarrow>
   \<exists>q'. pushes q xs = Some q' \<and> pops q' (length xs) = xs"
  using pushes_fit [of q xs] pushes_contents [of q xs] by (auto simp: pops_contents)

end

definition send_opt :: "handoff \<Rightarrow> Record \<Rightarrow> handoff option" where
  "send_opt h r = (case try_send h r of (h', Inr _) \<Rightarrow> Some h' | (h', Inl _) \<Rightarrow> None)"

definition recv_opt :: "handoff \<Rightarrow> (handoff \<times> Record) option" where
  "recv_opt h = (case try_recv h of (h', Inr r, ws) \<Rightarrow> Some (h', r) | (h', Inl e, ws) \<Rightarrow> None)"

interpretation record_queue: bounded_queue send_opt recv_opt chan_queue chan_bound chan_receiver
  by unfold_locales (auto simp: send_opt_def recv_opt_def try_send_def try_recv_def split: list.splits if_splits)

section \<open>The channel invariant\<close>

definition history_ok :: "nat \<Rightarrow> waker \<Rightarrow> waker \<Rightarrow> history \<Rightarrow> bool" where
  "history_ok cap c d s \<longleftrightarrow>
     chan_bound (hand s) = cap \<and> credit_waker (hand s) = c \<and> disconnected_waker (hand s) = d \<and>
     received s @ chan_queue (hand s) @ discarded s = accepted s \<and>
     length (chan_queue (hand s)) \<le> cap \<and>
     (if chan_receiver (hand s)
      then discarded s = [] \<and> woken s = replicate (length (received s)) c
      else chan_queue (hand s) = [] \<and> woken s = replicate (length (received s)) c @ [d])"

lemma handoff_step_ok: "history_ok cap c d s \<Longrightarrow> history_ok cap c d (handoff_step s a)"
proof (cases a)
  case Receive
  moreover assume "history_ok cap c d s"
  ultimately show ?thesis
    by (auto simp: history_ok_def try_recv_def replicate_append_same split: list.splits)
qed (auto simp: history_ok_def try_send_def clone_sender_def drop_sender_def drop_records_def)

lemma handoff_run_ok: "history_ok cap c d s \<Longrightarrow> history_ok cap c d (handoff_run s as)"
  by (induction "as" arbitrary: s) (simp_all add: handoff_run_def handoff_step_ok)

section \<open>Properties\<close>


text \<open>
  A refused record comes back unchanged, with \<open>Disconnected\<close> exactly when the consumer's end
  is gone and \<open>Full\<close> exactly when the queue holds its bound; a refusal leaves the channel as it
  was.  After \<open>Full\<close>, one receive makes room for exactly that record.
\<close>

theorem try_send_refusal_returns_record:
  "case try_send h r of
     (h', Inr _) \<Rightarrow> chan_receiver h \<and> length (chan_queue h) < chan_bound h \<and>
        h' = h\<lparr>chan_queue := chan_queue h @ [r]\<rparr>
   | (h', Inl (SendFull r')) \<Rightarrow> h' = h \<and> r' = r \<and> chan_receiver h \<and> chan_bound h \<le> length (chan_queue h) \<and>
        (case recv h of
           (h1, Received q, ws) \<Rightarrow> length (chan_queue h) = chan_bound h \<longrightarrow>
              try_send h1 r = (h\<lparr>chan_queue := tl (chan_queue h) @ [r]\<rparr>, Inr ())
         | (h1, _, ws) \<Rightarrow> chan_bound h = 0)
   | (h', Inl (SendDisconnected r')) \<Rightarrow> h' = h \<and> r' = r \<and> \<not> chan_receiver h"
  by (auto simp: try_send_def recv_def split: list.splits)

theorem try_send_refusal_returns_record_witness:
  "\<exists>r q. let h = (channel 1 3 4)\<lparr>chan_queue := [q]\<rparr> in
     try_send h r = (h, Inl (SendFull r)) \<and> fst (recv h) = channel 1 3 4 \<and>
     try_send (channel 1 3 4) r = ((channel 1 3 4)\<lparr>chan_queue := [r]\<rparr>, Inr ())"
proof -
  let ?r = "\<lparr>connection = ConnectionId 1 1, rec_offset = WireOffset 0, observed_at = 0,
    rec_kind = RConnected ''peer''\<rparr>"
  show ?thesis
    using try_send_refusal_returns_record [of "(channel 1 3 4)\<lparr>chan_queue := [?r]\<rparr>" ?r]
    by (intro exI [of _ ?r]) (simp add: try_send_def recv_def channel_def)
qed

end
