(* ===== verification/Task_Scheduler.thy ===== *)
theory Task_Scheduler
  imports Link_Order Record_Handoff
begin

text \<open>
  Readiness, resource turns and notifications of one worker
  (\<open>crates/phonowire-receiver/src/scheduler.rs\<close>): the signals other threads raise, the run queue
  with the two FIFO orders of tasks waiting for a queue slot or for bytes, and the per-connection
  context whose \<open>copy\<close> and \<open>send\<close> operations take their turn in those orders.

  Each locked section is one operation.  Waking the operating-system poller is outside the
  crate: its result is the argument \<open>wr\<close> of the operations that wake, and the operations return
  whether it was called.  Failed assertions and \<open>expect\<close>s are \<open>None\<close>.
\<close>

section \<open>Signals\<close>

datatype WaitReason = Kernel | Queue | Bytes

datatype Signal = SigQueue | SigBytes | SigStop | SigDisconnected | SigControl

record WakeFailure =
  failure_kind :: ErrorKind
  os_code :: "int option"

record Signals =
  sig_queue :: bool
  sig_bytes :: bool
  sig_stop :: bool
  sig_disconnected :: bool
  sig_control :: bool
  attached :: bool
  failure :: "WakeFailure option"

definition Signals_new :: Signals where
  "Signals_new =
     \<lparr>sig_queue = False, sig_bytes = False, sig_stop = False, sig_disconnected = False,
      sig_control = False, attached = False, failure = None\<rparr>"

definition attach :: "Signals \<Rightarrow> Signals" where
  "attach s = s\<lparr>attached := True\<rparr>"

definition drop_attachment :: "Signals \<Rightarrow> Signals" where
  "drop_attachment s = s\<lparr>attached := False\<rparr>"

fun signal_set :: "Signals \<Rightarrow> Signal \<Rightarrow> Signals" where
  "signal_set s SigQueue = s\<lparr>sig_queue := True\<rparr>"
| "signal_set s SigBytes = s\<lparr>sig_bytes := True\<rparr>"
| "signal_set s SigStop = s\<lparr>sig_stop := True\<rparr>"
| "signal_set s SigDisconnected = s\<lparr>sig_disconnected := True\<rparr>"
| "signal_set s SigControl = s\<lparr>sig_control := True\<rparr>"

text \<open>The result of \<open>notify\<close>, and whether the poller was called.\<close>

definition signal_notify :: "io_error + unit \<Rightarrow> Signals \<Rightarrow> (io_error + unit) \<times> bool" where
  "signal_notify wr s = (if attached s then (wr, True) else (Inr (), False))"

definition remember :: "Signals \<Rightarrow> io_error \<Rightarrow> Signals" where
  "remember s e =
     (case failure s of
        None \<Rightarrow> s\<lparr>failure := Some \<lparr>failure_kind = io_kind e, os_code = raw_os_error e\<rparr>\<rparr>
      | Some _ \<Rightarrow> s)"

definition signal_wake :: "io_error + unit \<Rightarrow> Signals \<Rightarrow> Signals \<times> bool" where
  "signal_wake wr s =
     (case signal_notify wr s of
        (Inl e, b) \<Rightarrow> (remember s e, b)
      | (Inr _, b) \<Rightarrow> (s, b))"

definition signal_request :: "io_error + unit \<Rightarrow> Signals \<Rightarrow> Signal \<Rightarrow> Signals \<times> (io_error + unit)" where
  "signal_request wr s k =
     (let s1 = signal_set s k in
      case fst (signal_notify wr s1) of
        Inl e \<Rightarrow> (remember s1 e, Inl e)
      | Inr _ \<Rightarrow> (s1, Inr ()))"

definition publish :: "io_error + unit \<Rightarrow> Signals \<Rightarrow> Signal \<Rightarrow> Signals \<times> bool" where
  "publish wr s k = signal_wake wr (signal_set s k)"

text \<open>\<open>decode_kind\<close> is the platform's table from operating-system codes to error kinds.\<close>

definition take_failure :: "(int \<Rightarrow> ErrorKind) \<Rightarrow> Signals \<Rightarrow> Signals \<times> io_error option" where
  "take_failure decode_kind s =
     (s\<lparr>failure := None\<rparr>,
      map_option (\<lambda>f. case os_code f of
          None \<Rightarrow> \<lparr>io_kind = failure_kind f, raw_os_error = None\<rparr>
        | Some c \<Rightarrow> \<lparr>io_kind = decode_kind c, raw_os_error = Some c\<rparr>) (failure s))"

definition stop_requested :: "Signals \<Rightarrow> bool" where "stop_requested s = sig_stop s"
definition signal_disconnected :: "Signals \<Rightarrow> bool" where "signal_disconnected s = sig_disconnected s"

definition take_queue_credit :: "Signals \<Rightarrow> Signals \<times> bool" where
  "take_queue_credit s = (s\<lparr>sig_queue := False\<rparr>, sig_queue s)"

definition take_byte_credit :: "Signals \<Rightarrow> Signals \<times> bool" where
  "take_byte_credit s = (s\<lparr>sig_bytes := False\<rparr>, sig_bytes s)"

definition take_control :: "Signals \<Rightarrow> Signals \<times> bool" where
  "take_control s = (s\<lparr>sig_control := False\<rparr>, sig_control s)"

section \<open>The run queue and the waiting orders\<close>

datatype State = Running | Notified | Queued | Waiting WaitReason

record Ready =
  states :: "Token \<rightharpoonup> State"
  queue :: Order
  queue_waiters :: Order
  byte_waiters :: Order
  ready_capacity :: nat

definition enqueue :: "Ready \<Rightarrow> Token \<Rightarrow> (Ready \<times> bool) run" where
  "enqueue r t =
     (case states r t of
        None \<Rightarrow> Some (r, False)
      | Some Queued \<Rightarrow> Some (r, False)
      | Some Notified \<Rightarrow> Some (r, False)
      | Some st \<Rightarrow> do {
          let r1 = r\<lparr>states := (states r)(t \<mapsto> (if st = Running then Notified else Queued))\<rparr>;
          if \<not> links_len (queue r1) < ready_capacity r1 then panic
          else do {
            q \<leftarrow> push_back (queue r1) t;
            Some (r1\<lparr>queue := q\<rparr>, True)
          }
        })"

definition requests :: "Ready \<Rightarrow> WaitReason \<Rightarrow> Order run" where
  "requests r k =
     (case k of Queue \<Rightarrow> Some (queue_waiters r) | Bytes \<Rightarrow> Some (byte_waiters r) | Kernel \<Rightarrow> panic)"

text \<open>Writing through the borrow that \<open>requests\<close> returns.\<close>

definition put_requests :: "Ready \<Rightarrow> WaitReason \<Rightarrow> Order \<Rightarrow> Ready" where
  "put_requests r k d =
     (case k of Queue \<Rightarrow> r\<lparr>queue_waiters := d\<rparr> | Bytes \<Rightarrow> r\<lparr>byte_waiters := d\<rparr> | Kernel \<Rightarrow> r)"

definition resume_head :: "Ready \<Rightarrow> WaitReason \<Rightarrow> (Ready \<times> bool) run" where
  "resume_head r k =
     do {
       d \<leftarrow> requests r k;
       (case first_token d of None \<Rightarrow> Some (r, False) | Some t \<Rightarrow> enqueue r t)
     }"

definition remove_request :: "Ready \<Rightarrow> Token \<Rightarrow> WaitReason \<Rightarrow> (Ready \<times> bool) run" where
  "remove_request r t k =
     do {
       d \<leftarrow> requests r k;
       let was_head = (first_token d = Some t);
       d' \<leftarrow> order_remove d t;
       let r' = put_requests r k d';
       if was_head then resume_head r' k else Some (r', False)
     }"

record Scheduler =
  ready :: Ready
  signals :: Signals

definition Scheduler_new :: "nat \<Rightarrow> Signals \<Rightarrow> Scheduler" where
  "Scheduler_new cap s =
     \<lparr>ready = \<lparr>states = Map.empty, queue = Order_default, queue_waiters = Order_default,
               byte_waiters = Order_default, ready_capacity = cap\<rparr>,
      signals = s\<rparr>"

definition sched_insert :: "Scheduler \<Rightarrow> Token \<Rightarrow> Scheduler run" where
  "sched_insert s t =
     (let r = ready s in
      if \<not> card (dom (states r)) < ready_capacity r then panic
      else if states r t \<noteq> None then panic
      else do {
        q \<leftarrow> push_back (queue r) t;
        Some (s\<lparr>ready := r\<lparr>states := (states r)(t \<mapsto> Queued), queue := q\<rparr>\<rparr>)
      })"

definition sched_take :: "Scheduler \<Rightarrow> (Scheduler \<times> Token option) run" where
  "sched_take s =
     do {
       (q, t) \<leftarrow> pop_front (queue (ready s));
       (case t of
          None \<Rightarrow> Some (s\<lparr>ready := (ready s)\<lparr>queue := q\<rparr>\<rparr>, None)
        | Some t \<Rightarrow>
            if states (ready s) t = None then panic
            else Some (s\<lparr>ready := (ready s)\<lparr>queue := q, states := (states (ready s))(t \<mapsto> Running)\<rparr>\<rparr>, Some t))
     }"

definition has_ready :: "Scheduler \<Rightarrow> bool" where
  "has_ready s = (first_token (queue (ready s)) \<noteq> None)"

definition io_ready :: "Scheduler \<Rightarrow> Token \<Rightarrow> Scheduler run" where
  "io_ready s t =
     (if states (ready s) t = Some (Waiting Kernel)
      then do { (r, _) \<leftarrow> enqueue (ready s) t; Some (s\<lparr>ready := r\<rparr>) }
      else Some s)"

definition park_ready :: "Ready \<Rightarrow> Token \<Rightarrow> WaitReason \<Rightarrow> Ready run" where
  "park_ready r t k =
     do {
       state \<leftarrow> states r t;
       r1 \<leftarrow> (if state = Notified then Some (r\<lparr>states := (states r)(t \<mapsto> Queued)\<rparr>)
              else do {
                q \<leftarrow> order_remove (queue r) t;
                Some (r\<lparr>queue := q, states := (states r)(t \<mapsto> Waiting k)\<rparr>)
              });
       if k = Kernel then Some r1
       else do {
         d \<leftarrow> requests r1 k;
         d' \<leftarrow> push_back d t;
         Some (put_requests r1 k d')
       }
     }"

definition park :: "Scheduler \<Rightarrow> Token \<Rightarrow> WaitReason \<Rightarrow> Scheduler run" where
  "park s t k = do { r \<leftarrow> park_ready (ready s) t k; Some (s\<lparr>ready := r\<rparr>) }"

definition resume_credit :: "Scheduler \<Rightarrow> WaitReason \<Rightarrow> Scheduler run" where
  "resume_credit s k = do { (r, _) \<leftarrow> resume_head (ready s) k; Some (s\<lparr>ready := r\<rparr>) }"

definition request_turn_ready :: "Ready \<Rightarrow> Token \<Rightarrow> WaitReason \<Rightarrow> (Ready \<times> bool) run" where
  "request_turn_ready r t k =
     (if states r t = None then panic
      else do {
        d \<leftarrow> requests r k;
        d' \<leftarrow> push_back d t;
        Some (put_requests r k d', first_token d' = Some t)
      })"

definition request_turn :: "Scheduler \<Rightarrow> Token \<Rightarrow> WaitReason \<Rightarrow> (Scheduler \<times> bool) run" where
  "request_turn s t k =
     do { (r, head) \<leftarrow> request_turn_ready (ready s) t k; Some (s\<lparr>ready := r\<rparr>, head) }"

text \<open>Waking the poller after the lock is given back, when \<open>inserted\<close>.\<close>

definition wake_if :: "io_error + unit \<Rightarrow> Scheduler \<Rightarrow> bool \<Rightarrow> Scheduler \<times> bool" where
  "wake_if wr s inserted =
     (if inserted then (case signal_wake wr (signals s) of (g, b) \<Rightarrow> (s\<lparr>signals := g\<rparr>, b))
      else (s, False))"

definition finish_request ::
  "io_error + unit \<Rightarrow> Scheduler \<Rightarrow> Token \<Rightarrow> WaitReason \<Rightarrow> (Scheduler \<times> bool) run" where
  "finish_request wr s t k =
     do {
       (r, inserted) \<leftarrow> remove_request (ready s) t k;
       Some (wake_if wr (s\<lparr>ready := r\<rparr>) inserted)
     }"

definition verify_pending :: "Scheduler \<Rightarrow> Token \<Rightarrow> unit run" where
  "verify_pending s t = (if states (ready s) t = Some Running then panic else Some ())"

definition retire_ready :: "Ready \<Rightarrow> Token \<Rightarrow> (Ready \<times> bool) run" where
  "retire_ready r t =
     do {
       q \<leftarrow> order_remove (queue r) t;
       (r1, a) \<leftarrow> remove_request (r\<lparr>states := (states r)(t := None), queue := q\<rparr>) t Queue;
       (r2, b) \<leftarrow> remove_request r1 t Bytes;
       Some (r2, a \<or> b)
     }"

definition retire :: "io_error + unit \<Rightarrow> Scheduler \<Rightarrow> Token \<Rightarrow> (Scheduler \<times> bool) run" where
  "retire wr s t =
     do {
       (r, inserted) \<leftarrow> retire_ready (ready s) t;
       Some (wake_if wr (s\<lparr>ready := r\<rparr>) inserted)
     }"

text \<open>\<open>TaskWake::wake_by_ref\<close> while the scheduler exists; afterwards a wake does nothing.\<close>

definition task_wake :: "io_error + unit \<Rightarrow> Scheduler \<Rightarrow> Token \<Rightarrow> (Scheduler \<times> bool) run" where
  "task_wake wr s t =
     do {
       (r, inserted) \<leftarrow> enqueue (ready s) t;
       Some (wake_if wr (s\<lparr>ready := r\<rparr>) inserted)
     }"

section \<open>The scheduler invariant\<close>

definition runnable :: "State option \<Rightarrow> bool" where
  "runnable st \<longleftrightarrow> st = Some Queued \<or> st = Some Notified"

text \<open>The run queue holds exactly the runnable tasks, each once, in the order \<open>qs\<close>.\<close>

definition ready_core :: "Ready \<Rightarrow> Token list \<Rightarrow> Token list \<Rightarrow> Token list \<Rightarrow> bool" where
  "ready_core r qs ws bs \<longleftrightarrow>
     queue r = order_of qs \<and> queue_waiters r = order_of ws \<and> byte_waiters r = order_of bs \<and>
     distinct qs \<and> distinct ws \<and> distinct bs \<and>
     finite (dom (states r)) \<and> card (dom (states r)) \<le> ready_capacity r \<and>
     (\<forall>t. t \<in> set qs \<longleftrightarrow> runnable (states r t))"

text \<open>Waiting orders hold live tasks only, so a retired task leaves no trace.\<close>

definition ready_inv :: "Ready \<Rightarrow> Token list \<Rightarrow> Token list \<Rightarrow> Token list \<Rightarrow> bool" where
  "ready_inv r qs ws bs \<longleftrightarrow>
     ready_core r qs ws bs \<and> set ws \<subseteq> dom (states r) \<and> set bs \<subseteq> dom (states r)"

definition ready_ok :: "Ready \<Rightarrow> bool" where
  "ready_ok r \<longleftrightarrow> (\<exists>qs ws bs. ready_inv r qs ws bs)"

definition enqueued_state :: "State \<Rightarrow> State" where
  "enqueued_state st = (case st of Running \<Rightarrow> Notified | Waiting k \<Rightarrow> Queued | _ \<Rightarrow> st)"

text \<open>What \<open>enqueue\<close> does to a state the invariant holds of.\<close>

definition enqueued :: "Ready \<Rightarrow> Token list \<Rightarrow> Token \<Rightarrow> Ready" where
  "enqueued r qs t =
     (case states r t of
        None \<Rightarrow> r
      | Some st \<Rightarrow>
          if runnable (Some st) then r
          else r\<lparr>states := (states r)(t \<mapsto> enqueued_state st), queue := order_of (qs @ [t])\<rparr>)"

definition needs_turn :: "Ready \<Rightarrow> Token \<Rightarrow> bool" where
  "needs_turn r t \<longleftrightarrow> states r t \<noteq> None \<and> \<not> runnable (states r t)"

lemma card_runnable_less:
  assumes "ready_core r qs ws bs" "needs_turn r t"
  shows "length qs < ready_capacity r" "t \<notin> set qs"
proof -
  show "t \<notin> set qs" using assms by (simp add: ready_core_def needs_turn_def)
  have sub: "set qs \<subseteq> dom (states r)" using assms(1) by (auto simp: ready_core_def runnable_def)
  have "t \<in> dom (states r) - set qs" using assms \<open>t \<notin> set qs\<close> by (auto simp: needs_turn_def)
  then have "card (set qs) < card (dom (states r))"
    using assms(1) sub by (auto simp: ready_core_def intro: psubset_card_mono)
  then show "length qs < ready_capacity r"
    using assms(1) by (auto simp: ready_core_def distinct_card)
qed

lemma enqueue_eval:
  assumes "ready_core r qs ws bs"
  shows "enqueue r t = Some (enqueued r qs t, needs_turn r t)"
proof (cases "needs_turn r t")
  case True
  note c = card_runnable_less [OF assms True]
  obtain st where st: "states r t = Some st" using True by (auto simp: needs_turn_def)
  then have "st = Running \<or> (\<exists>k. st = Waiting k)"
    using True by (cases st) (auto simp: needs_turn_def runnable_def)
  then show ?thesis
    using c st True assms
    by (auto simp: enqueue_def enqueued_def enqueued_state_def ready_core_def push_back_order_of runnable_def)
next
  case False
  then show ?thesis
    by (auto simp: enqueue_def enqueued_def needs_turn_def runnable_def split: option.split)
qed

lemma enqueued_core:
  assumes "ready_core r qs ws bs"
  shows "ready_core (enqueued r qs t) (if needs_turn r t then qs @ [t] else qs) ws bs"
proof (cases "needs_turn r t")
  case True
  obtain st where st: "states r t = Some st" using True by (auto simp: needs_turn_def)
  have "runnable (Some (enqueued_state st))"
    by (cases st) (simp_all add: runnable_def enqueued_state_def)
  moreover have "dom (states r) = insert t (dom (states r))" using st by auto
  ultimately show ?thesis
    using True st assms card_runnable_less [OF assms True]
    by (auto simp: enqueued_def ready_core_def needs_turn_def)
next
  case False
  then show ?thesis using assms by (auto simp: enqueued_def needs_turn_def split: option.split)
qed

lemma enqueued_states:
  "states (enqueued r qs t) u = (if u = t then map_option enqueued_state (states r u) else states r u)"
  by (auto simp: enqueued_def enqueued_state_def runnable_def split: option.split State.split)

lemma dom_enqueued [simp]: "dom (states (enqueued r qs t)) = dom (states r)"
  by (auto simp: enqueued_states dom_def split: if_splits)

lemma runnable_enqueued: "states r t \<noteq> None \<Longrightarrow> runnable (states (enqueued r qs t) t)"
  by (auto simp: enqueued_states enqueued_state_def runnable_def split: State.split)

definition waiters :: "WaitReason \<Rightarrow> Token list \<Rightarrow> Token list \<Rightarrow> Token list" where
  "waiters k ws bs = (case k of Queue \<Rightarrow> ws | Bytes \<Rightarrow> bs | Kernel \<Rightarrow> [])"

definition with_ws :: "WaitReason \<Rightarrow> Token list \<Rightarrow> Token list \<Rightarrow> Token list" where
  "with_ws k xs ws = (if k = Queue then xs else ws)"

definition with_bs :: "WaitReason \<Rightarrow> Token list \<Rightarrow> Token list \<Rightarrow> Token list" where
  "with_bs k xs bs = (if k = Bytes then xs else bs)"

lemma waiters_with [simp]:
  "k \<noteq> Kernel \<Longrightarrow> waiters k (with_ws k xs ws) (with_bs k xs bs) = xs"
  "j \<noteq> k \<Longrightarrow> waiters j (with_ws k xs ws) (with_bs k xs bs) = waiters j ws bs"
  by (auto simp: waiters_def with_ws_def with_bs_def split: WaitReason.split)

lemma requests_core:
  "\<lbrakk>ready_core r qs ws bs; k \<noteq> Kernel\<rbrakk> \<Longrightarrow> requests r k = Some (order_of (waiters k ws bs))"
  by (cases k) (simp_all add: requests_def waiters_def ready_core_def)

lemma distinct_waiters: "ready_core r qs ws bs \<Longrightarrow> distinct (waiters k ws bs)"
  by (cases k) (simp_all add: waiters_def ready_core_def)

lemma put_requests_core:
  "\<lbrakk>ready_core r qs ws bs; distinct xs\<rbrakk> \<Longrightarrow>
   ready_core (put_requests r k (order_of xs)) qs (with_ws k xs ws) (with_bs k xs bs)"
  by (cases k) (simp_all add: put_requests_def ready_core_def with_ws_def with_bs_def)

lemma put_requests_states [simp]:
  "states (put_requests r k d) = states r" "ready_capacity (put_requests r k d) = ready_capacity r"
  "needs_turn (put_requests r k d) t = needs_turn r t"
  by (cases k; simp add: put_requests_def needs_turn_def)+

lemma inv_subset:
  "ready_inv r qs ws bs \<Longrightarrow> set (waiters k ws bs) \<subseteq> dom (states r)"
  by (cases k) (auto simp: ready_inv_def waiters_def)

text \<open>What waking does to the task states: no task is lost, none stops being runnable, none starts waiting.\<close>

definition woken_from :: "Ready \<Rightarrow> Ready \<Rightarrow> bool" where
  "woken_from r r' \<longleftrightarrow>
     dom (states r') = dom (states r) \<and>
     (\<forall>u. runnable (states r u) \<longrightarrow> runnable (states r' u)) \<and>
     (\<forall>u j. states r' u = Some (Waiting j) \<longrightarrow> states r u = Some (Waiting j))"

lemma woken_from_refl [simp]: "woken_from r r"
  by (simp add: woken_from_def)

lemma woken_from_put [simp]: "woken_from (put_requests r k d) r' \<longleftrightarrow> woken_from r r'"
  by (simp add: woken_from_def)

lemma woken_from_put' [simp]: "woken_from r (put_requests r k d)"
  by (simp add: woken_from_def)

lemma enqueued_state_simps [simp]:
  "enqueued_state st \<noteq> Waiting j" "runnable (Some (enqueued_state st))"
  by (cases st; simp add: enqueued_state_def runnable_def)+

lemma woken_from_enqueued: "woken_from r (enqueued r qs t)"
proof -
  have "runnable (map_option enqueued_state (Some st))" for st by simp
  then have "runnable st \<Longrightarrow> runnable (map_option enqueued_state st)" for st
    by (cases st) (simp_all add: runnable_def)
  then show ?thesis by (auto simp: woken_from_def enqueued_states dom_def)
qed

lemma resume_head_core:
  assumes "ready_core r qs ws bs" "k \<noteq> Kernel"
  obtains r' qs' b where "resume_head r k = Some (r', b)" "ready_core r' qs' ws bs" "woken_from r r'"
    "\<forall>t. front_of (waiters k ws bs) None = Some t \<longrightarrow> states r t \<noteq> None \<longrightarrow> runnable (states r' t)"
proof (cases "waiters k ws bs")
  case Nil
  then show ?thesis using assms that [of r False qs] by (simp add: resume_head_def requests_core)
next
  case (Cons t ts)
  have "resume_head r k = Some (enqueued r qs t, needs_turn r t)"
    using assms Cons by (simp add: resume_head_def requests_core enqueue_eval)
  from that [OF this enqueued_core [OF assms(1)] woken_from_enqueued] show ?thesis
    using Cons runnable_enqueued [of r t qs] by simp
qed

text \<open>
  Removing a request keeps the invariant and, when the task removed was at the head, leaves the
  next task in line runnable.
\<close>

lemma remove_request_core:
  assumes core: "ready_core r qs ws bs" and k: "k \<noteq> Kernel" and xs: "xs = remove1 t (waiters k ws bs)"
  obtains r' qs' b where "remove_request r t k = Some (r', b)"
    "ready_core r' qs' (with_ws k xs ws) (with_bs k xs bs)" "woken_from r r'"
    "\<forall>h. front_of (waiters k ws bs) None = Some t \<longrightarrow> front_of xs None = Some h \<longrightarrow>
       states r h \<noteq> None \<longrightarrow> runnable (states r' h)"
proof -
  let ?r = "put_requests r k (order_of xs)"
  have dist: "distinct (waiters k ws bs)" using core by (rule distinct_waiters)
  then have core': "ready_core ?r qs (with_ws k xs ws) (with_bs k xs bs)"
    using core by (simp add: put_requests_core xs)
  have eval: "remove_request r t k =
      (if front_of (waiters k ws bs) None = Some t then resume_head ?r k else Some (?r, False))"
    using core k dist by (simp add: remove_request_def requests_core order_remove_order_of xs)
  show ?thesis
  proof (cases "front_of (waiters k ws bs) None = Some t")
    case True
    show ?thesis
      by (rule resume_head_core [OF core' k], rule that) (simp_all add: eval True k)
  next
    case False
    then show ?thesis using that [of ?r False qs] core' eval by simp
  qed
qed

lemma with_subset:
  assumes "ready_inv r qs ws bs" "set xs \<subseteq> dom (states r)"
  shows "set (with_ws k xs ws) \<subseteq> dom (states r) \<and> set (with_bs k xs bs) \<subseteq> dom (states r)"
  using assms by (auto simp: with_ws_def with_bs_def ready_inv_def)

lemma front_live: "\<lbrakk>set xs \<subseteq> dom m; front_of xs None = Some h\<rbrakk> \<Longrightarrow> m h \<noteq> None"
  by (auto simp: front_of_def split: list.splits)

lemma remove_request_inv:
  assumes inv: "ready_inv r qs ws bs" and k: "k \<noteq> Kernel" and xs: "xs = remove1 t (waiters k ws bs)"
  obtains r' qs' b where "remove_request r t k = Some (r', b)"
    "ready_inv r' qs' (with_ws k xs ws) (with_bs k xs bs)" "woken_from r r'"
    "\<forall>h. front_of (waiters k ws bs) None = Some t \<longrightarrow> front_of xs None = Some h \<longrightarrow> runnable (states r' h)"
proof -
  have core: "ready_core r qs ws bs" using inv by (simp add: ready_inv_def)
  have sub: "set xs \<subseteq> dom (states r)"
    unfolding xs by (rule order_trans [OF set_remove1_subset inv_subset [OF inv]])
  obtain r' qs' b where r': "remove_request r t k = Some (r', b)"
    "ready_core r' qs' (with_ws k xs ws) (with_bs k xs bs)" "woken_from r r'"
    "\<forall>h. front_of (waiters k ws bs) None = Some t \<longrightarrow> front_of xs None = Some h \<longrightarrow>
       states r h \<noteq> None \<longrightarrow> runnable (states r' h)"
    by (rule remove_request_core [OF core k xs])
  have "ready_inv r' qs' (with_ws k xs ws) (with_bs k xs bs)"
    using r'(2,3) with_subset [OF inv sub] by (simp add: ready_inv_def woken_from_def)
  moreover have "\<forall>h. front_of (waiters k ws bs) None = Some t \<longrightarrow> front_of xs None = Some h \<longrightarrow> runnable (states r' h)"
    using r'(4) front_live [OF sub] by simp
  ultimately show ?thesis using that [OF r'(1) _ r'(3)] by simp
qed

lemma enqueue_inv:
  assumes "ready_inv r qs ws bs"
  shows "enqueue r t = Some (enqueued r qs t, needs_turn r t) \<and>
    ready_inv (enqueued r qs t) (if needs_turn r t then qs @ [t] else qs) ws bs"
  using assms enqueue_eval [of r qs ws bs t] enqueued_core [of r qs ws bs t] by (simp add: ready_inv_def)

lemma resume_head_inv:
  assumes inv: "ready_inv r qs ws bs" and k: "k \<noteq> Kernel"
  obtains r' qs' b where "resume_head r k = Some (r', b)" "ready_inv r' qs' ws bs" "woken_from r r'"
    "\<forall>t. front_of (waiters k ws bs) None = Some t \<longrightarrow> runnable (states r' t)"
proof -
  have core: "ready_core r qs ws bs" using inv by (simp add: ready_inv_def)
  obtain r' qs' b where r': "resume_head r k = Some (r', b)" "ready_core r' qs' ws bs" "woken_from r r'"
    "\<forall>t. front_of (waiters k ws bs) None = Some t \<longrightarrow> states r t \<noteq> None \<longrightarrow> runnable (states r' t)"
    by (rule resume_head_core [OF core k])
  have "ready_inv r' qs' ws bs" using r'(2,3) inv by (simp add: ready_inv_def woken_from_def)
  moreover have "\<forall>t. front_of (waiters k ws bs) None = Some t \<longrightarrow> runnable (states r' t)"
    using r'(4) front_live [OF inv_subset [OF inv]] by simp
  ultimately show ?thesis using that [OF r'(1) _ r'(3)] by simp
qed

lemma park_inv:
  fixes k :: WaitReason
  assumes "ready_inv r qs ws bs" "states r t = Some st"
  defines "xs \<equiv> (if t \<in> set (waiters k ws bs) then waiters k ws bs else waiters k ws bs @ [t])"
  shows "\<exists>r'. park_ready r t k = Some r' \<and>
    ready_inv r' (if st = Notified then qs else remove1 t qs) (with_ws k xs ws) (with_bs k xs bs) \<and>
    states r' = (states r)(t \<mapsto> (if st = Notified then Queued else Waiting k))"
proof -
  let ?st = "if st = Notified then Queued else Waiting k"
  let ?qs = "if st = Notified then qs else remove1 t qs"
  let ?r = "r\<lparr>states := (states r)(t \<mapsto> ?st), queue := order_of ?qs\<rparr>"
  have core: "ready_core r qs ws bs" using assms(1) by (simp add: ready_inv_def)
  have dom: "insert t (dom (states r)) = dom (states r)" using assms(2) by auto
  have "t \<in> set ?qs \<longleftrightarrow> st = Notified"
    using core assms(2) by (auto simp: ready_core_def runnable_def)
  then have core': "ready_core ?r ?qs ws bs"
    using core dom by (auto simp: ready_core_def runnable_def)
  have queue: "queue r = order_of qs" "distinct qs" using core by (simp_all add: ready_core_def)
  have same: "r\<lparr>states := m, queue := order_of qs\<rparr> = r\<lparr>states := m\<rparr>" for m
    using queue(1) by simp
  have swap: "r\<lparr>queue := q, states := m\<rparr> = r\<lparr>states := m, queue := q\<rparr>" for q m by simp
  have park: "park_ready r t k = Some (if k = Kernel then ?r else put_requests ?r k (order_of xs))"
    using requests_core [OF core', of k] assms(2) distinct_waiters [OF core, of k]
    by (cases "st = Notified"; cases "k = Kernel")
       (simp_all add: park_ready_def swap same push_back_order_of xs_def order_remove_order_of queue)
  show ?thesis
  proof (cases "k = Kernel")
    case True
    then show ?thesis using park core' assms(1) dom
      by (auto simp: ready_inv_def with_ws_def with_bs_def)
  next
    case False
    have "distinct xs" using distinct_waiters [OF core, of k] by (simp add: xs_def)
    from put_requests_core [OF core' this, of k]
    show ?thesis using park False assms(1,2) inv_subset [OF assms(1), of k] dom
      by (auto simp: ready_inv_def with_ws_def with_bs_def xs_def split: if_splits)
  qed
qed

lemma woken_from_trans: "\<lbrakk>woken_from a b; woken_from b c\<rbrakk> \<Longrightarrow> woken_from a c"
  by (auto simp: woken_from_def)

lemma retire_inv:
  assumes inv: "ready_inv r qs ws bs"
  obtains r' qs' b where "retire_ready r t = Some (r', b)"
    "ready_inv r' qs' (remove1 t ws) (remove1 t bs)" "woken_from (r\<lparr>states := (states r)(t := None)\<rparr>) r'"
    "\<forall>h. front_of ws None = Some t \<longrightarrow> front_of (remove1 t ws) None = Some h \<longrightarrow> runnable (states r' h)"
    "\<forall>h. front_of bs None = Some t \<longrightarrow> front_of (remove1 t bs) None = Some h \<longrightarrow> runnable (states r' h)"
proof -
  let ?r0 = "r\<lparr>states := (states r)(t := None), queue := order_of (remove1 t qs)\<rparr>"
  have core: "ready_core r qs ws bs" using inv by (simp add: ready_inv_def)
  have "card (dom (states r) - {t}) \<le> card (dom (states r))"
    using core by (intro card_mono) (auto simp: ready_core_def)
  then have core0: "ready_core ?r0 (remove1 t qs) ws bs"
    using core by (auto simp: ready_core_def runnable_def)
  obtain r1 q1 b1 where r1: "remove_request ?r0 t Queue = Some (r1, b1)"
    "ready_core r1 q1 (with_ws Queue (remove1 t ws) ws) (with_bs Queue (remove1 t ws) bs)"
    "woken_from ?r0 r1"
    "\<forall>h. front_of (waiters Queue ws bs) None = Some t \<longrightarrow> front_of (remove1 t ws) None = Some h \<longrightarrow>
       states ?r0 h \<noteq> None \<longrightarrow> runnable (states r1 h)"
    by (rule remove_request_core [OF core0, of Queue "remove1 t ws" t]) (simp_all add: waiters_def)
  have core1: "ready_core r1 q1 (remove1 t ws) bs" using r1(2) by (simp add: with_ws_def with_bs_def)
  obtain r2 q2 b2 where r2: "remove_request r1 t Bytes = Some (r2, b2)"
    "ready_core r2 q2 (with_ws Bytes (remove1 t bs) (remove1 t ws)) (with_bs Bytes (remove1 t bs) bs)"
    "woken_from r1 r2"
    "\<forall>h. front_of (waiters Bytes (remove1 t ws) bs) None = Some t \<longrightarrow> front_of (remove1 t bs) None = Some h \<longrightarrow>
       states r1 h \<noteq> None \<longrightarrow> runnable (states r2 h)"
    by (rule remove_request_core [OF core1, of Bytes "remove1 t bs" t]) (simp_all add: waiters_def)
  have dom1: "dom (states r1) = dom (states r) - {t}" and dom2: "dom (states r2) = dom (states r) - {t}"
    using r1(3) r2(3) by (auto simp: woken_from_def)
  have ws: "set (remove1 t ws) \<subseteq> dom (states r) - {t}" and bs: "set (remove1 t bs) \<subseteq> dom (states r) - {t}"
    using inv by (auto simp: ready_inv_def ready_core_def)
  have eval: "retire_ready r t = Some (r2, b1 \<or> b2)"
    using core r1(1) r2(1) by (simp add: retire_ready_def ready_core_def order_remove_order_of)
  have inv2: "ready_inv r2 q2 (remove1 t ws) (remove1 t bs)"
    using r2(2) ws bs dom2 by (simp add: ready_inv_def with_ws_def with_bs_def)
  have woken: "woken_from (r\<lparr>states := (states r)(t := None)\<rparr>) r2"
    using woken_from_trans [OF r1(3) r2(3)] by (simp add: woken_from_def)
  have "runnable (states r1 h) \<Longrightarrow> runnable (states r2 h)" for h
    using r2(3) by (simp add: woken_from_def)
  moreover have "\<lbrakk>front_of (remove1 t ws) None = Some h\<rbrakk> \<Longrightarrow> states ?r0 h \<noteq> None" for h
    using front_live [of "remove1 t ws" "states ?r0"] ws by auto
  moreover have "\<lbrakk>front_of (remove1 t bs) None = Some h\<rbrakk> \<Longrightarrow> states r1 h \<noteq> None" for h
    using front_live [of "remove1 t bs" "states r1"] bs dom1 by auto
  ultimately show ?thesis using r1(4) r2(4)
    by (intro that [OF eval inv2 woken]) (simp_all add: waiters_def)
qed

lemma take_inv:
  assumes inv: "ready_inv (ready s) qs ws bs"
  shows "sched_take s =
    Some (case qs of
        [] \<Rightarrow> (s, None)
      | t # ts \<Rightarrow> (s\<lparr>ready := (ready s)\<lparr>queue := order_of ts, states := (states (ready s))(t \<mapsto> Running)\<rparr>\<rparr>, Some t))"
    and "qs = t # ts \<Longrightarrow>
      ready_inv ((ready s)\<lparr>queue := order_of ts, states := (states (ready s))(t \<mapsto> Running)\<rparr>) ts ws bs"
proof -
  have core: "ready_core (ready s) qs ws bs" using inv by (simp add: ready_inv_def)
  then have q: "pop_front (queue (ready s)) = Some (order_of (tl qs), front_of qs None)"
    and same: "queue (ready s) = order_of qs"
    by (simp_all add: ready_core_def pop_front_order_of)
  show "sched_take s = Some (case qs of [] \<Rightarrow> (s, None)
      | t # ts \<Rightarrow> (s\<lparr>ready := (ready s)\<lparr>queue := order_of ts, states := (states (ready s))(t \<mapsto> Running)\<rparr>\<rparr>, Some t))"
  proof (cases qs)
    case Nil
    then show ?thesis using q same by (simp add: sched_take_def)
  next
    case (Cons t ts)
    then have "states (ready s) t \<noteq> None" using core by (auto simp: ready_core_def runnable_def)
    with Cons q show ?thesis by (auto simp: sched_take_def)
  qed
  assume qs: "qs = t # ts"
  then have live: "insert t (dom (states (ready s))) = dom (states (ready s))"
    using core by (auto simp: ready_core_def runnable_def)
  then show "ready_inv ((ready s)\<lparr>queue := order_of ts, states := (states (ready s))(t \<mapsto> Running)\<rparr>) ts ws bs"
    using inv qs by (auto simp: ready_inv_def ready_core_def runnable_def)
qed

lemma insert_inv:
  assumes inv: "ready_inv (ready s) qs ws bs"
    and room: "card (dom (states (ready s))) < ready_capacity (ready s)" and fresh: "states (ready s) t = None"
  shows "\<exists>s'. sched_insert s t = Some s' \<and> ready_inv (ready s') (qs @ [t]) ws bs \<and> signals s' = signals s \<and>
    states (ready s') = (states (ready s))(t \<mapsto> Queued)"
proof -
  have "t \<notin> set qs" using inv fresh by (simp add: ready_inv_def ready_core_def runnable_def)
  moreover have "t \<notin> dom (states (ready s))" using fresh by auto
  ultimately show ?thesis
    using inv room fresh
    by (simp add: sched_insert_def ready_inv_def ready_core_def push_back_order_of Let_def card_insert_if)
       (auto simp: runnable_def)
qed

lemma request_turn_inv:
  assumes inv: "ready_inv r qs ws bs" and live: "states r t \<noteq> None" and k: "k \<noteq> Kernel"
    and xs: "xs = (if t \<in> set (waiters k ws bs) then waiters k ws bs else waiters k ws bs @ [t])"
  shows "\<exists>r'. request_turn_ready r t k = Some (r', front_of xs None = Some t) \<and>
    ready_inv r' qs (with_ws k xs ws) (with_bs k xs bs) \<and> states r' = states r"
proof -
  have core: "ready_core r qs ws bs" using inv by (simp add: ready_inv_def)
  have dist: "distinct (waiters k ws bs)" using core by (rule distinct_waiters)
  have "set xs \<subseteq> dom (states r)" using inv_subset [OF inv, of k] live by (auto simp: xs)
  then show ?thesis
    using put_requests_core [OF core, of xs k] with_subset [OF inv, of xs k] dist live
    by (simp add: request_turn_ready_def requests_core [OF core k] push_back_order_of ready_inv_def xs)
qed

text \<open>No operation changes the admission limit.\<close>

lemma ready_capacity_enqueued [simp]: "ready_capacity (enqueued r qs t) = ready_capacity r"
  by (simp add: enqueued_def split: option.split)

lemma enqueue_capacity: "enqueue r t = Some (r', b) \<Longrightarrow> ready_capacity r' = ready_capacity r"
  by (auto simp: enqueue_def Let_def split: option.splits State.splits if_splits bind_splits)

lemma resume_head_capacity: "resume_head r k = Some (r', b) \<Longrightarrow> ready_capacity r' = ready_capacity r"
  by (auto simp: resume_head_def dest: enqueue_capacity split: bind_splits option.splits)

lemma remove_request_capacity: "remove_request r t k = Some (r', b) \<Longrightarrow> ready_capacity r' = ready_capacity r"
  by (auto simp: remove_request_def Let_def dest: resume_head_capacity split: bind_splits if_splits)

lemma retire_capacity: "retire_ready r t = Some (r', b) \<Longrightarrow> ready_capacity r' = ready_capacity r"
  by (auto simp: retire_ready_def dest!: remove_request_capacity split: bind_splits)

lemma park_capacity: "park_ready r t k = Some r' \<Longrightarrow> ready_capacity r' = ready_capacity r"
  by (auto simp: park_ready_def Let_def split: bind_splits if_splits)

lemma request_turn_capacity: "request_turn_ready r t k = Some (r', b) \<Longrightarrow> ready_capacity r' = ready_capacity r"
  by (auto simp: request_turn_ready_def split: bind_splits if_splits)

section \<open>Histories of one scheduler\<close>

datatype sched_op =
    SInsert Token | STake | SIoReady Token | SPark Token WaitReason | SResume WaitReason
  | SRequest Token WaitReason | SFinish Token WaitReason | SRetire Token | SWake Token

text \<open>
  When the worker calls each operation: admission checks the limit and hands out fresh tokens, a
  task parks or asks for a turn while it is live, and turns exist for queue slots and bytes.
\<close>

definition sched_enabled :: "sched_op \<Rightarrow> Scheduler \<Rightarrow> bool" where
  "sched_enabled p s =
     (case p of
        SInsert t \<Rightarrow> card (dom (states (ready s))) < ready_capacity (ready s) \<and> states (ready s) t = None
      | SPark t k \<Rightarrow> states (ready s) t \<noteq> None
      | SResume k \<Rightarrow> k \<noteq> Kernel
      | SRequest t k \<Rightarrow> states (ready s) t \<noteq> None \<and> k \<noteq> Kernel
      | SFinish t k \<Rightarrow> k \<noteq> Kernel
      | _ \<Rightarrow> True)"

fun sched_exec :: "io_error + unit \<Rightarrow> sched_op \<Rightarrow> Scheduler \<Rightarrow> Scheduler run" where
  "sched_exec wr (SInsert t) s = sched_insert s t"
| "sched_exec wr STake s = map_option fst (sched_take s)"
| "sched_exec wr (SIoReady t) s = io_ready s t"
| "sched_exec wr (SPark t k) s = park s t k"
| "sched_exec wr (SResume k) s = resume_credit s k"
| "sched_exec wr (SRequest t k) s = map_option fst (request_turn s t k)"
| "sched_exec wr (SFinish t k) s = map_option fst (finish_request wr s t k)"
| "sched_exec wr (SRetire t) s = map_option fst (retire wr s t)"
| "sched_exec wr (SWake t) s = map_option fst (task_wake wr s t)"

inductive sched_reachable :: "nat \<Rightarrow> Scheduler \<Rightarrow> bool" for cap where
  sched_start: "sched_reachable cap (Scheduler_new cap g)"
| sched_step:
    "\<lbrakk>sched_reachable cap s; sched_enabled p s; sched_exec wr p s = Some s'\<rbrakk> \<Longrightarrow> sched_reachable cap s'"

lemma wake_if_ready [simp]: "ready (fst (wake_if wr s b)) = ready s"
  by (simp add: wake_if_def split_beta)

lemma ready_ok_new: "ready_ok (ready (Scheduler_new cap g))"
proof -
  have "ready_inv (ready (Scheduler_new cap g)) [] [] []"
    by (simp add: Scheduler_new_def ready_inv_def ready_core_def order_of_Nil runnable_def)
  then show ?thesis unfolding ready_ok_def by blast
qed

lemma sched_exec_ok:
  assumes ok: "ready_ok (ready s)" and en: "sched_enabled p s"
  shows "\<exists>s'. sched_exec wr p s = Some s' \<and> ready_ok (ready s') \<and>
    ready_capacity (ready s') = ready_capacity (ready s)"
proof -
  obtain qs ws bs where inv: "ready_inv (ready s) qs ws bs" using ok by (auto simp: ready_ok_def)
  have cap: "ready_inv r' a b c \<Longrightarrow> ready_ok r'" for r' a b c by (auto simp: ready_ok_def)
  show ?thesis
  proof (cases p)
    case (SInsert t)
    with en insert_inv [OF inv, of t] show ?thesis
      by (auto simp: sched_enabled_def sched_insert_def Let_def split: bind_splits if_splits intro: cap)
  next
    case STake
    show ?thesis
    proof (cases qs)
      case Nil
      with STake take_inv(1) [OF inv] ok show ?thesis by simp
    next
      case (Cons t ts)
      with STake take_inv [OF inv] show ?thesis by (auto intro: cap)
    qed
  next
    case (SIoReady t)
    with enqueue_inv [OF inv, of t] ok show ?thesis
      by (auto simp: io_ready_def ready_capacity_enqueued intro: cap)
  next
    case (SPark t k)
    with en obtain st where "states (ready s) t = Some st" by (auto simp: sched_enabled_def)
    from park_inv [OF inv this, of k] SPark show ?thesis by (auto simp: park_def intro: cap park_capacity)
  next
    case (SResume k)
    with en have k: "k \<noteq> Kernel" by (simp add: sched_enabled_def)
    show ?thesis
      by (rule resume_head_inv [OF inv k])
         (auto simp: SResume resume_credit_def intro: cap resume_head_capacity)
  next
    case (SRequest t k)
    with en request_turn_inv [OF inv, of t k] show ?thesis
      by (auto simp: sched_enabled_def request_turn_def intro: cap request_turn_capacity)
  next
    case (SFinish t k)
    with en have k: "k \<noteq> Kernel" by (simp add: sched_enabled_def)
    show ?thesis
      by (rule remove_request_inv [OF inv k refl, of t])
         (auto simp: SFinish finish_request_def intro: cap remove_request_capacity)
  next
    case (SRetire t)
    show ?thesis
      by (rule retire_inv [OF inv, of t]) (auto simp: SRetire retire_def intro: cap retire_capacity)
  next
    case (SWake t)
    with enqueue_inv [OF inv, of t] show ?thesis
      by (auto simp: task_wake_def ready_capacity_enqueued intro: cap)
  qed
qed

lemma sched_reachable_ok:
  "sched_reachable cap s \<Longrightarrow> ready_ok (ready s) \<and> ready_capacity (ready s) = cap"
proof (induction rule: sched_reachable.induct)
  case (sched_start g)
  show ?case by (simp add: ready_ok_new) (simp add: Scheduler_new_def)
next
  case (sched_step s p wr s')
  with sched_exec_ok [of s p wr] show ?case by force
qed

lemma task_wake_unknown: "states (ready s) t = None \<Longrightarrow> task_wake wr s t = Some (s, False)"
  by (simp add: task_wake_def enqueue_def wake_if_def)

section \<open>Properties\<close>

text \<open>
  C14: In every state a worker reaches, no scheduler operation panics, the run queue holds each
  runnable task exactly once and no other, at most as many as connections are admitted, and the
  orders of waiting tasks hold live tasks only.
\<close>

theorem scheduler_ops_safe:
  assumes "sched_reachable cap s" "sched_enabled p s"
  shows "sched_exec wr p s \<noteq> None \<and>
    (\<exists>qs. queue (ready s) = order_of qs \<and> distinct qs \<and> length qs \<le> cap \<and>
       (\<forall>t. t \<in> set qs \<longleftrightarrow> runnable (states (ready s) t))) \<and>
    (\<forall>k d t. requests (ready s) k = Some d \<and> links d t \<noteq> None \<longrightarrow> states (ready s) t \<noteq> None)"
proof -
  have ok: "ready_ok (ready s)" and cap: "ready_capacity (ready s) = cap"
    using sched_reachable_ok [OF assms(1)] by auto
  then obtain qs ws bs where inv: "ready_inv (ready s) qs ws bs" by (auto simp: ready_ok_def)
  then have core: "ready_core (ready s) qs ws bs" by (simp add: ready_inv_def)
  have "set qs \<subseteq> dom (states (ready s))" using core by (auto simp: ready_core_def runnable_def)
  then have len: "length qs \<le> cap"
    using core cap card_mono [of "dom (states (ready s))" "set qs"] by (auto simp: ready_core_def distinct_card)
  have "requests (ready s) k = Some d \<Longrightarrow> d = order_of (waiters k ws bs)" for k d
    using core by (cases k) (auto simp: requests_def waiters_def ready_core_def)
  then have "\<forall>k d t. requests (ready s) k = Some d \<and> links d t \<noteq> None \<longrightarrow> states (ready s) t \<noteq> None"
    using inv_subset [OF inv] links_order_of by (metis domIff subsetD)
  then show ?thesis using core len sched_exec_ok [OF ok assms(2), of wr] by (auto simp: ready_core_def)
qed

theorem scheduler_ops_safe_witness:
  "sched_reachable 1 (Scheduler_new 1 Signals_new) \<and>
   sched_exec (Inr ()) (SInsert 7) (Scheduler_new 1 Signals_new) \<noteq> None"
proof -
  have "sched_enabled (SInsert 7) (Scheduler_new 1 Signals_new)"
    by (simp add: sched_enabled_def Scheduler_new_def)
  with scheduler_ops_safe [OF sched_start, of "SInsert 7" 1 Signals_new "Inr ()"] show ?thesis
    by (auto intro: sched_start)
qed

text \<open>
  C26: A wake that arrives while a task is being polled is not lost: it puts the task in the run
  queue once, further wakes change nothing, and when the poll then parks the task it stays
  queued, so the task is polled again.
\<close>

theorem wake_during_poll_is_kept:
  assumes "sched_reachable cap s" "states (ready s) t = Some Running"
  shows "\<exists>s1 b s2. task_wake wr s t = Some (s1, b) \<and> task_wake wr s1 t = Some (s1, False) \<and>
    park s1 t k = Some s2 \<and> states (ready s2) t = Some Queued \<and> links (queue (ready s2)) t \<noteq> None"
proof -
  obtain qs ws bs where inv: "ready_inv (ready s) qs ws bs"
    using sched_reachable_ok [OF assms(1)] by (auto simp: ready_ok_def)
  have need: "needs_turn (ready s) t" using assms(2) by (simp add: needs_turn_def runnable_def)
  let ?r1 = "enqueued (ready s) qs t"
  let ?s1 = "fst (wake_if wr (s\<lparr>ready := ?r1\<rparr>) True)"
  have inv1: "ready_inv ?r1 (qs @ [t]) ws bs" and wake: "enqueue (ready s) t = Some (?r1, True)"
    using enqueue_inv [OF inv, of t] need by simp_all
  have st1: "states ?r1 t = Some Notified" using assms(2) by (simp add: enqueued_states enqueued_state_def)
  then have again: "enqueue ?r1 t = Some (?r1, False)" by (simp add: enqueue_def)
  obtain r2 where r2: "park_ready ?r1 t k = Some r2" "states r2 = (states ?r1)(t \<mapsto> Queued)"
    and inv2: "\<exists>ws' bs'. ready_inv r2 (qs @ [t]) ws' bs'"
    using park_inv [OF inv1 st1, of k] by auto
  have "links (queue r2) t \<noteq> None" using inv2 by (auto simp: ready_inv_def ready_core_def)
  then show ?thesis
    using r2 wake again
    by (intro exI [of _ ?s1] exI [of _ "snd (wake_if wr (s\<lparr>ready := ?r1\<rparr>) True)"] exI [of _ "?s1\<lparr>ready := r2\<rparr>"])
       (simp add: task_wake_def park_def wake_if_def split_beta)
qed

theorem wake_during_poll_is_kept_witness:
  "\<exists>s s1 b s2. states (ready s) 3 = Some Running \<and> task_wake (Inr ()) s 3 = Some (s1, b) \<and>
     park s1 3 Kernel = Some s2 \<and> states (ready s2) 3 = Some Queued"
proof -
  let ?s1 = "the (sched_insert (Scheduler_new 1 Signals_new) 3)"
  let ?s2 = "fst (the (sched_take ?s1))"
  note ev = Scheduler_new_def sched_insert_def sched_take_def Let_def order_of_Nil [symmetric]
    push_back_order_of pop_front_order_of
  have r1: "sched_reachable 1 ?s1"
    by (rule sched_step [OF sched_start, where p = "SInsert 3" and wr = "Inr ()"])
       (simp_all add: sched_enabled_def ev)
  have r2: "sched_reachable 1 ?s2"
    by (rule sched_step [OF r1, where p = STake and wr = "Inr ()"]) (simp_all add: sched_enabled_def ev)
  have "states (ready ?s2) 3 = Some Running" by (simp add: ev)
  from wake_during_poll_is_kept [OF r2 this, where wr = "Inr ()" and k = Kernel] this show ?thesis by blast
qed

text \<open>
  C27: Retiring a connection removes every trace of its token: a late wake or readiness event for
  it changes nothing and wakes nobody, and it stands in no order, so it can never reach a
  connection admitted later.
\<close>

theorem retired_token_is_inert:
  assumes "sched_reachable cap s"
  shows "\<exists>s' b. retire wr s t = Some (s', b) \<and>
    task_wake wr' s' t = Some (s', False) \<and> io_ready s' t = Some s' \<and>
    links (queue (ready s')) t = None \<and> links (queue_waiters (ready s')) t = None \<and>
    links (byte_waiters (ready s')) t = None \<and>
    dom (states (ready s')) = dom (states (ready s)) - {t}"
proof -
  obtain qs ws bs where inv: "ready_inv (ready s) qs ws bs"
    using sched_reachable_ok [OF assms] by (auto simp: ready_ok_def)
  obtain r' qs' b where r': "retire_ready (ready s) t = Some (r', b)"
    "ready_inv r' qs' (remove1 t ws) (remove1 t bs)"
    "woken_from ((ready s)\<lparr>states := (states (ready s))(t := None)\<rparr>) r'"
    by (rule retire_inv [OF inv, of t])
  have dom: "dom (states r') = dom (states (ready s)) - {t}" using r'(3) by (simp add: woken_from_def)
  then have none: "states r' t = None" by (metis Diff_iff domIff insertI1)
  have "t \<notin> set qs'" using r'(2) none by (simp add: ready_inv_def ready_core_def runnable_def)
  moreover have "t \<notin> set (remove1 t ws)" "t \<notin> set (remove1 t bs)"
    using inv by (simp_all add: ready_inv_def ready_core_def)
  ultimately have links: "links (queue r') t = None" "links (queue_waiters r') t = None" "links (byte_waiters r') t = None"
    using r'(2) by (simp_all add: ready_inv_def ready_core_def)
  let ?s' = "fst (wake_if wr (s\<lparr>ready := r'\<rparr>) b)"
  have "task_wake wr' ?s' t = Some (?s', False)"
    using none by (simp add: task_wake_unknown)
  moreover have "io_ready ?s' t = Some ?s'" using none by (simp add: io_ready_def)
  moreover have "retire wr s t = Some (?s', snd (wake_if wr (s\<lparr>ready := r'\<rparr>) b))" using r'(1) by (simp add: retire_def)
  ultimately show ?thesis using dom links by (metis wake_if_ready Scheduler.select_convs(1) Scheduler.surjective Scheduler.update_convs(1))
qed

theorem retired_token_is_inert_witness:
  "\<exists>s b. retire (Inr ()) (Scheduler_new 1 Signals_new) 5 = Some (s, b) \<and>
     task_wake (Inr ()) s 5 = Some (s, False) \<and> io_ready s 5 = Some s"
  using retired_token_is_inert [OF sched_start, where wr = "Inr ()" and wr' = "Inr ()" and t = 5] by blast

end
