(* ===== verification/Credit_Turns.thy ===== *)
theory Credit_Turns
  imports Task_Scheduler
begin

text \<open>
  Turns and credit across threads.  The orders of \<open>scheduler.rs\<close> promise that a task waiting for a
  queue slot or for bytes is not forgotten: this theory interleaves the locked sections of the
  worker (asking for a turn, trying, parking, finishing, taking the credit signal, resuming) with
  those of the threads that give resources back, and shows that no credit is lost.
\<close>

section \<open>Credit and turns under interleaving\<close>

text \<open>
  A task that needs \<open>n\<close> units of a resource (queue slots or bytes) asks for its turn, tries when
  it is first in line, and parks when it is behind another task or the resource is short.  Other
  threads give units back and then publish the credit signal; the worker takes the signal and
  resumes the first task in line.  The locked sections of all of them interleave: \<open>c_phase\<close> is
  where the worker thread stands, \<open>c_releasing\<close> counts the threads between giving back and
  publishing, and \<open>c_need\<close> remembers what a task asked for when it was refused.
\<close>

datatype credit_phase =
    Idle | Behind Token | AtHead Token nat | Refused Token nat | Finishing Token | Resuming

record credit =
  c_sched :: Scheduler
  c_avail :: nat
  c_releasing :: nat
  c_phase :: credit_phase
  c_need :: "Token \<rightharpoonup> nat"

definition credit_flag :: "WaitReason \<Rightarrow> Signals \<Rightarrow> bool" where
  "credit_flag k g = (case k of Queue \<Rightarrow> sig_queue g | Bytes \<Rightarrow> sig_bytes g | Kernel \<Rightarrow> False)"

definition credit_signal :: "WaitReason \<Rightarrow> Signal" where
  "credit_signal k = (if k = Queue then SigQueue else SigBytes)"

definition take_credit :: "WaitReason \<Rightarrow> Signals \<Rightarrow> Signals \<times> bool" where
  "take_credit k g = (if k = Queue then take_queue_credit g else take_byte_credit g)"

definition polled :: "Scheduler \<Rightarrow> Token \<Rightarrow> bool" where
  "polled s t \<longleftrightarrow> states (ready s) t = Some Running \<or> states (ready s) t = Some Notified"

text \<open>Operations of the worker that do not concern the resource \<open>k\<close>, and dropped requests.\<close>

definition unrelated :: "WaitReason \<Rightarrow> sched_op \<Rightarrow> bool" where
  "unrelated k p =
     (case p of SPark t j \<Rightarrow> j \<noteq> k | SResume j \<Rightarrow> j \<noteq> k | SRequest t j \<Rightarrow> j \<noteq> k | _ \<Rightarrow> True)"

inductive credit_step :: "WaitReason \<Rightarrow> credit \<Rightarrow> credit \<Rightarrow> bool" for k where
  ask_first: "\<lbrakk>c_phase w = Idle; polled (c_sched w) t; request_turn (c_sched w) t k = Some (s, True)\<rbrakk>
    \<Longrightarrow> credit_step k w (w\<lparr>c_sched := s, c_phase := AtHead t n\<rparr>)"
| ask_behind: "\<lbrakk>c_phase w = Idle; polled (c_sched w) t; request_turn (c_sched w) t k = Some (s, False)\<rbrakk>
    \<Longrightarrow> credit_step k w (w\<lparr>c_sched := s, c_phase := Behind t\<rparr>)"
| park_behind: "\<lbrakk>c_phase w = Behind t; park (c_sched w) t k = Some s\<rbrakk>
    \<Longrightarrow> credit_step k w (w\<lparr>c_sched := s, c_phase := Idle\<rparr>)"
| acquire: "\<lbrakk>c_phase w = AtHead t n; n \<le> c_avail w\<rbrakk>
    \<Longrightarrow> credit_step k w (w\<lparr>c_avail := c_avail w - n, c_phase := Finishing t\<rparr>)"
| give_up: "c_phase w = AtHead t n \<Longrightarrow> credit_step k w (w\<lparr>c_phase := Finishing t\<rparr>)"
| refuse: "\<lbrakk>c_phase w = AtHead t n; c_avail w < n\<rbrakk> \<Longrightarrow> credit_step k w (w\<lparr>c_phase := Refused t n\<rparr>)"
| park_refused: "\<lbrakk>c_phase w = Refused t n; park (c_sched w) t k = Some s\<rbrakk>
    \<Longrightarrow> credit_step k w (w\<lparr>c_sched := s, c_phase := Idle, c_need := (c_need w)(t \<mapsto> n)\<rparr>)"
| finish: "\<lbrakk>c_phase w = Finishing t; finish_request wr (c_sched w) t k = Some (s, b)\<rbrakk>
    \<Longrightarrow> credit_step k w (w\<lparr>c_sched := s, c_phase := Idle\<rparr>)"
| take_signal: "\<lbrakk>c_phase w = Idle; take_credit k (signals (c_sched w)) = (g, True)\<rbrakk>
    \<Longrightarrow> credit_step k w (w\<lparr>c_sched := (c_sched w)\<lparr>signals := g\<rparr>, c_phase := Resuming\<rparr>)"
| resume: "\<lbrakk>c_phase w = Resuming; resume_credit (c_sched w) k = Some s\<rbrakk>
    \<Longrightarrow> credit_step k w (w\<lparr>c_sched := s, c_phase := Idle\<rparr>)"
| worker: "\<lbrakk>c_phase w = Idle; unrelated k p; sched_enabled p (c_sched w); sched_exec wr p (c_sched w) = Some s\<rbrakk>
    \<Longrightarrow> credit_step k w (w\<lparr>c_sched := s\<rparr>)"
| give_back: "credit_step k w (w\<lparr>c_avail := c_avail w + n, c_releasing := c_releasing w + 1\<rparr>)"
| publish_credit: "0 < c_releasing w
    \<Longrightarrow> credit_step k w (w\<lparr>c_sched := (c_sched w)\<lparr>signals := fst (publish wr (signals (c_sched w)) (credit_signal k))\<rparr>,
                        c_releasing := c_releasing w - 1\<rparr>)"
| wake_any: "task_wake wr (c_sched w) t = Some (s, b) \<Longrightarrow> credit_step k w (w\<lparr>c_sched := s\<rparr>)"

inductive credit_reachable :: "WaitReason \<Rightarrow> credit \<Rightarrow> bool" for k where
  credit_start: "credit_reachable k
    \<lparr>c_sched = Scheduler_new cap Signals_new, c_avail = units, c_releasing = 0, c_phase = Idle, c_need = Map.empty\<rparr>"
| credit_next: "\<lbrakk>credit_reachable k w; credit_step k w w'\<rbrakk> \<Longrightarrow> credit_reachable k w'"

definition head_of :: "WaitReason \<Rightarrow> Scheduler \<Rightarrow> Token option" where
  "head_of k s = (case requests (ready s) k of None \<Rightarrow> None | Some d \<Rightarrow> first_token d)"

definition head_waits :: "WaitReason \<Rightarrow> Scheduler \<Rightarrow> Token \<Rightarrow> bool" where
  "head_waits k s h \<longleftrightarrow> head_of k s = Some h \<and> states (ready s) h = Some (Waiting k)"

definition phase_ok :: "WaitReason \<Rightarrow> credit \<Rightarrow> bool" where
  "phase_ok k w =
     (case c_phase w of
        Behind t \<Rightarrow> polled (c_sched w) t \<and> head_of k (c_sched w) \<noteq> Some t \<and> head_of k (c_sched w) \<noteq> None
      | AtHead t n \<Rightarrow> polled (c_sched w) t \<and> head_of k (c_sched w) = Some t
      | Refused t n \<Rightarrow> polled (c_sched w) t \<and> head_of k (c_sched w) = Some t \<and>
          (credit_flag k (signals (c_sched w)) \<or> 0 < c_releasing w \<or> c_avail w < n)
      | Finishing t \<Rightarrow> polled (c_sched w) t \<and> head_of k (c_sched w) = Some t
      | _ \<Rightarrow> True)"

definition credit_inv :: "WaitReason \<Rightarrow> credit \<Rightarrow> bool" where
  "credit_inv k w \<longleftrightarrow>
     ready_ok (ready (c_sched w)) \<and> phase_ok k w \<and>
     (\<forall>h. head_waits k (c_sched w) h \<longrightarrow>
        credit_flag k (signals (c_sched w)) \<or> 0 < c_releasing w \<or> c_phase w = Resuming \<or>
        (\<exists>n. c_need w h = Some n \<and> c_avail w < n))"

lemma head_of_inv:
  "\<lbrakk>ready_inv (ready s) qs ws bs; k \<noteq> Kernel\<rbrakk> \<Longrightarrow> head_of k s = front_of (waiters k ws bs) None"
  by (auto simp: head_of_def ready_inv_def requests_core)

lemma wake_if_flags [simp]: "credit_flag k (signals (fst (wake_if wr s b))) = credit_flag k (signals s)"
  by (cases k) (auto simp: wake_if_def signal_wake_def signal_notify_def remember_def credit_flag_def
      split: sum.splits option.splits)

lemma publish_flag: "k \<noteq> Kernel \<Longrightarrow> credit_flag k (fst (publish wr g (credit_signal k)))"
  by (cases k) (auto simp: publish_def signal_wake_def signal_notify_def remember_def credit_flag_def
      credit_signal_def split: sum.splits option.splits)

lemma wake_if_head [simp]:
  "head_of k (fst (wake_if wr s b)) = head_of k s" "polled (fst (wake_if wr s b)) t = polled s t"
  "head_waits k (fst (wake_if wr s b)) h = head_waits k s h"
  by (simp_all add: head_of_def polled_def head_waits_def)


lemma front_remove1: "front_of xs None \<noteq> Some t \<Longrightarrow> front_of (remove1 t xs) None = front_of xs None"
  by (cases xs) auto

lemma not_runnable_waiting: "runnable (states r h) \<Longrightarrow> states r h \<noteq> Some (Waiting k)"
  by (auto simp: runnable_def)

lemma ready_inv_of_ok: "ready_ok r \<Longrightarrow> \<exists>qs ws bs. ready_inv r qs ws bs"
  by (simp add: ready_ok_def)

text \<open>What keeps the head of the line: no new waiting state appears at it.\<close>

definition keeps_head :: "WaitReason \<Rightarrow> Scheduler \<Rightarrow> Scheduler \<Rightarrow> bool" where
  "keeps_head k s s' \<longleftrightarrow>
     (\<forall>h. head_waits k s' h \<longrightarrow> head_waits k s h) \<and>
     credit_flag k (signals s') = credit_flag k (signals s)"

lemma keeps_headI:
  assumes "ready_inv (ready s) qs ws bs" "ready_inv (ready s') qs' ws' bs'" "k \<noteq> Kernel"
    and "credit_flag k (signals s') = credit_flag k (signals s)"
    and "\<And>h. \<lbrakk>front_of (waiters k ws' bs') None = Some h; states (ready s') h = Some (Waiting k)\<rbrakk> \<Longrightarrow>
           front_of (waiters k ws bs) None = Some h \<and> states (ready s) h = Some (Waiting k)"
  shows "keeps_head k s s'"
  using assms head_of_inv [OF assms(1,3)] head_of_inv [OF assms(2,3)]
  by (simp add: keeps_head_def head_waits_def)

lemma enqueue_keeps_head:
  assumes inv: "ready_inv (ready s) qs ws bs" and k: "k \<noteq> Kernel"
  shows "keeps_head k s (fst (wake_if wr (s\<lparr>ready := enqueued (ready s) qs t\<rparr>) b))"
proof (rule keeps_headI [OF inv _ k])
  show "ready_inv (ready (fst (wake_if wr (s\<lparr>ready := enqueued (ready s) qs t\<rparr>) b)))
      (if needs_turn (ready s) t then qs @ [t] else qs) ws bs"
    using enqueue_inv [OF inv] by simp
qed (use woken_from_enqueued [of "ready s" qs t] in \<open>auto simp: woken_from_def\<close>)

lemma remove_keeps_head:
  assumes inv: "ready_inv (ready s) qs ws bs" and k: "k \<noteq> Kernel" and j: "j \<noteq> Kernel"
    and exec: "remove_request (ready s) t j = Some (r', b)"
  shows "keeps_head k s (fst (wake_if wr (s\<lparr>ready := r'\<rparr>) c))"
proof -
  define xs where "xs = remove1 t (waiters j ws bs)"
  obtain qs' where inv': "ready_inv r' qs' (with_ws j xs ws) (with_bs j xs bs)" and woken: "woken_from (ready s) r'"
    and head: "\<forall>h. front_of (waiters j ws bs) None = Some t \<longrightarrow> front_of xs None = Some h \<longrightarrow> runnable (states r' h)"
    by (rule remove_request_inv [OF inv j xs_def]) (use exec in auto)
  show ?thesis
  proof (rule keeps_headI [OF inv _ k])
    show "ready_inv (ready (fst (wake_if wr (s\<lparr>ready := r'\<rparr>) c))) qs' (with_ws j xs ws) (with_bs j xs bs)"
      using inv' by simp
    fix h assume h: "front_of (waiters k (with_ws j xs ws) (with_bs j xs bs)) None = Some h"
      "states (ready (fst (wake_if wr (s\<lparr>ready := r'\<rparr>) c))) h = Some (Waiting k)"
    then have wait: "states (ready s) h = Some (Waiting k)" using woken by (simp add: woken_from_def)
    have "front_of (waiters k ws bs) None = Some h"
    proof (cases "j = k")
      case True
      with h head k have "front_of (waiters k ws bs) None \<noteq> Some t"
        using not_runnable_waiting [of r' h k] by auto
      with True h(1) k show ?thesis by (simp add: xs_def front_remove1)
    next
      case False
      with h(1) show ?thesis by simp
    qed
    with wait show "front_of (waiters k ws bs) None = Some h \<and> states (ready s) h = Some (Waiting k)" by simp
  qed simp
qed

lemma retire_keeps_head:
  assumes inv: "ready_inv (ready s) qs ws bs" and k: "k \<noteq> Kernel"
    and exec: "retire_ready (ready s) t = Some (r', b)"
  shows "keeps_head k s (fst (wake_if wr (s\<lparr>ready := r'\<rparr>) c))"
proof -
  obtain qs' where inv': "ready_inv r' qs' (remove1 t ws) (remove1 t bs)"
    and woken: "woken_from ((ready s)\<lparr>states := (states (ready s))(t := None)\<rparr>) r'"
    and hw: "\<forall>h. front_of ws None = Some t \<longrightarrow> front_of (remove1 t ws) None = Some h \<longrightarrow> runnable (states r' h)"
    and hb: "\<forall>h. front_of bs None = Some t \<longrightarrow> front_of (remove1 t bs) None = Some h \<longrightarrow> runnable (states r' h)"
    by (rule retire_inv [OF inv, of t]) (use exec in auto)
  have w: "waiters k (remove1 t ws) (remove1 t bs) = remove1 t (waiters k ws bs)"
    by (cases k) (simp_all add: waiters_def)
  have head: "front_of (waiters k ws bs) None = Some t \<longrightarrow> front_of (remove1 t (waiters k ws bs)) None = Some h \<longrightarrow>
      runnable (states r' h)" for h
    using hw hb k by (cases k) (simp_all add: waiters_def)
  show ?thesis
  proof (rule keeps_headI [OF inv _ k])
    show "ready_inv (ready (fst (wake_if wr (s\<lparr>ready := r'\<rparr>) c))) qs' (remove1 t ws) (remove1 t bs)"
      using inv' by simp
    fix h assume h: "front_of (waiters k (remove1 t ws) (remove1 t bs)) None = Some h"
      "states (ready (fst (wake_if wr (s\<lparr>ready := r'\<rparr>) c))) h = Some (Waiting k)"
    then have "states (ready s) h = Some (Waiting k)"
      using woken by (auto simp: woken_from_def split: if_splits)
    moreover have "front_of (waiters k ws bs) None \<noteq> Some t"
      using h head [of h] not_runnable_waiting [of r' h k] by (auto simp: w)
    ultimately show "front_of (waiters k ws bs) None = Some h \<and> states (ready s) h = Some (Waiting k)"
      using h(1) by (simp add: w front_remove1)
  qed simp
qed

lemma unrelated_keeps_head:
  assumes ok: "ready_ok (ready s)" and k: "k \<noteq> Kernel" and p: "unrelated k p" "sched_enabled p s"
    and exec: "sched_exec wr p s = Some s'"
  shows "keeps_head k s s'"
proof -
  obtain qs ws bs where inv: "ready_inv (ready s) qs ws bs" using ok by (auto simp: ready_ok_def)
  show ?thesis
  proof (cases p)
    case (SInsert t)
    with p insert_inv [OF inv, of t] exec obtain "ready_inv (ready s') (qs @ [t]) ws bs" "signals s' = signals s"
      "states (ready s') = (states (ready s))(t \<mapsto> Queued)"
      by (auto simp: sched_enabled_def)
    then show ?thesis by (intro keeps_headI [OF inv _ k]) (auto split: if_splits)
  next
    case STake
    show ?thesis
    proof (cases qs)
      case Nil
      with STake take_inv(1) [OF inv] exec show ?thesis by (simp add: keeps_head_def)
    next
      case (Cons t ts)
      with STake take_inv [OF inv] exec
      have s': "s' = s\<lparr>ready := (ready s)\<lparr>queue := order_of ts, states := (states (ready s))(t \<mapsto> Running)\<rparr>\<rparr>" by auto
      show ?thesis by (rule keeps_headI [OF inv _ k, of _ ts ws bs])
          (use take_inv(2) [OF inv Cons] in \<open>auto simp: s' split: if_splits\<close>)
    qed
  next
    case (SIoReady t)
    with exec enqueue_inv [OF inv, of t] show ?thesis
      using enqueue_keeps_head [OF inv k, of _ t False]
      by (auto simp: io_ready_def wake_if_def keeps_head_def split: if_splits)
  next
    case (SPark t j)
    with p obtain st where st: "states (ready s) t = Some st" and j: "j \<noteq> k"
      by (auto simp: sched_enabled_def unrelated_def)
    with SPark exec park_inv [OF inv st, of j] show ?thesis
      by (auto simp: park_def intro!: keeps_headI [OF inv _ k] split: if_splits)
  next
    case (SResume j)
    with p have j: "j \<noteq> Kernel" by (simp add: sched_enabled_def)
    obtain r' qs' b where r': "resume_head (ready s) j = Some (r', b)" "ready_inv r' qs' ws bs" "woken_from (ready s) r'"
      by (rule resume_head_inv [OF inv j])
    with SResume exec show ?thesis
      by (auto simp: resume_credit_def woken_from_def intro!: keeps_headI [OF inv _ k])
  next
    case (SRequest t j)
    with p have j: "j \<noteq> k" "j \<noteq> Kernel" "states (ready s) t \<noteq> None"
      by (auto simp: sched_enabled_def unrelated_def)
    with request_turn_inv [OF inv j(3,2) refl] SRequest exec show ?thesis
      by (auto simp: request_turn_def intro!: keeps_headI [OF inv _ k])
  next
    case (SFinish t j)
    with p have j: "j \<noteq> Kernel" by (simp add: sched_enabled_def)
    obtain r' qs' b where r': "remove_request (ready s) t j = Some (r', b)"
      by (rule remove_request_inv [OF inv j refl, of t])
    from remove_keeps_head [OF inv k j r', of wr b] r' SFinish exec show ?thesis
      by (simp add: finish_request_def)
  next
    case (SRetire t)
    obtain r' qs' b where r': "retire_ready (ready s) t = Some (r', b)"
      by (rule retire_inv [OF inv, of t])
    from retire_keeps_head [OF inv k r', of wr b] r' SRetire exec show ?thesis
      by (simp add: retire_def)
  next
    case (SWake t)
    with exec enqueue_inv [OF inv, of t] enqueue_keeps_head [OF inv k] show ?thesis
      by (auto simp: task_wake_def)
  qed
qed


section \<open>The credit invariant\<close>

text \<open>Everything the invariant says of a state depends on these observations only.\<close>

lemma credit_inv_keep:
  assumes "credit_inv k w" "keeps_head k (c_sched w) s" "ready_ok (ready s)" "c_phase w = Idle \<or> c_phase w = Resuming"
  shows "credit_inv k (w\<lparr>c_sched := s\<rparr>)"
  using assms by (auto simp: credit_inv_def keeps_head_def phase_ok_def)

lemma park_sched:
  assumes inv: "ready_inv (ready s) qs ws bs" and k: "k \<noteq> Kernel" and t: "states (ready s) t = Some st"
    and exec: "park s t k = Some s'"
  shows "ready_ok (ready s')" "signals s' = signals s"
    "states (ready s') = (states (ready s))(t \<mapsto> (if st = Notified then Queued else Waiting k))"
    "head_of k s \<noteq> None \<Longrightarrow> head_of k s' = head_of k s"
proof -
  let ?xs = "if t \<in> set (waiters k ws bs) then waiters k ws bs else waiters k ws bs @ [t]"
  obtain r' where r': "park_ready (ready s) t k = Some r'"
    and inv': "ready_inv r' (if st = Notified then qs else remove1 t qs) (with_ws k ?xs ws) (with_bs k ?xs bs)"
    and st: "states r' = (states (ready s))(t \<mapsto> (if st = Notified then Queued else Waiting k))"
    using park_inv [OF inv t, of k] by blast
  then have s': "s' = s\<lparr>ready := r'\<rparr>" using exec by (simp add: park_def)
  have inv'': "ready_inv (ready s') (if st = Notified then qs else remove1 t qs) (with_ws k ?xs ws) (with_bs k ?xs bs)"
    using inv' by (simp add: s')
  show "ready_ok (ready s')" using inv'' ready_ok_def by blast
  show "signals s' = signals s" by (simp add: s')
  show "states (ready s') = (states (ready s))(t \<mapsto> (if st = Notified then Queued else Waiting k))"
    using st by (simp add: s')
  show "head_of k s \<noteq> None \<Longrightarrow> head_of k s' = head_of k s"
    unfolding head_of_inv [OF inv k] head_of_inv [OF inv'' k] waiters_with(1) [OF k]
    by (cases "waiters k ws bs") auto
qed

lemma request_turn_sched:
  assumes inv: "ready_inv (ready s) qs ws bs" and k: "k \<noteq> Kernel" and t: "states (ready s) t \<noteq> None"
    and exec: "request_turn s t k = Some (s', fst_in_line)"
  shows "ready_ok (ready s')" "signals s' = signals s" "states (ready s') = states (ready s)"
    "fst_in_line \<longleftrightarrow> head_of k s' = Some t" "head_of k s' \<noteq> None"
    "head_of k s \<noteq> None \<Longrightarrow> head_of k s' = head_of k s"
proof -
  let ?xs = "if t \<in> set (waiters k ws bs) then waiters k ws bs else waiters k ws bs @ [t]"
  obtain r' where r': "request_turn_ready (ready s) t k = Some (r', front_of ?xs None = Some t)"
    and inv': "ready_inv r' qs (with_ws k ?xs ws) (with_bs k ?xs bs)" and st: "states r' = states (ready s)"
    using request_turn_inv [OF inv t k refl] by blast
  then have s': "s' = s\<lparr>ready := r'\<rparr>" and fst_in_line: "fst_in_line \<longleftrightarrow> front_of ?xs None = Some t"
    using exec by (simp_all add: request_turn_def)
  have inv'': "ready_inv (ready s') qs (with_ws k ?xs ws) (with_bs k ?xs bs)" using inv' by (simp add: s')
  note h' = head_of_inv [OF inv'' k, unfolded waiters_with(1) [OF k]]
  show "ready_ok (ready s')" using inv'' ready_ok_def by blast
  show "signals s' = signals s" "states (ready s') = states (ready s)" using st by (simp_all add: s')
  show "fst_in_line \<longleftrightarrow> head_of k s' = Some t" unfolding h' fst_in_line ..
  show "head_of k s' \<noteq> None" "head_of k s \<noteq> None \<Longrightarrow> head_of k s' = head_of k s"
    unfolding h' head_of_inv [OF inv k] by (cases "waiters k ws bs"; auto)+
qed

lemma enqueue_polled:
  assumes "ready_inv (ready s) qs ws bs" "task_wake wr s t = Some (s', b)" "polled s u"
  shows "polled s' u"
proof -
  have s': "s' = fst (wake_if wr (s\<lparr>ready := enqueued (ready s) qs t\<rparr>) (needs_turn (ready s) t))"
    using assms(2) enqueue_inv [OF assms(1), of t] by (auto simp: task_wake_def)
  then show ?thesis
    using assms(3) by (cases "u = t") (auto simp: polled_def enqueued_states enqueued_state_def)
qed

lemma wake_head:
  assumes "ready_inv (ready s) qs ws bs" "k \<noteq> Kernel" "task_wake wr s t = Some (s', b)"
  shows "head_of k s' = head_of k s"
proof -
  have s': "s' = fst (wake_if wr (s\<lparr>ready := enqueued (ready s) qs t\<rparr>) (needs_turn (ready s) t))"
    using assms(3) enqueue_inv [OF assms(1), of t] by (auto simp: task_wake_def)
  have "ready_inv (ready s') (if needs_turn (ready s) t then qs @ [t] else qs) ws bs"
    using enqueue_inv [OF assms(1), of t] by (simp add: s')
  then show ?thesis using head_of_inv assms(1,2) by metis
qed

lemma credit_inv_park:
  assumes inv: "credit_inv k w" and k: "k \<noteq> Kernel" and t: "polled (c_sched w) t"
    and head: "head_of k (c_sched w) \<noteq> None" and exec: "park (c_sched w) t k = Some s"
    and need: "head_of k (c_sched w) = Some t \<Longrightarrow>
      credit_flag k (signals (c_sched w)) \<or> 0 < c_releasing w \<or> (\<exists>n. m t = Some n \<and> c_avail w < n)"
    and same: "\<And>h. h \<noteq> t \<Longrightarrow> m h = c_need w h" and phase: "c_phase w \<noteq> Resuming"
  shows "credit_inv k (w\<lparr>c_sched := s, c_phase := Idle, c_need := m\<rparr>)"
proof -
  obtain qs ws bs where ri: "ready_inv (ready (c_sched w)) qs ws bs"
    using inv by (auto simp: credit_inv_def ready_ok_def)
  obtain st where st: "states (ready (c_sched w)) t = Some st" using t by (auto simp: polled_def)
  note p = park_sched [OF ri k st exec]
  have hd: "head_of k s = head_of k (c_sched w)" using p(4) head by simp
  have "credit_flag k (signals s) \<or> 0 < c_releasing w \<or> (\<exists>n. m h = Some n \<and> c_avail w < n)"
    if "head_waits k s h" for h
  proof (cases "h = t")
    case True
    then show ?thesis using that need by (simp add: head_waits_def hd p(2))
  next
    case False
    then have "head_waits k (c_sched w) h" using that by (simp add: head_waits_def hd p(3))
    then show ?thesis using inv phase same [OF False] by (auto simp: credit_inv_def p(2))
  qed
  then show ?thesis using p(1) by (auto simp: credit_inv_def phase_ok_def)
qed

lemma credit_inv_step:
  assumes step: "credit_step k w w'" and inv: "credit_inv k w" and k: "k \<noteq> Kernel"
  shows "credit_inv k w'"
proof -
  obtain qs ws bs where ri: "ready_inv (ready (c_sched w)) qs ws bs"
    using inv by (auto simp: credit_inv_def ready_ok_def)
  have ok: "ready_ok (ready (c_sched w))" using inv by (simp add: credit_inv_def)
  from step show ?thesis
  proof cases
    case (ask_first t s n)
    then have t: "states (ready (c_sched w)) t \<noteq> None" by (auto simp: polled_def)
    note r = request_turn_sched [OF ri k t ask_first(4)]
    have "head_waits k s h \<Longrightarrow> False" for h
      using r(3,4) ask_first(3) by (auto simp: head_waits_def polled_def)
    then show ?thesis using r ask_first(3) unfolding ask_first(1)
      by (auto simp: credit_inv_def phase_ok_def polled_def)
  next
    case (ask_behind t s)
    then have t: "states (ready (c_sched w)) t \<noteq> None" by (auto simp: polled_def)
    note r = request_turn_sched [OF ri k t ask_behind(4)]
    have "head_of k (c_sched w) \<noteq> None"
    proof
      assume "head_of k (c_sched w) = None"
      then have "waiters k ws bs = []" using head_of_inv [OF ri k] by (cases "waiters k ws bs") auto
      with ask_behind(4) request_turn_inv [OF ri t k refl] show False by (auto simp: request_turn_def)
    qed
    then have "head_waits k s h \<Longrightarrow> head_waits k (c_sched w) h" for h
      using r(3,6) by (simp add: head_waits_def)
    then show ?thesis using r ask_behind(2,3) inv unfolding ask_behind(1)
      by (auto simp: credit_inv_def phase_ok_def polled_def)
  next
    case (park_behind t s)
    then have t: "polled (c_sched w) t" "head_of k (c_sched w) \<noteq> None" "head_of k (c_sched w) \<noteq> Some t"
      using inv by (simp_all add: credit_inv_def phase_ok_def)
    from credit_inv_park [OF inv k t(1,2) park_behind(3), of "c_need w"] t(3) park_behind(1,2)
    show ?thesis by simp
  next
    case (acquire t n)
    then show ?thesis using inv by (force simp: credit_inv_def phase_ok_def head_waits_def polled_def)
  next
    case (give_up t n)
    then show ?thesis using inv by (auto simp: credit_inv_def phase_ok_def)
  next
    case (refuse t n)
    then show ?thesis using inv by (auto simp: credit_inv_def phase_ok_def)
  next
    case (park_refused t n s)
    then have t: "polled (c_sched w) t" "head_of k (c_sched w) = Some t"
      "credit_flag k (signals (c_sched w)) \<or> 0 < c_releasing w \<or> c_avail w < n"
      using inv by (simp_all add: credit_inv_def phase_ok_def)
    from credit_inv_park [OF inv k t(1) _ park_refused(3), of "(c_need w)(t \<mapsto> n)"] t(2,3) park_refused(1,2)
    show ?thesis by simp
  next
    case (finish t wr s b)
    then have "unrelated k (SFinish t k)" "sched_enabled (SFinish t k) (c_sched w)"
      "sched_exec wr (SFinish t k) (c_sched w) = Some s"
      using k by (simp_all add: unrelated_def sched_enabled_def)
    with unrelated_keeps_head [OF ok k, of "SFinish t k" wr s] sched_exec_ok [OF ok, of "SFinish t k" wr]
    show ?thesis using inv unfolding finish(1)
      by (auto simp: credit_inv_def keeps_head_def phase_ok_def finish(2))
  next
    case (take_signal g)
    then show ?thesis using inv
      by (simp add: credit_inv_def phase_ok_def)
  next
    case (resume s)
    obtain r' qs' b where r': "resume_head (ready (c_sched w)) k = Some (r', b)" "ready_inv r' qs' ws bs"
      "\<forall>t. front_of (waiters k ws bs) None = Some t \<longrightarrow> runnable (states r' t)"
      by (rule resume_head_inv [OF ri k])
    then have s: "s = (c_sched w)\<lparr>ready := r'\<rparr>" using resume(3) by (simp add: resume_credit_def)
    have "head_of k s = front_of (waiters k ws bs) None" using head_of_inv [of s qs' ws bs k] r'(2) k by (simp add: s)
    then have "\<not> head_waits k s h" for h
      using r'(3) not_runnable_waiting [of r' h k] by (auto simp: head_waits_def s)
    moreover have "ready_ok (ready s)" using r'(2) by (auto simp: ready_ok_def s)
    ultimately show ?thesis unfolding resume(1) by (simp add: credit_inv_def phase_ok_def)
  next
    case (worker p wr s)
    from unrelated_keeps_head [OF ok k worker(3,4,5)] sched_exec_ok [OF ok worker(4), of wr] worker(5)
    show ?thesis using credit_inv_keep [OF inv] worker(1,2) by auto
  next
    case (give_back n)
    then show ?thesis using inv by (auto simp: credit_inv_def phase_ok_def split: credit_phase.splits)
  next
    case (publish_credit wr)
    then show ?thesis using inv publish_flag [OF k]
      by (auto simp: credit_inv_def phase_ok_def polled_def head_of_def head_waits_def split: credit_phase.splits)
  next
    case (wake_any wr t s b)
    have exec: "sched_exec wr (SWake t) (c_sched w) = Some s" using wake_any(2) by simp
    have kh: "keeps_head k (c_sched w) s"
      by (rule unrelated_keeps_head [OF ok k _ _ exec]) (simp_all add: unrelated_def sched_enabled_def)
    have "ready_ok (ready s)" using sched_exec_ok [OF ok, of "SWake t" wr] exec by (auto simp: sched_enabled_def)
    then show ?thesis
      using inv kh enqueue_polled [OF ri wake_any(2)] wake_head [OF ri k wake_any(2)] unfolding wake_any(1)
      by (auto simp: credit_inv_def keeps_head_def phase_ok_def split: credit_phase.splits)
  qed
qed

lemma credit_reachable_inv:
  assumes "credit_reachable k w" "k \<noteq> Kernel"
  shows "credit_inv k w"
  using assms(1)
proof induction
  case (credit_start cap units)
  have "head_of k (Scheduler_new cap Signals_new) = None"
    by (cases k) (simp_all add: head_of_def requests_def Scheduler_new_def Order_default_def)
  then show ?case using ready_ok_new [of cap Signals_new]
    by (simp add: credit_inv_def phase_ok_def head_waits_def)
next
  case (credit_next w w')
  then show ?case using credit_inv_step assms(2) by blast
qed

section \<open>Properties\<close>

text \<open>
  C11: No credit is lost.  Whenever the worker is between operations, no thread is between giving
  back and publishing, and the credit signal is down, a task that waits at the head of the line
  really cannot proceed: it was refused a request for more units than are available now.  This
  holds for queue slots and for bytes, for any interleaving with the threads that give back, and
  for any wakes, parks, retirements and admissions in between.
\<close>

theorem no_lost_credit:
  assumes "credit_reachable k w" "k \<noteq> Kernel"
    and "c_phase w = Idle" "c_releasing w = 0" "\<not> credit_flag k (signals (c_sched w))"
    and "head_of k (c_sched w) = Some h" "states (ready (c_sched w)) h = Some (Waiting k)"
  shows "\<exists>n. c_need w h = Some n \<and> c_avail w < n"
  using credit_reachable_inv [OF assms(1,2)] assms(3-7) by (auto simp: credit_inv_def head_waits_def)


text \<open>One task of two inserted in a scheduler of two asks for more bytes than there are.\<close>

definition demo_wait :: credit where
  "demo_wait =
     \<lparr>c_sched = \<lparr>ready = \<lparr>states = [4 \<mapsto> Waiting Bytes], queue = order_of [],
                          queue_waiters = order_of [], byte_waiters = order_of [4], ready_capacity = 2\<rparr>,
                signals = Signals_new\<rparr>,
      c_avail = 3, c_releasing = 0, c_phase = Idle, c_need = [4 \<mapsto> 5]\<rparr>"

lemma demo_wait_reachable: "credit_reachable Bytes demo_wait"
proof -
  let ?w0 = "\<lparr>c_sched = Scheduler_new 2 Signals_new, c_avail = 3, c_releasing = 0, c_phase = Idle, c_need = Map.empty\<rparr>"
  let ?s1 = "the (sched_insert (c_sched ?w0) 4)"
  let ?s2 = "fst (the (sched_take ?s1))"
  let ?s3 = "fst (the (request_turn ?s2 4 Bytes))"
  let ?s4 = "the (park ?s3 4 Bytes)"
  note ev = Scheduler_new_def sched_insert_def sched_take_def request_turn_def request_turn_ready_def
    park_def park_ready_def requests_def put_requests_def Let_def order_of_Nil [symmetric]
    push_back_order_of pop_front_order_of order_remove_order_of
  have s1: "sched_exec (Inr ()) (SInsert 4) (c_sched ?w0) = Some ?s1" by (simp add: ev)
  have s2: "sched_exec (Inr ()) STake ?s1 = Some ?s2" by (simp add: ev)
  have s3: "request_turn ?s2 4 Bytes = Some (?s3, True)" by (simp add: ev)
  have s4: "park ?s3 4 Bytes = Some ?s4" by (simp add: ev)
  have p2: "polled ?s2 4" by (simp add: ev polled_def)
  have w1: "credit_reachable Bytes (?w0\<lparr>c_sched := ?s1\<rparr>)"
    by (rule credit_next [OF credit_start worker [OF _ _ _ s1]])
       (simp_all add: unrelated_def sched_enabled_def Scheduler_new_def)
  have w2: "credit_reachable Bytes (?w0\<lparr>c_sched := ?s2\<rparr>)"
    using credit_next [OF w1 worker [of "?w0\<lparr>c_sched := ?s1\<rparr>" Bytes STake "Inr ()" ?s2]] s2
    by (simp add: unrelated_def sched_enabled_def)
  have w3: "credit_reachable Bytes (?w0\<lparr>c_sched := ?s3, c_phase := AtHead 4 5\<rparr>)"
    using credit_next [OF w2 ask_first [of "?w0\<lparr>c_sched := ?s2\<rparr>" 4 Bytes ?s3 5]] p2 s3 by simp
  have w4: "credit_reachable Bytes (?w0\<lparr>c_sched := ?s3, c_phase := Refused 4 5\<rparr>)"
    using credit_next [OF w3 refuse [of "?w0\<lparr>c_sched := ?s3, c_phase := AtHead 4 5\<rparr>" 4 5]] by simp
  have w5: "credit_reachable Bytes (?w0\<lparr>c_sched := ?s4, c_phase := Idle, c_need := [4 \<mapsto> 5]\<rparr>)"
    using credit_next [OF w4 park_refused [of "?w0\<lparr>c_sched := ?s3, c_phase := Refused 4 5\<rparr>" 4 5 Bytes ?s4]] s4 by simp
  moreover have "?s4 = c_sched demo_wait" by (simp add: ev demo_wait_def)
  ultimately show ?thesis by (simp add: demo_wait_def)
qed

theorem no_lost_credit_witness:
  "credit_reachable Bytes demo_wait \<and> head_of Bytes (c_sched demo_wait) = Some 4 \<and>
   (\<exists>n. c_need demo_wait 4 = Some n \<and> c_avail demo_wait < n)"
proof -
  have h: "head_of Bytes (c_sched demo_wait) = Some 4" by (simp add: demo_wait_def head_of_def requests_def)
  show ?thesis
    using no_lost_credit [OF demo_wait_reachable _ _ _ _ h] demo_wait_reachable h
    by (simp add: demo_wait_def credit_flag_def Signals_new_def)
qed


end
