(* ===== verification/Task_Context.thy ===== *)
theory Task_Context
  imports Credit_Turns
begin

text \<open>
  The operations one connection task awaits (\<open>TaskContext\<close> in
  \<open>crates/phonowire-receiver/src/scheduler.rs\<close>): its step quota, its byte counters, and the two
  resource operations \<open>copy\<close> and \<open>send\<close>.  An asynchronous operation is its poll function: one call
  returns \<open>Pending\<close> with the state the future keeps, or the result.  A poll acts on the worker's
  scheduler, byte budget and channel, which it shares with every other task.

  Wakers are the worker's own signals: the channel's credit waker, the budget subscription and
  the disconnect waker are numbered by the signal they raise.  Dropping a record drops the
  storage it owns, which gives its bytes back and raises the byte signal.
\<close>

section \<open>State\<close>

record Progress =
  p_read :: nat
  p_consumed :: nat
  wire_queued :: nat
  records_queued :: nat
  pending_record :: bool
  terminal_queued :: bool
  counter_overflow :: bool

definition Progress_default :: Progress where
  "Progress_default =
     \<lparr>p_read = 0, p_consumed = 0, wire_queued = 0, records_queued = 0, pending_record = False,
      terminal_queued = False, counter_overflow = False\<rparr>"

datatype CounterOverflow = CounterOverflow

datatype TaskSendFailure = TsDisconnected | TsCounterOverflow

record TaskContext =
  tc_id :: ConnectionId
  tc_peer :: SocketAddr
  tc_token :: Token
  tc_retention :: nat
  tc_remaining :: nat
  tc_progress :: Progress

record worker =
  w_sched :: Scheduler
  w_mem :: memory
  w_hand :: handoff

datatype 'a poll = Pending | ReadyWith 'a

definition TaskContext_new :: "ConnectionId \<Rightarrow> SocketAddr \<Rightarrow> Token \<Rightarrow> nat \<Rightarrow> TaskContext" where
  "TaskContext_new i peer t tracker =
     \<lparr>tc_id = i, tc_peer = peer, tc_token = t, tc_retention = tracker, tc_remaining = 0,
      tc_progress = Progress_default\<rparr>"

section \<open>Counters\<close>

definition add_observation :: "nat \<Rightarrow> nat \<Rightarrow> CounterOverflow + nat" where
  "add_observation current n =
     (case try_from U64_MAX n of
        None \<Rightarrow> Inl CounterOverflow
      | Some n \<Rightarrow> (case checked_add U64_MAX current n of None \<Rightarrow> Inl CounterOverflow | Some m \<Rightarrow> Inr m))"

definition tc_offset :: "TaskContext \<Rightarrow> nat" where
  "tc_offset c = p_consumed (tc_progress c)"

definition reset_turn :: "TaskContext \<Rightarrow> nat \<Rightarrow> TaskContext" where
  "reset_turn c steps = c\<lparr>tc_remaining := steps\<rparr>"

definition observe_read :: "Progress \<Rightarrow> nat \<Rightarrow> Progress \<times> (CounterOverflow + nat)" where
  "observe_read p n =
     (case add_observation (p_read p) n of
        Inr next \<Rightarrow> (p\<lparr>p_read := next\<rparr>, Inr (p_read p))
      | Inl e \<Rightarrow> (p\<lparr>counter_overflow := True\<rparr>, Inl e))"

definition consume :: "Progress \<Rightarrow> nat \<Rightarrow> (Progress \<times> (CounterOverflow + nat)) run" where
  "consume p n =
     (case add_observation (p_consumed p) n of
        Inr next \<Rightarrow> if next \<le> p_read p then Some (p\<lparr>p_consumed := next\<rparr>, Inr next) else panic
      | Inl e \<Rightarrow> Some (p\<lparr>counter_overflow := True\<rparr>, Inl e))"

section \<open>Steps and requests\<close>

text \<open>A task out of steps schedules its own continuation.\<close>

definition permit :: "io_error + unit \<Rightarrow> worker \<Rightarrow> TaskContext \<Rightarrow> (worker \<times> TaskContext \<times> bool) run" where
  "permit wr w c =
     (if tc_remaining c = 0
      then do {
        (s, b) \<leftarrow> task_wake wr (w_sched w) (tc_token c);
        Some (w\<lparr>w_sched := s\<rparr>, c, False)
      }
      else Some (w, c\<lparr>tc_remaining := tc_remaining c - 1\<rparr>, True))"

definition step_poll :: "io_error + unit \<Rightarrow> worker \<Rightarrow> TaskContext \<Rightarrow> (worker \<times> TaskContext \<times> unit poll) run" where
  "step_poll wr w c =
     do { (w', c', ok) \<leftarrow> permit wr w c; Some (w', c', if ok then ReadyWith () else Pending) }"

definition park_task :: "worker \<Rightarrow> TaskContext \<Rightarrow> WaitReason \<Rightarrow> worker run" where
  "park_task w c k = do { s \<leftarrow> park (w_sched w) (tc_token c) k; Some (w\<lparr>w_sched := s\<rparr>) }"

definition is_head :: "worker \<Rightarrow> TaskContext \<Rightarrow> WaitReason \<Rightarrow> (worker \<times> bool) run" where
  "is_head w c k =
     do { (s, h) \<leftarrow> request_turn (w_sched w) (tc_token c) k; Some (w\<lparr>w_sched := s\<rparr>, h) }"

definition drop_request ::
  "io_error + unit \<Rightarrow> worker \<Rightarrow> TaskContext \<Rightarrow> WaitReason \<Rightarrow> bool \<Rightarrow> worker run" where
  "drop_request wr w c k registered =
     (if registered
      then do { (s, b) \<leftarrow> finish_request wr (w_sched w) (tc_token c) k; Some (w\<lparr>w_sched := s\<rparr>) }
      else Some w)"

section \<open>Copying into the budget\<close>

definition copy_poll ::
  "io_error + unit \<Rightarrow> worker \<Rightarrow> TaskContext \<Rightarrow> bytes \<Rightarrow> bool
     \<Rightarrow> (worker \<times> TaskContext \<times> bool \<times> (BudgetError + OwnedBytes) poll) run" where
  "copy_poll wr w c bs registered =
     do {
       (w, c, ok) \<leftarrow> permit wr w c;
       if \<not> ok then Some (w, c, registered, Pending)
       else if length bs > capacity (budget (w_mem w)) then do {
         w \<leftarrow> drop_request wr w c Bytes registered;
         Some (w, c, False, ReadyWith (Inl (TooLarge (length bs) (capacity (budget (w_mem w))))))
       }
       else do {
         (w, head) \<leftarrow> is_head w c Bytes;
         if \<not> head then do { w \<leftarrow> park_task w c Bytes; Some (w, c, True, Pending) }
         else do {
           (m, r) \<leftarrow> try_copy_for (w_mem w) (tc_id c) (tc_retention c) bs;
           let w = w\<lparr>w_mem := m\<rparr>;
           (case r of
              Inl (Full n a) \<Rightarrow> do { w \<leftarrow> park_task w c Bytes; Some (w, c, True, Pending) }
            | Inl (TooLarge n a) \<Rightarrow> do {
                w \<leftarrow> drop_request wr w c Bytes True;
                Some (w, c, False, ReadyWith (Inl (TooLarge n a)))
              }
            | Inr owned \<Rightarrow> do {
                w \<leftarrow> drop_request wr w c Bytes True;
                Some (w, c, False, ReadyWith (Inr owned))
              })
         }
       }
     }"

section \<open>Handing a record off\<close>

definition signal_waker :: "Signal \<Rightarrow> waker" where
  "signal_waker k = (case k of SigQueue \<Rightarrow> 0 | SigBytes \<Rightarrow> 1 | SigStop \<Rightarrow> 2 | SigDisconnected \<Rightarrow> 3 | SigControl \<Rightarrow> 4)"

definition resource_wake :: "io_error + unit \<Rightarrow> Signals \<Rightarrow> waker \<Rightarrow> Signals" where
  "resource_wake wr g k =
     (if k = signal_waker SigQueue then fst (publish wr g SigQueue)
      else if k = signal_waker SigBytes then fst (publish wr g SigBytes)
      else if k = signal_waker SigStop then fst (publish wr g SigStop)
      else if k = signal_waker SigControl then fst (publish wr g SigControl)
      else if k = signal_waker SigDisconnected then fst (publish wr g SigDisconnected)
      else g)"

fun drop_charges :: "io_error + unit \<Rightarrow> worker \<Rightarrow> Charge list \<Rightarrow> worker run" where
  "drop_charges wr w [] = Some w"
| "drop_charges wr w (c # cs) =
     do {
       (m, wake) \<leftarrow> drop_charge (w_mem w) c;
       let w = w\<lparr>w_mem := m\<rparr>;
       let w = (case wake of
                  None \<Rightarrow> w
                | Some k \<Rightarrow> w\<lparr>w_sched := (w_sched w)\<lparr>signals := resource_wake wr (signals (w_sched w)) k\<rparr>\<rparr>);
       drop_charges wr w cs
     }"

definition drop_record :: "io_error + unit \<Rightarrow> worker \<Rightarrow> Record \<Rightarrow> worker run" where
  "drop_record wr w r = drop_charges wr w (kind_charges (rec_kind r))"

definition wire_len :: "RecordKind \<Rightarrow> nat run" where
  "wire_len k = (case k of RWire b \<Rightarrow> try_from U64_MAX (length (as_slice b)) | _ \<Rightarrow> Some 0)"

definition send_start :: "TaskContext \<Rightarrow> TaskContext" where
  "send_start c = c\<lparr>tc_progress := (tc_progress c)\<lparr>pending_record := True\<rparr>\<rparr>"

definition note_sent :: "Progress \<Rightarrow> bool \<Rightarrow> nat \<Rightarrow> nat \<Rightarrow> Progress run" where
  "note_sent p terminal wire next =
     do {
       wq \<leftarrow> checked_add U64_MAX (wire_queued p) wire;
       Some (p\<lparr>pending_record := False, terminal_queued := (terminal_queued p \<or> terminal),
               wire_queued := wq, records_queued := next\<rparr>)
     }"

text \<open>
  The future keeps whether its request is registered and the record not yet handed off; when the
  operation completes, both are dropped.
\<close>

definition send_poll ::
  "io_error + unit \<Rightarrow> worker \<Rightarrow> TaskContext \<Rightarrow> bool \<Rightarrow> Record option
     \<Rightarrow> (worker \<times> TaskContext \<times> bool \<times> Record option \<times> (TaskSendFailure + unit) poll) run" where
  "send_poll wr w c registered pend =
     do {
       (w, c, ok) \<leftarrow> permit wr w c;
       if \<not> ok then Some (w, c, registered, pend, Pending)
       else (case checked_add U64_MAX (records_queued (tc_progress c)) 1 of
         None \<Rightarrow> do {
           let c = c\<lparr>tc_progress := (tc_progress c)\<lparr>counter_overflow := True\<rparr>\<rparr>;
           w \<leftarrow> (case pend of None \<Rightarrow> Some w | Some r \<Rightarrow> drop_record wr w r);
           w \<leftarrow> drop_request wr w c Queue registered;
           Some (w, c, False, None, ReadyWith (Inl TsCounterOverflow))
         }
       | Some next \<Rightarrow> do {
           (w, head) \<leftarrow> is_head w c Queue;
           if \<not> head then do { w \<leftarrow> park_task w c Queue; Some (w, c, True, pend, Pending) }
           else do {
             record \<leftarrow> pend;
             wire \<leftarrow> wire_len (rec_kind record);
             (case try_send (w_hand w) record of
                (h, Inr _) \<Rightarrow> do {
                  p \<leftarrow> note_sent (tc_progress c) (is_ended (rec_kind record)) wire next;
                  let c = c\<lparr>tc_progress := p\<rparr>;
                  w \<leftarrow> drop_request wr (w\<lparr>w_hand := h\<rparr>) c Queue True;
                  Some (w, c, False, None, ReadyWith (Inr ()))
                }
              | (h, Inl (SendFull back)) \<Rightarrow> do {
                  w \<leftarrow> park_task (w\<lparr>w_hand := h\<rparr>) c Queue;
                  Some (w, c, True, Some back, Pending)
                }
              | (h, Inl (SendDisconnected back)) \<Rightarrow> do {
                  w \<leftarrow> drop_record wr (w\<lparr>w_hand := h\<rparr>) back;
                  w \<leftarrow> drop_request wr w c Queue True;
                  Some (w, c, False, None, ReadyWith (Inl TsDisconnected))
                })
           }
         })
     }"

section \<open>What the polls rely on\<close>

lemma task_wake_live:
  assumes "ready_ok (ready s)" "polled s t"
  obtains s' b where "task_wake wr s t = Some (s', b)" "ready_ok (ready s')" "runnable (states (ready s') t)"
proof -
  obtain qs ws bs where inv: "ready_inv (ready s) qs ws bs" using assms(1) by (auto simp: ready_ok_def)
  let ?p = "wake_if wr (s\<lparr>ready := enqueued (ready s) qs t\<rparr>) (needs_turn (ready s) t)"
  have "task_wake wr s t = Some (fst ?p, snd ?p)" using enqueue_inv [OF inv, of t] by (simp add: task_wake_def)
  moreover have "ready_ok (ready (fst ?p))" using enqueue_inv [OF inv, of t] by (auto simp: ready_ok_def)
  moreover have "runnable (states (ready (fst ?p)) t)"
    using runnable_enqueued [of "ready s" t qs] assms(2) by (auto simp: polled_def)
  ultimately show ?thesis by (rule that)
qed

lemma request_turn_live:
  assumes "ready_ok (ready s)" "polled s t" "k \<noteq> Kernel"
  obtains s' h where "request_turn s t k = Some (s', h)" "ready_ok (ready s')" "polled s' t"
proof -
  obtain qs ws bs where inv: "ready_inv (ready s) qs ws bs" using assms(1) by (auto simp: ready_ok_def)
  have live: "states (ready s) t \<noteq> None" using assms(2) by (auto simp: polled_def)
  obtain r h where r: "request_turn_ready (ready s) t k = Some (r, h)" "states r = states (ready s)" "\<exists>a b c. ready_inv r a b c"
    using request_turn_inv [OF inv live assms(3) refl] by blast
  show ?thesis
    by (rule that [of "s\<lparr>ready := r\<rparr>" h]) (use r assms(2) in \<open>auto simp: request_turn_def ready_ok_def polled_def\<close>)
qed

lemma park_live:
  assumes "ready_ok (ready s)" "polled s t"
  obtains s' where "park s t k = Some s'" "ready_ok (ready s')" "states (ready s') t \<noteq> Some Running"
proof -
  obtain qs ws bs where inv: "ready_inv (ready s) qs ws bs" using assms(1) by (auto simp: ready_ok_def)
  obtain st where st: "states (ready s) t = Some st" using assms(2) by (auto simp: polled_def)
  obtain r where "park_ready (ready s) t k = Some r" "\<exists>a b c. ready_inv r a b c"
    "states r = (states (ready s))(t \<mapsto> (if st = Notified then Queued else Waiting k))"
    using park_inv [OF inv st, of k] by blast
  then show ?thesis using that [of "s\<lparr>ready := r\<rparr>"] by (auto simp: park_def ready_ok_def)
qed

lemma finish_request_live:
  assumes "ready_ok (ready s)" "k \<noteq> Kernel"
  obtains s' b where "finish_request wr s t k = Some (s', b)" "ready_ok (ready s')"
proof -
  obtain s' where "sched_exec wr (SFinish t k) s = Some s'" "ready_ok (ready s')"
    using sched_exec_ok [OF assms(1), of "SFinish t k" wr] assms(2) by (auto simp: sched_enabled_def)
  then show ?thesis using that by auto
qed

lemma drop_request_live:
  assumes "ready_ok (ready (w_sched w))" "k \<noteq> Kernel"
  obtains w' where "drop_request wr w c k reg = Some w'" "ready_ok (ready (w_sched w'))"
    "w_mem w' = w_mem w" "w_hand w' = w_hand w"
proof (cases reg)
  case True
  obtain s' b where "finish_request wr (w_sched w) (tc_token c) k = Some (s', b)" "ready_ok (ready s')"
    by (rule finish_request_live [OF assms])
  then show ?thesis using that [of "w\<lparr>w_sched := s'\<rparr>"] True by (simp add: drop_request_def)
qed (use assms that in \<open>simp add: drop_request_def\<close>)

lemma drop_charges_ready:
  "drop_charges wr w cs = Some w' \<Longrightarrow> ready (w_sched w') = ready (w_sched w) \<and> w_hand w' = w_hand w"
  by (induction wr w cs rule: drop_charges.induct)
     (auto simp: Let_def split: bind_splits option.splits)

text \<open>A poll that returns \<open>Pending\<close> leaves its task runnable or waiting, as \<open>verify_pending\<close> demands.\<close>

definition settled :: "worker \<Rightarrow> TaskContext \<Rightarrow> bool" where
  "settled w c \<longleftrightarrow> verify_pending (w_sched w) (tc_token c) = Some ()"

lemma settledI: "states (ready (w_sched w)) (tc_token c) \<noteq> Some Running \<Longrightarrow> settled w c"
  by (simp add: settled_def verify_pending_def)

lemma permit_live:
  assumes "ready_ok (ready (w_sched w))" "polled (w_sched w) (tc_token c)"
  obtains (out) w' where "permit wr w c = Some (w', c, False)" "tc_remaining c = 0" "ready_ok (ready (w_sched w'))"
      "settled w' c" "w_mem w' = w_mem w" "w_hand w' = w_hand w"
    | (go) "permit wr w c = Some (w, c\<lparr>tc_remaining := tc_remaining c - 1\<rparr>, True)" "0 < tc_remaining c"
proof (cases "tc_remaining c = 0")
  case True
  obtain s b where s: "task_wake wr (w_sched w) (tc_token c) = Some (s, b)" "ready_ok (ready s)"
    "runnable (states (ready s) (tc_token c))"
    by (rule task_wake_live [OF assms])
  have "settled (w\<lparr>w_sched := s\<rparr>) c" using s(3) by (intro settledI) (auto simp: runnable_def)
  then show ?thesis using out [of "w\<lparr>w_sched := s\<rparr>"] s True by (simp add: permit_def)
qed (use go in \<open>simp add: permit_def\<close>)

lemma park_task_live:
  assumes "ready_ok (ready (w_sched w))" "polled (w_sched w) (tc_token c)"
  obtains w' where "park_task w c k = Some w'" "ready_ok (ready (w_sched w'))" "settled w' c"
    "w_mem w' = w_mem w" "w_hand w' = w_hand w"
proof -
  obtain s where s: "park (w_sched w) (tc_token c) k = Some s" "ready_ok (ready s)"
    "states (ready s) (tc_token c) \<noteq> Some Running"
    by (rule park_live [OF assms])
  show ?thesis using that [of "w\<lparr>w_sched := s\<rparr>"] s by (simp add: park_task_def settledI)
qed

lemma is_head_live:
  assumes "ready_ok (ready (w_sched w))" "polled (w_sched w) (tc_token c)" "k \<noteq> Kernel"
  obtains w' h where "is_head w c k = Some (w', h)" "ready_ok (ready (w_sched w'))"
    "polled (w_sched w') (tc_token c)" "w_mem w' = w_mem w" "w_hand w' = w_hand w"
proof -
  obtain s h where s: "request_turn (w_sched w) (tc_token c) k = Some (s, h)" "ready_ok (ready s)" "polled s (tc_token c)"
    by (rule request_turn_live [OF assms])
  show ?thesis using that [of "w\<lparr>w_sched := s\<rparr>" h] s by (simp add: is_head_def)
qed

section \<open>Outcomes of one poll\<close>

definition copy_outcome :: "worker \<Rightarrow> TaskContext \<Rightarrow> bytes \<Rightarrow> worker \<Rightarrow> (BudgetError + OwnedBytes) poll \<Rightarrow> bool" where
  "copy_outcome w c bs w' p =
     (case p of
        Pending \<Rightarrow> settled w' c \<and> w_mem w' = w_mem w
      | ReadyWith (Inl e) \<Rightarrow>
          e = TooLarge (length bs) (capacity (budget (w_mem w))) \<and> capacity (budget (w_mem w)) < length bs \<and>
          w_mem w' = w_mem w
      | ReadyWith (Inr o') \<Rightarrow>
          as_slice o' = bs \<and> charged_capacity o' = length bs \<and> retention (charge o') = Some (tc_retention c, tc_id c) \<and>
          budget_used (budget (w_mem w')) = budget_used (budget (w_mem w)) + length bs)"

lemma copy_poll_first:
  assumes ok: "ready_ok (ready (w_sched w))" "polled (w_sched w) (tc_token c)" "memory_ok (w_mem w)"
    and go: "permit wr w c = Some (w, c1, True)" and c1: "tc_token c1 = tc_token c" "tc_id c1 = tc_id c" "tc_retention c1 = tc_retention c"
    and fits: "length bs \<le> capacity (budget (w_mem w))"
  shows "\<exists>w' reg' p. copy_poll wr w c bs reg = Some (w', c1, reg', p) \<and>
    ready_ok (ready (w_sched w')) \<and> memory_ok (w_mem w') \<and> w_hand w' = w_hand w \<and> copy_outcome w c bs w' p"
proof -
  have settled: "settled v c1 = settled v c" for v using c1 by (simp add: settled_def)
  obtain w1 h where w1: "is_head w c1 Bytes = Some (w1, h)" "ready_ok (ready (w_sched w1))"
    "polled (w_sched w1) (tc_token c1)" "w_mem w1 = w_mem w" "w_hand w1 = w_hand w"
    by (rule is_head_live [of w c1 Bytes]) (use ok c1 in auto)
  show ?thesis
  proof (cases h)
    case False
    obtain w2 where w2: "park_task w1 c1 Bytes = Some w2" "ready_ok (ready (w_sched w2))" "settled w2 c1"
      "w_mem w2 = w_mem w1" "w_hand w2 = w_hand w1"
      by (rule park_task_live [OF w1(2,3)])
    show ?thesis using go fits w1 w2 False ok(3) settled
      by (auto simp: copy_poll_def copy_outcome_def)
  next
    case True
    obtain m r where m: "try_copy_for (w_mem w) (tc_id c1) (tc_retention c1) bs = Some (m, r)" "memory_ok m"
      and r: "case r of Inl (TooLarge n cap) \<Rightarrow> m = w_mem w \<and> n = length bs \<and> cap = capacity (budget (w_mem w)) \<and> cap < n
        | Inl (Full n avail) \<Rightarrow> m = w_mem w
        | Inr o' \<Rightarrow> as_slice o' = bs \<and> charged_capacity o' = length bs \<and> retention (charge o') = Some (tc_retention c, tc_id c) \<and>
            budget_used (budget m) = budget_used (budget (w_mem w)) + length bs"
      using try_copy_spec [OF ok(3), of bs "Some (tc_retention c1, tc_id c1)"] c1
      unfolding try_copy_for_def by (fastforce split: sum.splits BudgetError.splits)
    let ?w = "w1\<lparr>w_mem := m\<rparr>"
    have ok': "ready_ok (ready (w_sched ?w))" "polled (w_sched ?w) (tc_token c1)" using w1 by simp_all
    obtain w2 where w2: "park_task ?w c1 Bytes = Some w2" "ready_ok (ready (w_sched w2))" "settled w2 c1"
      "w_mem w2 = m" "w_hand w2 = w_hand w"
      by (rule park_task_live [OF ok']) (use w1 in auto)
    obtain w3 where w3: "drop_request wr ?w c1 Bytes True = Some w3" "ready_ok (ready (w_sched w3))"
      "w_mem w3 = m" "w_hand w3 = w_hand w"
      by (rule drop_request_live [OF ok'(1), of Bytes]) (use w1 in auto)
    have eval: "copy_poll wr w c bs reg =
        (case r of
           Inl (Full n a) \<Rightarrow> Some (w2, c1, True, Pending)
         | Inl (TooLarge n a) \<Rightarrow> Some (w3, c1, False, ReadyWith (Inl (TooLarge n a)))
         | Inr owned \<Rightarrow> Some (w3, c1, False, ReadyWith (Inr owned)))"
      using go fits w1 True m w2(1) w3(1)
      by (simp add: copy_poll_def split: sum.split BudgetError.split)
    show ?thesis
    proof (cases r)
      case (Inl e)
      then show ?thesis using eval r m(2) w2 w3 fits settled
        by (cases e) (auto simp: copy_outcome_def)
    next
      case (Inr o')
      then show ?thesis using eval r m(2) w3 by (auto simp: copy_outcome_def)
    qed
  qed
qed

lemma copy_poll_outcome:
  assumes ok: "ready_ok (ready (w_sched w))" "polled (w_sched w) (tc_token c)" "memory_ok (w_mem w)"
  shows "\<exists>w' c' reg' p. copy_poll wr w c bs reg = Some (w', c', reg', p) \<and>
    ready_ok (ready (w_sched w')) \<and> memory_ok (w_mem w') \<and> w_hand w' = w_hand w \<and> copy_outcome w c bs w' p"
proof (rule permit_live [OF ok(1,2), of wr])
  fix w' assume "permit wr w c = Some (w', c, False)" "ready_ok (ready (w_sched w'))" "settled w' c"
    "w_mem w' = w_mem w" "w_hand w' = w_hand w"
  then show ?thesis using ok(3) by (simp add: copy_poll_def copy_outcome_def)
next
  let ?c = "c\<lparr>tc_remaining := tc_remaining c - 1\<rparr>"
  assume go: "permit wr w c = Some (w, ?c, True)"
  show ?thesis
  proof (cases "length bs \<le> capacity (budget (w_mem w))")
    case True
    from copy_poll_first [OF ok go _ _ _ True, of reg] show ?thesis by auto
  next
    case False
    obtain w3 where "drop_request wr w ?c Bytes reg = Some w3" "ready_ok (ready (w_sched w3))"
      "w_mem w3 = w_mem w" "w_hand w3 = w_hand w"
      by (rule drop_request_live [OF ok(1), of Bytes]) auto
    then show ?thesis using go False ok(3) by (auto simp: copy_poll_def copy_outcome_def)
  qed
qed

definition send_outcome ::
  "worker \<Rightarrow> TaskContext \<Rightarrow> Record \<Rightarrow> worker \<Rightarrow> TaskContext \<Rightarrow> Record option \<Rightarrow> (TaskSendFailure + unit) poll \<Rightarrow> bool" where
  "send_outcome w c x w' c' pend p =
     (case p of
        Pending \<Rightarrow> settled w' c \<and> pend = Some x \<and> w_hand w' = w_hand w \<and> w_mem w' = w_mem w \<and> tc_progress c' = tc_progress c
      | ReadyWith (Inr _) \<Rightarrow>
          w_hand w' = (w_hand w)\<lparr>chan_queue := chan_queue (w_hand w) @ [x]\<rparr> \<and> w_mem w' = w_mem w \<and>
          records_queued (tc_progress c') = records_queued (tc_progress c) + 1 \<and>
          (\<exists>n. wire_len (rec_kind x) = Some n \<and> wire_queued (tc_progress c') = wire_queued (tc_progress c) + n) \<and>
          \<not> pending_record (tc_progress c') \<and>
          terminal_queued (tc_progress c') = (terminal_queued (tc_progress c) \<or> is_ended (rec_kind x))
      | ReadyWith (Inl TsDisconnected) \<Rightarrow>
          \<not> chan_receiver (w_hand w) \<and> w_hand w' = w_hand w \<and> tc_progress c' = tc_progress c
      | ReadyWith (Inl TsCounterOverflow) \<Rightarrow>
          records_queued (tc_progress c) = U64_MAX \<and> w_hand w' = w_hand w \<and>
          tc_progress c' = (tc_progress c)\<lparr>counter_overflow := True\<rparr>)"

text \<open>The counters admit the record, and its storage is accounted for.\<close>

definition sendable :: "io_error + unit \<Rightarrow> worker \<Rightarrow> TaskContext \<Rightarrow> Record \<Rightarrow> bool" where
  "sendable wr w c x \<longleftrightarrow>
     records_queued (tc_progress c) \<le> U64_MAX \<and>
     (\<exists>n. wire_len (rec_kind x) = Some n \<and> wire_queued (tc_progress c) + n \<le> U64_MAX) \<and>
     (\<forall>v. w_mem v = w_mem w \<longrightarrow> (\<exists>v'. drop_record wr v x = Some v'))"

lemma send_poll_first:
  assumes ok: "ready_ok (ready (w_sched w))" "polled (w_sched w) (tc_token c)" and x: "sendable wr w c x"
    and go: "permit wr w c = Some (w, c1, True)" and c1: "tc_token c1 = tc_token c" "tc_progress c1 = tc_progress c"
    and room: "records_queued (tc_progress c) < U64_MAX"
  shows "\<exists>w' c' reg' pend p. send_poll wr w c reg (Some x) = Some (w', c', reg', pend, p) \<and>
    ready_ok (ready (w_sched w')) \<and> send_outcome w c x w' c' pend p"
proof -
  have settled: "settled v c1 = settled v c" for v using c1 by (simp add: settled_def)
  have add: "checked_add U64_MAX (records_queued (tc_progress c1)) 1 = Some (records_queued (tc_progress c) + 1)"
    using room c1 by (simp add: checked_add_def)
  obtain n where n: "wire_len (rec_kind x) = Some n" "wire_queued (tc_progress c) + n \<le> U64_MAX"
    using x by (auto simp: sendable_def)
  obtain w1 h where w1: "is_head w c1 Queue = Some (w1, h)" "ready_ok (ready (w_sched w1))"
    "polled (w_sched w1) (tc_token c1)" "w_mem w1 = w_mem w" "w_hand w1 = w_hand w"
    by (rule is_head_live [of w c1 Queue]) (use ok c1 in auto)
  have parked: "\<exists>w2. park_task w1 c1 Queue = Some w2 \<and> ready_ok (ready (w_sched w2)) \<and> settled w2 c \<and>
      w_mem w2 = w_mem w \<and> w_hand w2 = w_hand w"
    by (rule park_task_live [OF w1(2,3), of Queue]) (use w1 settled in auto)
  have same: "w1\<lparr>w_hand := w_hand w\<rparr> = w1" using w1(5) by simp
  consider (behind) "\<not> h" | (gone) h "\<not> chan_receiver (w_hand w)"
    | (sent) h "chan_receiver (w_hand w)" "length (chan_queue (w_hand w)) < chan_bound (w_hand w)"
    | (full) h "chan_receiver (w_hand w)" "\<not> length (chan_queue (w_hand w)) < chan_bound (w_hand w)" by blast
  then show ?thesis
  proof cases
    case behind
    then show ?thesis using go add w1 parked c1 by (auto simp: send_poll_def send_outcome_def)
  next
    case full
    then have "try_send (w_hand w1) x = (w_hand w1, Inl (SendFull x))" using w1 by (simp add: try_send_def)
    then show ?thesis using go add w1 parked c1 n full by (auto simp: send_poll_def send_outcome_def same)
  next
    case sent
    let ?h = "(w_hand w)\<lparr>chan_queue := chan_queue (w_hand w) @ [x]\<rparr>"
    have ts: "try_send (w_hand w1) x = (?h, Inr ())" using w1 sent by (simp add: try_send_def)
    have ns: "note_sent (tc_progress c1) (is_ended (rec_kind x)) n (records_queued (tc_progress c) + 1) =
        Some ((tc_progress c)\<lparr>pending_record := False, terminal_queued := (terminal_queued (tc_progress c) \<or> is_ended (rec_kind x)),
               wire_queued := wire_queued (tc_progress c) + n, records_queued := records_queued (tc_progress c) + 1\<rparr>)"
      (is "_ = Some ?p") using n(2) c1 by (simp add: note_sent_def checked_add_def)
    obtain w3 where "drop_request wr (w1\<lparr>w_hand := ?h\<rparr>) (c1\<lparr>tc_progress := ?p\<rparr>) Queue True = Some w3"
      "ready_ok (ready (w_sched w3))" "w_mem w3 = w_mem w" "w_hand w3 = ?h"
      by (rule drop_request_live [of "w1\<lparr>w_hand := ?h\<rparr>" Queue]) (use w1 in auto)
    then show ?thesis using go add w1 n(1) ts ns sent(1)
      by (auto simp: send_poll_def send_outcome_def n(1))
  next
    case gone
    then have ts: "try_send (w_hand w1) x = (w_hand w1, Inl (SendDisconnected x))" using w1 by (simp add: try_send_def)
    obtain w2 where w2: "drop_record wr w1 x = Some w2" using x w1 by (auto simp: sendable_def)
    then have keep: "ready (w_sched w2) = ready (w_sched w1)" "w_hand w2 = w_hand w1"
      using drop_charges_ready by (auto simp: drop_record_def)
    obtain w3 where "drop_request wr w2 c1 Queue True = Some w3" "ready_ok (ready (w_sched w3))" "w_hand w3 = w_hand w2"
      by (rule drop_request_live [of w2 Queue]) (use w1 keep in auto)
    then show ?thesis using go add w1 n(1) ts w2 keep gone c1
      by (auto simp: send_poll_def send_outcome_def same)
  qed
qed

lemma send_poll_outcome:
  assumes ok: "ready_ok (ready (w_sched w))" "polled (w_sched w) (tc_token c)" and x: "sendable wr w c x"
  shows "\<exists>w' c' reg' pend p. send_poll wr w c reg (Some x) = Some (w', c', reg', pend, p) \<and>
    ready_ok (ready (w_sched w')) \<and> send_outcome w c x w' c' pend p"
proof (rule permit_live [OF ok, of wr])
  fix w' assume "permit wr w c = Some (w', c, False)" "ready_ok (ready (w_sched w'))" "settled w' c"
    "w_mem w' = w_mem w" "w_hand w' = w_hand w"
  then show ?thesis by (simp add: send_poll_def send_outcome_def)
next
  let ?c = "c\<lparr>tc_remaining := tc_remaining c - 1\<rparr>"
  assume go: "permit wr w c = Some (w, ?c, True)"
  show ?thesis
  proof (cases "records_queued (tc_progress c) < U64_MAX")
    case True
    from send_poll_first [OF ok x go _ _ True] show ?thesis by simp
  next
    case False
    then have max: "records_queued (tc_progress c) = U64_MAX" using x by (simp add: sendable_def)
    let ?c2 = "?c\<lparr>tc_progress := (tc_progress c)\<lparr>counter_overflow := True\<rparr>\<rparr>"
    obtain w2 where w2: "drop_record wr w x = Some w2" using x by (auto simp: sendable_def)
    then have keep: "ready (w_sched w2) = ready (w_sched w)" "w_hand w2 = w_hand w"
      using drop_charges_ready by (auto simp: drop_record_def)
    obtain w3 where "drop_request wr w2 ?c2 Queue reg = Some w3" "ready_ok (ready (w_sched w3))" "w_hand w3 = w_hand w2"
      by (rule drop_request_live [of w2 Queue]) (use ok keep in auto)
    then show ?thesis using go w2 keep max
      by (auto simp: send_poll_def send_outcome_def checked_add_def)
  qed
qed

section \<open>Properties\<close>


text \<open>
  C33: One poll of a copy never panics and keeps the scheduler's and the account's invariants.
  Pending reserves nothing and leaves the task queued or waiting; the only error is a request
  larger than the whole account; success owns exactly the bytes asked for, charged once to this
  connection.
\<close>

theorem copy_poll_contract:
  assumes "ready_ok (ready (w_sched w))" "polled (w_sched w) (tc_token c)" "memory_ok (w_mem w)"
  shows "\<exists>w' c' reg' p. copy_poll wr w c bs reg = Some (w', c', reg', p) \<and>
    ready_ok (ready (w_sched w')) \<and> memory_ok (w_mem w') \<and> w_hand w' = w_hand w \<and>
    (case p of
       Pending \<Rightarrow> verify_pending (w_sched w') (tc_token c) = Some () \<and> w_mem w' = w_mem w
     | ReadyWith (Inl e) \<Rightarrow> e = TooLarge (length bs) (capacity (budget (w_mem w))) \<and>
         capacity (budget (w_mem w)) < length bs \<and> w_mem w' = w_mem w
     | ReadyWith (Inr o') \<Rightarrow> as_slice o' = bs \<and> charged_capacity o' = length bs \<and>
         retention (charge o') = Some (tc_retention c, tc_id c) \<and>
         budget_used (budget (w_mem w')) = budget_used (budget (w_mem w)) + length bs)"
proof -
  obtain w' c' reg' p where "copy_poll wr w c bs reg = Some (w', c', reg', p)" "ready_ok (ready (w_sched w'))"
    "memory_ok (w_mem w')" "w_hand w' = w_hand w" "copy_outcome w c bs w' p"
    using copy_poll_outcome [OF assms] by blast
  then show ?thesis
    by (intro exI [of _ w'] exI [of _ c'] exI [of _ reg'] exI [of _ p])
       (auto simp: copy_outcome_def settled_def split: poll.splits sum.splits)
qed

text \<open>A worker with one running task, an empty channel of one slot and an account of four bytes.\<close>

definition demo_worker :: worker where
  "demo_worker =
     \<lparr>w_sched = \<lparr>ready = \<lparr>states = [2 \<mapsto> Running], queue = order_of [], queue_waiters = order_of [],
                          byte_waiters = order_of [], ready_capacity = 1\<rparr>, signals = Signals_new\<rparr>,
      w_mem = mem (accounts_init 4), w_hand = channel 1 (signal_waker SigQueue) (signal_waker SigDisconnected)\<rparr>"

definition demo_task :: TaskContext where
  "demo_task = reset_turn (TaskContext_new (ConnectionId 1 2) ''peer'' 2 0) 8"

lemma demo_worker_ok:
  "ready_ok (ready (w_sched demo_worker))" "polled (w_sched demo_worker) (tc_token demo_task)"
  "memory_ok (w_mem demo_worker)"
proof -
  have "ready_inv (ready (w_sched demo_worker)) [] [] []"
    by (simp add: demo_worker_def ready_inv_def ready_core_def runnable_def)
  then show "ready_ok (ready (w_sched demo_worker))" by (auto simp: ready_ok_def)
  show "polled (w_sched demo_worker) (tc_token demo_task)"
    by (simp add: demo_worker_def demo_task_def polled_def reset_turn_def TaskContext_new_def)
  show "memory_ok (w_mem demo_worker)" by (simp add: demo_worker_def memory_ok_init USIZE_MAX_def)
qed


theorem copy_poll_contract_witness:
  "\<exists>w' c' reg' p. copy_poll (Inr ()) demo_worker demo_task [1, 2] False = Some (w', c', reg', p) \<and>
     memory_ok (w_mem w') \<and> ready_ok (ready (w_sched w'))"
  using copy_poll_contract [OF demo_worker_ok, of "Inr ()" "[1, 2]" False] by blast

end
