(* ===== verification/Run_Summary.thy ===== *)
theory Run_Summary
  imports Task_Context
begin

text \<open>
  What a worker counts and how it classifies failures (\<open>RunSummary\<close>, \<open>merge_progress\<close>,
  \<open>allocate_token\<close>, \<open>classify_accept\<close> and the result types of
  \<open>crates/phonowire-receiver/src/driver.rs\<close>).  Counters are naturals with the bound of their type
  written out; every increment is checked.
\<close>

section \<open>Constants and results\<close>

definition LISTENER :: Token where "LISTENER = 0"
definition CONTROL :: Token where "CONTROL = 1"
definition FIRST_CONNECTION :: nat where "FIRST_CONNECTION = 2"
definition TURN_BATCH :: nat where "TURN_BATCH = 128"
definition STOP_RECHECK :: nat where "STOP_RECHECK = 100"

datatype StopCause = StopRequested | ConsumerDisconnected

datatype ReceiverFailure =
    RfIo io_error
  | BudgetTooSmall BudgetError
  | InstanceExhausted
  | TokenExhausted
  | BudgetAlreadySubscribed
  | CounterExhausted

record RunSummary =
  transient_accept_errors :: nat
  resource_pause_entries :: nat
  retry_quota_backoffs :: nat
  accepted :: nat
  refused :: nat
  ended :: nat
  abandoned :: nat
  closed_by_request :: nat
  live_at_stop :: nat
  raw_bytes_read :: nat
  raw_bytes_handed_off :: nat
  undelivered_raw_bytes :: nat
  records_handed_off :: nat
  undelivered_records :: nat
  retained_output_bytes :: nat
  run_buffer_capacity :: nat
  stopped_by :: "StopCause option"
  counters_complete :: bool

definition RunSummary_default :: RunSummary where
  "RunSummary_default =
     \<lparr>transient_accept_errors = 0, resource_pause_entries = 0, retry_quota_backoffs = 0, accepted = 0,
      refused = 0, ended = 0, abandoned = 0, closed_by_request = 0, live_at_stop = 0, raw_bytes_read = 0,
      raw_bytes_handed_off = 0, undelivered_raw_bytes = 0, records_handed_off = 0, undelivered_records = 0,
      retained_output_bytes = 0, run_buffer_capacity = 0, stopped_by = None, counters_complete = True\<rparr>"

record ReceiverError =
  re_failure :: ReceiverFailure
  re_summary :: RunSummary

definition before_run :: "ReceiverFailure \<Rightarrow> ReceiverError" where
  "before_run f = \<lparr>re_failure = f, re_summary = RunSummary_default\<rparr>"

definition bind_io :: "io_error \<Rightarrow> ReceiverError" where
  "bind_io e = before_run (RfIo e)"

section \<open>Counters\<close>

definition bump :: "nat \<Rightarrow> nat \<Rightarrow> ReceiverFailure + nat" where
  "bump bound n = (case checked_add bound n 1 of None \<Rightarrow> Inl CounterExhausted | Some m \<Rightarrow> Inr m)"

definition allocate_token :: "nat \<Rightarrow> nat \<times> (ReceiverFailure + Token)" where
  "allocate_token next_token =
     (case checked_add USIZE_MAX next_token 1 of
        None \<Rightarrow> (next_token, Inl TokenExhausted)
      | Some m \<Rightarrow> (m, Inr next_token))"

text \<open>The local copy that \<open>merge_progress\<close> builds before it overwrites the summary.\<close>

definition merged :: "RunSummary \<Rightarrow> Progress \<Rightarrow> (ReceiverFailure + RunSummary) run" where
  "merged s p =
     (case bump USIZE_MAX (if terminal_queued p then ended s else abandoned s) of
        Inl e \<Rightarrow> Some (Inl e)
      | Inr n \<Rightarrow>
          (let s1 = (if terminal_queued p then s\<lparr>ended := n\<rparr> else s\<lparr>abandoned := n\<rparr>) in
           case checked_add U64_MAX (raw_bytes_read s1) (p_read p) of
             None \<Rightarrow> Some (Inl CounterExhausted)
           | Some rd \<Rightarrow>
               (case checked_add U64_MAX (raw_bytes_handed_off s1) (wire_queued p) of
                  None \<Rightarrow> Some (Inl CounterExhausted)
                | Some ho \<Rightarrow> do {
                    un \<leftarrow> checked_sub rd ho;
                    Some (case checked_add U64_MAX (records_handed_off s1) (records_queued p) of
                        None \<Rightarrow> Inl CounterExhausted
                      | Some rc \<Rightarrow>
                          (case checked_add USIZE_MAX (undelivered_records s1) (if pending_record p then 1 else 0) of
                             None \<Rightarrow> Inl CounterExhausted
                           | Some ur \<Rightarrow>
                               Inr (s1\<lparr>raw_bytes_read := rd, raw_bytes_handed_off := ho, undelivered_raw_bytes := un,
                                       records_handed_off := rc, undelivered_records := ur,
                                       counters_complete := (counters_complete s1 \<and> \<not> counter_overflow p)\<rparr>)))
                  })))"

definition merge_progress :: "RunSummary \<Rightarrow> Progress \<Rightarrow> (RunSummary \<times> (ReceiverFailure + unit)) run" where
  "merge_progress s p =
     do {
       r \<leftarrow> merged s p;
       Some (case r of
           Inl e \<Rightarrow> (s, Inl e)
         | Inr s' \<Rightarrow> (s', if counter_overflow p then Inl CounterExhausted else Inr ()))
     }"

section \<open>Accept errors\<close>

datatype AcceptFailure = Drained | Retry | Pause | Fatal

text \<open>Linux error numbers; \<open>EAGAIN\<close> and \<open>EWOULDBLOCK\<close> are one.\<close>

definition EPERM :: int where "EPERM = 1"
definition EINTR :: int where "EINTR = 4"
definition EAGAIN :: int where "EAGAIN = 11"
definition ENOMEM :: int where "ENOMEM = 12"
definition ENFILE :: int where "ENFILE = 23"
definition EMFILE :: int where "EMFILE = 24"
definition ENOSR :: int where "ENOSR = 63"
definition ENONET :: int where "ENONET = 64"
definition EPROTO :: int where "EPROTO = 71"
definition ENOPROTOOPT :: int where "ENOPROTOOPT = 92"
definition EPROTONOSUPPORT :: int where "EPROTONOSUPPORT = 93"
definition ESOCKTNOSUPPORT :: int where "ESOCKTNOSUPPORT = 94"
definition EOPNOTSUPP :: int where "EOPNOTSUPP = 95"
definition ENETDOWN :: int where "ENETDOWN = 100"
definition ENETUNREACH :: int where "ENETUNREACH = 101"
definition ECONNABORTED :: int where "ECONNABORTED = 103"
definition ECONNRESET :: int where "ECONNRESET = 104"
definition ENOBUFS :: int where "ENOBUFS = 105"
definition ETIMEDOUT :: int where "ETIMEDOUT = 110"
definition EHOSTDOWN :: int where "EHOSTDOWN = 112"
definition EHOSTUNREACH :: int where "EHOSTUNREACH = 113"

lemmas errno_defs = EPERM_def EINTR_def EAGAIN_def ENOMEM_def ENFILE_def EMFILE_def ENOSR_def ENONET_def
  EPROTO_def ENOPROTOOPT_def EPROTONOSUPPORT_def ESOCKTNOSUPPORT_def EOPNOTSUPP_def ENETDOWN_def
  ENETUNREACH_def ECONNABORTED_def ECONNRESET_def ENOBUFS_def ETIMEDOUT_def EHOSTDOWN_def EHOSTUNREACH_def

definition classify_accept :: "io_error \<Rightarrow> AcceptFailure" where
  "classify_accept e =
     (case raw_os_error e of
        Some c \<Rightarrow>
          if c = EAGAIN then Drained
          else if c \<in> {EINTR, ECONNABORTED, ECONNRESET, ETIMEDOUT, ENETDOWN, EPROTO, ENOPROTOOPT, EHOSTDOWN,
                        ENONET, EHOSTUNREACH, EOPNOTSUPP, ENETUNREACH, EPERM, ESOCKTNOSUPPORT, EPROTONOSUPPORT}
            then Retry
          else if c \<in> {EMFILE, ENFILE, ENOBUFS, ENOMEM, ENOSR} then Pause
          else Fatal
      | None \<Rightarrow>
          (case io_kind e of
             WouldBlock \<Rightarrow> Drained
           | Interrupted \<Rightarrow> Retry
           | ConnectionAborted \<Rightarrow> Retry
           | ConnectionReset \<Rightarrow> Retry
           | TimedOut \<Rightarrow> Retry
           | NetworkDown \<Rightarrow> Retry
           | NetworkUnreachable \<Rightarrow> Retry
           | HostUnreachable \<Rightarrow> Retry
           | OutOfMemory \<Rightarrow> Pause
           | TooManyFiles \<Rightarrow> Pause
           | _ \<Rightarrow> Fatal))"

end
