(* ===== verification/Ordered_Map.thy ===== *)
theory Ordered_Map
  imports Phonowire_Prelude
begin

text \<open>
  The standard ordered map (\<open>BTreeMap\<close>) as the list of its entries in key order, which is also
  the order of iteration.  The interface the worker relies on is the locale \<open>ordered_map\<close>; the
  sorted list is its interpretation.
\<close>

type_synonym ('k, 'v) btree = "('k \<times> 'v) list"

definition btree_get :: "('k, 'v) btree \<Rightarrow> 'k \<Rightarrow> 'v option" where
  "btree_get m k = map_of m k"

fun btree_insert :: "('k::linorder, 'v) btree \<Rightarrow> 'k \<Rightarrow> 'v \<Rightarrow> ('k, 'v) btree" where
  "btree_insert [] k v = [(k, v)]"
| "btree_insert ((a, b) # m) k v =
     (if k < a then (k, v) # (a, b) # m
      else if k = a then (k, v) # m
      else (a, b) # btree_insert m k v)"

fun btree_remove :: "('k, 'v) btree \<Rightarrow> 'k \<Rightarrow> ('k, 'v) btree" where
  "btree_remove [] k = []"
| "btree_remove ((a, b) # m) k = (if k = a then m else (a, b) # btree_remove m k)"

definition btree_ok :: "('k::linorder, 'v) btree \<Rightarrow> bool" where
  "btree_ok m \<longleftrightarrow> sorted_wrt (<) (map fst m)"

lemma btree_ok_simps [simp]:
  "btree_ok []"
  "btree_ok ((a, b) # m) \<longleftrightarrow> (\<forall>k \<in> fst ` set m. a < k) \<and> btree_ok m"
  by (simp_all add: btree_ok_def)

lemma btree_get_simps [simp]:
  "btree_get [] k = None"
  "btree_get ((a, b) # m) k = (if k = a then Some b else btree_get m k)"
  by (simp_all add: btree_get_def)

lemma btree_get_None_iff: "btree_get m k = None \<longleftrightarrow> k \<notin> fst ` set m"
  by (simp add: btree_get_def map_of_eq_None_iff)

lemma btree_get_Some_iff: "btree_ok m \<Longrightarrow> btree_get m k = Some v \<longleftrightarrow> (k, v) \<in> set m"
  by (simp add: btree_get_def btree_ok_def map_of_eq_Some_iff strict_sorted_iff)

lemma keys_btree_insert [simp]: "fst ` set (btree_insert m k v) = insert k (fst ` set m)"
  by (induction m k v rule: btree_insert.induct) auto

lemma btree_insert_ok: "btree_ok m \<Longrightarrow> btree_ok (btree_insert m k v)"
  by (induction m k v rule: btree_insert.induct) auto

lemma btree_get_insert: "btree_get (btree_insert m k v) j = (if j = k then Some v else btree_get m j)"
  by (induction m k v rule: btree_insert.induct) auto

lemma set_btree_remove: "btree_ok m \<Longrightarrow> set (btree_remove m k) = {e \<in> set m. fst e \<noteq> k}"
  by (induction m k rule: btree_remove.induct) auto

lemma btree_remove_ok: "btree_ok m \<Longrightarrow> btree_ok (btree_remove m k)"
  by (induction m k rule: btree_remove.induct) (auto simp: set_btree_remove)

lemma btree_get_remove_other: "j \<noteq> k \<Longrightarrow> btree_get (btree_remove m k) j = btree_get m j"
  by (induction m k rule: btree_remove.induct) auto

lemma btree_get_remove: "btree_ok m \<Longrightarrow> btree_get (btree_remove m k) j = (if j = k then None else btree_get m j)"
  by (cases "j = k") (simp_all add: btree_get_None_iff set_btree_remove image_iff btree_get_remove_other)

lemma btree_remove_absent: "btree_get m k = None \<Longrightarrow> btree_remove m k = m"
  by (induction m k rule: btree_remove.induct) (auto split: if_splits)

lemma length_btree_insert: "btree_get m k = None \<Longrightarrow> length (btree_insert m k v) = Suc (length m)"
  by (induction m k v rule: btree_insert.induct) (auto split: if_splits)

lemma length_btree_remove: "btree_get m k \<noteq> None \<Longrightarrow> Suc (length (btree_remove m k)) = length m"
  by (induction m k rule: btree_remove.induct) (auto split: if_splits)

lemma card_btree_keys: "btree_ok m \<Longrightarrow> card (fst ` set m) = length m"
  by (simp add: btree_ok_def strict_sorted_iff distinct_card flip: set_map)

text \<open>A sum over the entries under an insertion, a replacement and a removal.\<close>

definition btree_sum :: "('v \<Rightarrow> 'c::comm_monoid_add) \<Rightarrow> ('k, 'v) btree \<Rightarrow> 'c" where
  "btree_sum g m = sum_list (map (g \<circ> snd) m)"

lemma btree_sum_Nil [simp]: "btree_sum g [] = 0"
  by (simp add: btree_sum_def)

lemma btree_sum_insert: "btree_get m k = None \<Longrightarrow> btree_sum g (btree_insert m k v) = g v + btree_sum g m"
  by (induction m k v rule: btree_insert.induct) (auto simp: btree_sum_def ac_simps split: if_splits)

lemma btree_sum_remove: "btree_get m k = Some v \<Longrightarrow> btree_sum g m = g v + btree_sum g (btree_remove m k)"
  by (induction m k rule: btree_remove.induct) (auto simp: btree_sum_def ac_simps split: if_splits)

lemma btree_sum_update:
  "\<lbrakk>btree_ok m; btree_get m k = Some u\<rbrakk> \<Longrightarrow> btree_sum g (btree_insert m k v) = g v + btree_sum g (btree_remove m k)"
proof (induction m k v rule: btree_insert.induct)
  case (2 a b m k v)
  have "k \<in> fst ` set m \<Longrightarrow> \<not> k < a" using 2(2) by fastforce
  moreover have "k \<noteq> a \<Longrightarrow> k \<in> fst ` set m" using 2(3) btree_get_None_iff [of m k] by (auto split: if_splits)
  ultimately show ?case using 2 by (auto simp: btree_sum_def ac_simps split: if_splits)
qed simp

locale ordered_map =
  fixes get :: "'m \<Rightarrow> 'k::linorder \<Rightarrow> 'v option"
    and insert_map :: "'m \<Rightarrow> 'k \<Rightarrow> 'v \<Rightarrow> 'm"
    and remove_map :: "'m \<Rightarrow> 'k \<Rightarrow> 'm"
    and size_of :: "'m \<Rightarrow> nat"
    and good :: "'m \<Rightarrow> bool"
  assumes get_insert: "good m \<Longrightarrow> get (insert_map m k v) j = (if j = k then Some v else get m j)"
    and get_remove: "good m \<Longrightarrow> get (remove_map m k) j = (if j = k then None else get m j)"
    and good_insert: "good m \<Longrightarrow> good (insert_map m k v)"
    and good_remove: "good m \<Longrightarrow> good (remove_map m k)"
    and size_insert: "good m \<Longrightarrow> get m k = None \<Longrightarrow> size_of (insert_map m k v) = Suc (size_of m)"
    and size_remove: "good m \<Longrightarrow> get m k \<noteq> None \<Longrightarrow> Suc (size_of (remove_map m k)) = size_of m"
begin

text \<open>Removing what was just inserted restores every lookup and the size.\<close>

lemma insert_remove:
  assumes "good m" "get m k = None"
  shows "get (remove_map (insert_map m k v) k) = get m" "size_of (remove_map (insert_map m k v) k) = size_of m"
proof -
  note g = good_insert [OF assms(1), of k v]
  show "get (remove_map (insert_map m k v) k) = get m"
    using assms by (auto simp: fun_eq_iff get_remove [OF g] get_insert)
  have "Suc (size_of (remove_map (insert_map m k v) k)) = size_of (insert_map m k v)"
    using assms by (intro size_remove [OF g]) (simp add: get_insert)
  then show "size_of (remove_map (insert_map m k v) k) = size_of m" using assms by (simp add: size_insert)
qed

lemma dom_insert: "good m \<Longrightarrow> dom (get (insert_map m k v)) = insert k (dom (get m))"
  by (auto simp: get_insert split: if_splits)

lemma dom_remove: "good m \<Longrightarrow> dom (get (remove_map m k)) = dom (get m) - {k}"
  by (auto simp: get_remove split: if_splits)

end

interpretation btree: ordered_map btree_get btree_insert btree_remove length btree_ok
  by unfold_locales
     (auto simp: btree_get_insert btree_get_remove btree_insert_ok btree_remove_ok length_btree_insert length_btree_remove)

end
