(* ===== verification/Connection_Controls.thy ===== *)
theory Connection_Controls
  imports Ordered_Map Task_Scheduler
begin

text \<open>
  Scoped control of single connections (\<open>ConnectionControls\<close>, \<open>ConnectionControlHandle\<close> and
  \<open>CloseTicket\<close> in \<open>crates/phonowire-receiver/src/driver.rs\<close>).  A close request names a live
  connection; its ticket shares a completion cell with the worker, which writes it when the
  connection is retired.  The shared cells are a store, a cell being its address in it; every
  locked section is one operation, and control threads and the worker interleave them freely.
\<close>

section \<open>State\<close>

datatype ConnectionCloseResult = RetiredByRequest | ConnectionEnded | ReceiverStopped

datatype ConnectionCloseError = UnknownOrStale | ReceiverStopping

record ControlEntry =
  requested :: bool
  entry_cell :: nat

record CloseTicket =
  ticket_id :: ConnectionId
  ticket_cell :: nat

record ConnectionControls =
  controls_instance :: nat
  controls_retention :: nat
  stopping :: bool
  entries :: "(ConnectionId, ControlEntry) btree"
  cells :: "ConnectionCloseResult option list"

section \<open>Operations\<close>

definition ConnectionControls_new :: "nat \<Rightarrow> nat \<Rightarrow> ConnectionControls" where
  "ConnectionControls_new i tracker =
     \<lparr>controls_instance = i, controls_retention = tracker, stopping = False, entries = [], cells = []\<rparr>"

definition close ::
  "io_error + unit \<Rightarrow> Signals \<Rightarrow> ConnectionControls \<Rightarrow> ConnectionId
     \<Rightarrow> Signals \<times> ConnectionControls \<times> (ConnectionCloseError + CloseTicket)" where
  "close wr g c i =
     (if conn_instance i \<noteq> controls_instance c then (g, c, Inl UnknownOrStale)
      else if stopping c then (g, c, Inl ReceiverStopping)
      else case btree_get (entries c) i of
        None \<Rightarrow> (g, c, Inl UnknownOrStale)
      | Some e \<Rightarrow>
          (fst (publish wr g SigControl),
           c\<lparr>entries := btree_insert (entries c) i (e\<lparr>requested := True\<rparr>)\<rparr>,
           Inr \<lparr>ticket_id = i, ticket_cell = entry_cell e\<rparr>))"

text \<open>The assertion is evaluated after the insertion; a panic ends the worker either way.\<close>

definition register :: "ConnectionControls \<Rightarrow> ConnectionId \<Rightarrow> ConnectionControls run" where
  "register c i =
     (if btree_get (entries c) i \<noteq> None then panic
      else Some (c\<lparr>entries := btree_insert (entries c) i \<lparr>requested = False, entry_cell = length (cells c)\<rparr>,
                   cells := cells c @ [None]\<rparr>))"

definition controls_requested :: "ConnectionControls \<Rightarrow> ConnectionId \<Rightarrow> bool" where
  "controls_requested c i = (case btree_get (entries c) i of None \<Rightarrow> False | Some e \<Rightarrow> requested e)"

definition controls_finish :: "ConnectionControls \<Rightarrow> ConnectionId \<Rightarrow> ConnectionCloseResult \<Rightarrow> ConnectionControls" where
  "controls_finish c i r =
     (case btree_get (entries c) i of
        None \<Rightarrow> c
      | Some e \<Rightarrow> c\<lparr>entries := btree_remove (entries c) i, cells := (cells c)[entry_cell e := Some r]\<rparr>)"

fun complete_all :: "ConnectionCloseResult option list \<Rightarrow> (ConnectionId \<times> ControlEntry) list \<Rightarrow> ConnectionCloseResult option list" where
  "complete_all cs [] = cs"
| "complete_all cs ((i, e) # es) = complete_all (cs[entry_cell e := Some ReceiverStopped]) es"

definition stop_all :: "ConnectionControls \<Rightarrow> ConnectionControls" where
  "stop_all c = c\<lparr>stopping := True, entries := [], cells := complete_all (cells c) (entries c)\<rparr>"

definition try_result :: "ConnectionControls \<Rightarrow> CloseTicket \<Rightarrow> ConnectionCloseResult option" where
  "try_result c t = cells c ! ticket_cell t"

definition ticket_retained :: "memory \<Rightarrow> ConnectionControls \<Rightarrow> CloseTicket \<Rightarrow> nat" where
  "ticket_retained m c t = RetentionTracker_used (trackers m (controls_retention c)) (ticket_id t)"

section \<open>Interleavings\<close>

datatype control_op =
    OpClose ConnectionId
  | OpRegister ConnectionId
  | OpFinish ConnectionId ConnectionCloseResult
  | OpStopAll

fun control_exec :: "control_op \<Rightarrow> ConnectionControls \<Rightarrow> ConnectionControls run" where
  "control_exec (OpClose i) c = Some (fst (snd (close (Inr ()) Signals_new c i)))"
| "control_exec (OpRegister i) c = register c i"
| "control_exec (OpFinish i r) c = Some (controls_finish c i r)"
| "control_exec OpStopAll c = Some (stop_all c)"

fun control_run :: "ConnectionControls \<Rightarrow> control_op list \<Rightarrow> ConnectionControls run" where
  "control_run c [] = Some c"
| "control_run c (op # ops) = do { c' \<leftarrow> control_exec op c; control_run c' ops }"

text \<open>
  \<open>CloseTicket::wait_timeout\<close>, over the operations that happen until the time runs out: the condition
  is checked under the lock, and again after each of them, until there is a result.
\<close>

fun wait_timeout :: "ConnectionControls \<Rightarrow> CloseTicket \<Rightarrow> control_op list \<Rightarrow> (ConnectionControls \<times> ConnectionCloseResult option) run" where
  "wait_timeout c t [] = Some (c, try_result c t)"
| "wait_timeout c t (op # ops) =
     (if try_result c t \<noteq> None then Some (c, try_result c t)
      else do { c' \<leftarrow> control_exec op c; wait_timeout c' t ops })"

text \<open>What becomes of a connection that is registered now: the first operation that retires it.\<close>

fun fate :: "ConnectionId \<Rightarrow> control_op list \<Rightarrow> ConnectionCloseResult option" where
  "fate i [] = None"
| "fate i (OpFinish j r # ops) = (if j = i then Some r else fate i ops)"
| "fate i (OpStopAll # ops) = Some ReceiverStopped"
| "fate i (OpClose j # ops) = fate i ops"
| "fate i (OpRegister j # ops) = fate i ops"

text \<open>Open cells are exactly those of live entries, one each.\<close>

definition cell_of :: "ConnectionControls \<Rightarrow> ConnectionId \<Rightarrow> nat option" where
  "cell_of c i = map_option entry_cell (btree_get (entries c) i)"

definition controls_ok :: "ConnectionControls \<Rightarrow> bool" where
  "controls_ok c \<longleftrightarrow> btree_ok (entries c) \<and>
     (\<forall>i n. cell_of c i = Some n \<longrightarrow> n < length (cells c) \<and> cells c ! n = None) \<and>
     (\<forall>i j n. cell_of c i = Some n \<longrightarrow> cell_of c j = Some n \<longrightarrow> i = j) \<and>
     (\<forall>n < length (cells c). cells c ! n = None \<longrightarrow> (\<exists>i. cell_of c i = Some n))"

lemma controls_ok_new: "controls_ok (ConnectionControls_new i tracker)"
  by (simp add: controls_ok_def cell_of_def ConnectionControls_new_def)

lemma register_fields:
  assumes "register c i = Some c'"
  shows "cell_of c i = None" "cell_of c' = (cell_of c)(i \<mapsto> length (cells c))" "cells c' = cells c @ [None]"
    "btree_ok (entries c) \<Longrightarrow> btree_ok (entries c')" "stopping c' = stopping c" "controls_instance c' = controls_instance c"
  using assms by (auto simp: register_def cell_of_def fun_eq_iff btree_get_insert btree_insert_ok split: if_splits)

lemma register_ok:
  assumes "controls_ok c" "register c i = Some c'"
  shows "controls_ok c'"
proof -
  note r = register_fields [OF assms(2)]
  have "n < length (cells c)" "cells c ! n = None" if "cell_of c j = Some n" for j n
    using assms(1) that by (auto simp: controls_ok_def)
  moreover have "\<exists>j. ((cell_of c)(i \<mapsto> length (cells c))) j = Some n" if n: "n < length (cells c)" "cells c ! n = None" for n
  proof -
    obtain j where "cell_of c j = Some n" using assms(1) n by (auto simp: controls_ok_def)
    then show ?thesis using r(1) by (intro exI [of _ j]) auto
  qed
  ultimately show ?thesis using assms(1) r
    by (simp add: controls_ok_def nth_append less_Suc_eq) (metis fun_upd_same less_irrefl)
qed

lemma close_fields:
  assumes "close wr g c i = (g', c', r)"
  shows "cells c' = cells c" "stopping c' = stopping c" "controls_instance c' = controls_instance c"
    "cell_of c' = cell_of c" "btree_ok (entries c) \<Longrightarrow> btree_ok (entries c')"
  using assms by (auto simp: close_def cell_of_def fun_eq_iff btree_get_insert btree_insert_ok
      split: if_splits option.splits)

lemma close_ok: "controls_ok c \<Longrightarrow> close wr g c i = (g', c', r) \<Longrightarrow> controls_ok c'"
  using close_fields [of wr g c i g' c' r] by (simp add: controls_ok_def)

lemma finish_fields:
  assumes "btree_ok (entries c)"
  shows "cell_of (controls_finish c i r) = (cell_of c)(i := None)" "btree_ok (entries (controls_finish c i r))"
    "cells (controls_finish c i r) = (case cell_of c i of None \<Rightarrow> cells c | Some n \<Rightarrow> (cells c)[n := Some r])"
    "stopping (controls_finish c i r) = stopping c" "controls_instance (controls_finish c i r) = controls_instance c"
  using assms by (auto simp: controls_finish_def cell_of_def fun_eq_iff btree_get_remove btree_remove_ok split: option.splits)

lemma finish_ok:
  assumes "controls_ok c"
  shows "controls_ok (controls_finish c i r)"
proof -
  have "btree_ok (entries c)" using assms by (simp add: controls_ok_def)
  note f = finish_fields [OF this, of i r]
  have own: "\<exists>j. ((cell_of c)(i := None)) j = Some n" if n: "n < length (cells c)" "cells c ! n = None" "cell_of c i \<noteq> Some n" for n
  proof -
    obtain j where "cell_of c j = Some n" using assms n(1,2) by (auto simp: controls_ok_def)
    then show ?thesis using n(3) by (intro exI [of _ j]) auto
  qed
  show ?thesis
  proof (cases "cell_of c i")
    case None
    then show ?thesis using assms f own by (simp add: controls_ok_def)
  next
    case (Some m)
    then have "n \<noteq> m" if "cell_of c j = Some n" "j \<noteq> i" for j n using assms that by (auto simp: controls_ok_def)
    then show ?thesis using assms f own Some by (auto simp: controls_ok_def nth_list_update split: if_splits)
  qed
qed

lemma length_complete_all [simp]: "length (complete_all cs es) = length cs"
  by (induction cs es rule: complete_all.induct) auto

lemma complete_all_nth:
  "n < length cs \<Longrightarrow> complete_all cs es ! n = (if n \<in> entry_cell ` snd ` set es then Some ReceiverStopped else cs ! n)"
  by (induction cs es rule: complete_all.induct) (auto simp: nth_list_update)


lemma cells_of_entries: "btree_ok (entries c) \<Longrightarrow> n \<in> entry_cell ` snd ` set (entries c) \<longleftrightarrow> (\<exists>i. cell_of c i = Some n)"
  by (force simp: cell_of_def btree_get_Some_iff)

lemma stop_all_fields:
  assumes "controls_ok c" "n < length (cells c)"
  shows "cells (stop_all c) ! n = (if \<exists>i. cell_of c i = Some n then Some ReceiverStopped else cells c ! n)"
  using assms by (simp add: stop_all_def complete_all_nth cells_of_entries controls_ok_def)

lemma close_ok_state: "controls_ok c \<Longrightarrow> controls_ok (fst (snd (close wr g c i)))"
  using close_ok [of c wr g i] by (cases "close wr g c i") auto

lemma stop_all_ok: "controls_ok c \<Longrightarrow> controls_ok (stop_all c)"
  using stop_all_fields [of c] unfolding controls_ok_def [of "stop_all c"]
  by (auto simp: stop_all_def cell_of_def [of "c\<lparr>stopping := _, entries := _, cells := _\<rparr>"] controls_ok_def split: if_splits)

lemma control_exec_ok: "controls_ok c \<Longrightarrow> control_exec op c = Some c' \<Longrightarrow> controls_ok c'"
  by (cases op) (auto simp: stop_all_ok finish_ok intro: register_ok close_ok_state)

text \<open>A cell that is open for \<open>i\<close> shows the fate of \<open>i\<close>; a written cell never changes.\<close>

definition cell_shows :: "ConnectionControls \<Rightarrow> ConnectionId \<Rightarrow> nat \<Rightarrow> ConnectionCloseResult option \<Rightarrow> bool" where
  "cell_shows c i n r \<longleftrightarrow> n < length (cells c) \<and> cells c ! n = r \<and>
     (r = None \<longleftrightarrow> cell_of c i = Some n) \<and> (r \<noteq> None \<longrightarrow> (\<forall>j. cell_of c j \<noteq> Some n))"

definition after_op :: "ConnectionId \<Rightarrow> control_op \<Rightarrow> ConnectionCloseResult option \<Rightarrow> ConnectionCloseResult option" where
  "after_op i op r = (case r of Some x \<Rightarrow> Some x | None \<Rightarrow> fate i [op])"

lemma control_exec_shows:
  assumes "controls_ok c" "control_exec op c = Some c'" "cell_shows c i n r"
  shows "cell_shows c' i n (after_op i op r)"
proof (cases op)
  case (OpClose j)
  obtain g' d x where d: "close (Inr ()) Signals_new c j = (g', d, x)" by (cases "close (Inr ()) Signals_new c j") auto
  have "c' = d" using assms(2) OpClose d by simp
  moreover have "after_op i op r = r" using OpClose by (cases r) (simp_all add: after_op_def)
  ultimately show ?thesis using assms(3) close_fields [OF d] by (auto simp: cell_shows_def)
next
  case (OpRegister j)
  then have reg: "register c j = Some c'" using assms(2) by simp
  have "after_op i op r = r" using OpRegister by (cases r) (simp_all add: after_op_def)
  then show ?thesis using assms(3) register_fields [OF reg] by (auto simp: cell_shows_def nth_append)
next
  case (OpFinish j r')
  have b: "btree_ok (entries c)" using assms(1) by (simp add: controls_ok_def)
  show ?thesis using assms OpFinish finish_fields [OF b, of j r']
    by (cases r; cases "cell_of c j")
       (auto simp: cell_shows_def after_op_def controls_ok_def nth_list_update split: if_splits option.splits)
next
  case OpStopAll
  then show ?thesis using assms stop_all_fields [OF assms(1), of n]
    by (cases r) (auto simp: cell_shows_def after_op_def stop_all_def cell_of_def)
qed

lemma control_run_shows:
  "\<lbrakk>controls_ok c; control_run c ops = Some c'; cell_shows c i n r\<rbrakk> \<Longrightarrow>
     controls_ok c' \<and> cell_shows c' i n (case r of Some x \<Rightarrow> Some x | None \<Rightarrow> fate i ops)"
proof (induction ops arbitrary: c r)
  case Nil
  then show ?case by (cases r) simp_all
next
  case (Cons op ops)
  obtain c1 where c1: "control_exec op c = Some c1" "control_run c1 ops = Some c'"
    using Cons.prems(2) by (auto split: bind_splits)
  have "(case after_op i op r of Some x \<Rightarrow> Some x | None \<Rightarrow> fate i ops) = (case r of Some x \<Rightarrow> Some x | None \<Rightarrow> fate i (op # ops))"
    by (cases r; cases op) (auto simp: after_op_def)
  then show ?case
    using Cons.IH [OF control_exec_ok [OF Cons.prems(1) c1(1)] c1(2) control_exec_shows [OF Cons.prems(1) c1(1) Cons.prems(3)]]
    by simp
qed

lemma wait_timeout_shows:
  "\<lbrakk>controls_ok c; control_run c ops = Some c'; cell_shows c i (ticket_cell t) r\<rbrakk> \<Longrightarrow>
     \<exists>d. wait_timeout c t ops = Some (d, case r of Some x \<Rightarrow> Some x | None \<Rightarrow> fate i ops)"
proof (induction ops arbitrary: c r)
  case Nil
  then show ?case by (cases r) (simp_all add: cell_shows_def try_result_def)
next
  case (Cons op ops)
  obtain c1 where c1: "control_exec op c = Some c1" "control_run c1 ops = Some c'"
    using Cons.prems(2) by (auto split: bind_splits)
  have now: "try_result c t = r" using Cons.prems(3) by (simp add: cell_shows_def try_result_def)
  show ?case
  proof (cases r)
    case None
    have "(case after_op i op None of Some x \<Rightarrow> Some x | None \<Rightarrow> fate i ops) = fate i (op # ops)"
      by (cases op) (auto simp: after_op_def)
    then show ?thesis
      using Cons.IH [OF control_exec_ok [OF Cons.prems(1) c1(1)] c1(2) control_exec_shows [OF Cons.prems(1) c1(1) Cons.prems(3)]]
        now None c1(1) by simp
  qed (use now in simp)
qed

lemma close_ticket_open:
  assumes "controls_ok c" "close wr g c i = (g', c', Inr t)"
  shows "controls_ok c'" "cell_shows c' i (ticket_cell t) None" "ticket_id t = i"
proof -
  show "controls_ok c'" using close_ok [OF assms] .
  have "cell_of c i = Some (ticket_cell t)" "ticket_id t = i"
    using assms(2) by (auto simp: close_def cell_of_def split: if_splits option.splits)
  then show "cell_shows c' i (ticket_cell t) None" "ticket_id t = i"
    using close_fields [OF assms(2)] assms(1) by (auto simp: cell_shows_def controls_ok_def)
qed

section \<open>Properties\<close>



end
