(* ===== verification/Wave_Recording.thy ===== *)
theory Wave_Recording
  imports Receiver_Record "HOL-Library.Sublist"
begin

text \<open>
  The consumer-side recorder (\<open>crates/phonowire-receiver/src/recording.rs\<close>): one connection's
  records are checked and written to a wire file, a WAVE file and a diagnostic log.

  The three writers are the caller's code behind the \<open>Write\<close> and \<open>Seek\<close> traits, so they are a
  parameter: a state and the functions of \<open>sink\<close>.  What the recorder relies on is the contract
  of those traits, stated as the locales \<open>writer\<close> and \<open>seekable\<close>.  \<open>write_count\<close> retries an
  interrupted write for ever, so its result is an \<open>option\<close> whose \<open>None\<close> is not returning; inside,
  \<open>None\<close> is a panic.  The texts Rust's \<open>Debug\<close> prints for foreign types are parameters.
\<close>

section \<open>Results of output\<close>

type_synonym 'a effect = "'a run option"

definition yields :: "'a \<Rightarrow> 'a effect" where
  "yields x = Some (Some x)"

definition and_then :: "'a effect \<Rightarrow> ('a \<Rightarrow> 'b effect) \<Rightarrow> 'b effect" where
  "and_then m f = (case m of None \<Rightarrow> None | Some None \<Rightarrow> Some None | Some (Some x) \<Rightarrow> f x)"

lemma and_then_simps [simp]:
  "and_then (yields x) f = f x" "and_then (Some (Some x)) f = f x"
  by (simp_all add: and_then_def yields_def)

record 'w sink =
  out_write :: "'w \<Rightarrow> bytes \<Rightarrow> 'w \<times> (io_error + nat)"
  out_rewind :: "'w \<Rightarrow> 'w \<times> (io_error + unit)"
  out_flush :: "'w \<Rightarrow> 'w \<times> (io_error + unit)"

datatype RecordingStage =
    Validate | StHeader | StWire | StAudio | StEvents | StSeek | StPatch
  | FlushWire | FlushWave | FlushEvents

datatype TerminalKind =
    TkCleanEof | TkTerminate | TkPeerError | TkInvalidMessage | TkDecode | TkTruncated | TkPolicy
  | TkTransport | TkResourceRefused | TkOffsetExhausted

fun TerminalKind_from :: "EndReason \<Rightarrow> TerminalKind" where
  "TerminalKind_from CleanEof = TkCleanEof"
| "TerminalKind_from EndTerminate = TkTerminate"
| "TerminalKind_from (EndPeerError _) = TkPeerError"
| "TerminalKind_from (InvalidMessage _) = TkInvalidMessage"
| "TerminalKind_from (EndDecode _) = TkDecode"
| "TerminalKind_from (Truncated _) = TkTruncated"
| "TerminalKind_from (Policy _) = TkPolicy"
| "TerminalKind_from (Transport _) = TkTransport"
| "TerminalKind_from (ResourceRefused _) = TkResourceRefused"
| "TerminalKind_from OffsetExhausted = TkOffsetExhausted"

datatype RecordingEnd = Incomplete | Observed TerminalKind

record RecordingSummary =
  wire_bytes :: nat
  audio_bytes :: nat
  event_bytes :: nat
  header_bytes :: nat
  patch_bytes :: nat
  rec_end :: RecordingEnd

definition RecordingSummary_default :: RecordingSummary where
  "RecordingSummary_default =
     \<lparr>wire_bytes = 0, audio_bytes = 0, event_bytes = 0, header_bytes = 0, patch_bytes = 0,
      rec_end = Incomplete\<rparr>"

datatype RecordingViolation =
    AfterFailure | VAfterEnd | VConnection | VOrder | VUuid | VOffset | AudioFormat | WaveSize

datatype RecordingFailure = Io io_error | Invalid RecordingViolation

record RecordingError =
  err_stage :: RecordingStage
  err_failure :: RecordingFailure
  err_summary :: RecordingSummary

datatype RecState = AwaitingConnection | RAwaitingUuid | RActive Uuid | RecEnded | RecFailed

record ('a, 'b, 'c) Recording =
  rec_id :: ConnectionId
  sample_rate :: SampleRate
  wire :: 'a
  wave :: 'b
  events :: 'c
  rec_state :: RecState
  last_event_offset :: nat
  summary :: RecordingSummary

record ('a, 'b, 'c) outputs =
  wire_out :: "'a sink"
  wave_out :: "'b sink"
  events_out :: "'c sink"

section \<open>The WAVE header\<close>

definition WAVE_HEADER_BYTES :: nat where "WAVE_HEADER_BYTES = 44"
definition RIFF_OVERHEAD :: nat where "RIFF_OVERHEAD = 36"
definition PCM_FORMAT :: u16 where "PCM_FORMAT = 1"
definition CHANNELS :: u16 where "CHANNELS = 1"
definition SAMPLE_BYTES :: u16 where "SAMPLE_BYTES = 2"
definition SAMPLE_BITS :: u16 where "SAMPLE_BITS = 16"
definition FORMAT_BYTES :: u32 where "FORMAT_BYTES = 16"

definition as_bytes :: "string \<Rightarrow> bytes" where
  "as_bytes s = map of_char s"

text \<open>\<open>hertz * u32::from(SAMPLE_BYTES)\<close> panics where it overflows, in a checked build.\<close>

definition mul_u32 :: "u32 \<Rightarrow> u32 \<Rightarrow> u32 run" where
  "mul_u32 a b = (if unat a * unat b \<le> U32_MAX then Some (a * b) else panic)"

definition wave_header :: "nat \<Rightarrow> SampleRate \<Rightarrow> (RecordingViolation + bytes) run" where
  "wave_header n rate =
     (case try_from U32_MAX n of
        None \<Rightarrow> Some (Inl WaveSize)
      | Some data \<Rightarrow>
          (case checked_add U32_MAX data RIFF_OVERHEAD of
             None \<Rightarrow> Some (Inl WaveSize)
           | Some riff \<Rightarrow> do {
               let h = replicate WAVE_HEADER_BYTES 0;
               h \<leftarrow> copy_from_slice h 0 4 (as_bytes ''RIFF'');
               h \<leftarrow> copy_from_slice h 4 8 (to_le_bytes32 (word_of_nat riff));
               h \<leftarrow> copy_from_slice h 8 12 (as_bytes ''WAVE'');
               h \<leftarrow> copy_from_slice h 12 16 (as_bytes ''fmt '');
               h \<leftarrow> copy_from_slice h 16 20 (to_le_bytes32 FORMAT_BYTES);
               h \<leftarrow> copy_from_slice h 20 22 (to_le_bytes16 PCM_FORMAT);
               h \<leftarrow> copy_from_slice h 22 24 (to_le_bytes16 CHANNELS);
               h \<leftarrow> copy_from_slice h 24 28 (to_le_bytes32 (hertz rate));
               byte_rate \<leftarrow> mul_u32 (hertz rate) (ucast SAMPLE_BYTES);
               h \<leftarrow> copy_from_slice h 28 32 (to_le_bytes32 byte_rate);
               h \<leftarrow> copy_from_slice h 32 34 (to_le_bytes16 SAMPLE_BYTES);
               h \<leftarrow> copy_from_slice h 34 36 (to_le_bytes16 SAMPLE_BITS);
               h \<leftarrow> copy_from_slice h 36 40 (as_bytes ''data'');
               h \<leftarrow> copy_from_slice h 40 44 (to_le_bytes32 (word_of_nat data));
               Some (Inr h)
             }))"

section \<open>Counted writes\<close>

definition write_zero :: io_error where
  "write_zero = \<lparr>io_kind = WriteZero, raw_os_error = None\<rparr>"

partial_function (option) write_loop ::
  "'w sink \<Rightarrow> 'w \<Rightarrow> bytes \<Rightarrow> nat \<Rightarrow> ('w \<times> nat \<times> (io_error + unit)) effect" where
  "write_loop k w bs cnt =
     (if bs = [] then Some (Some (w, cnt, Inr ()))
      else case out_write k w bs of
        (w', Inl e) \<Rightarrow>
          if io_kind e = Interrupted then write_loop k w' bs cnt else Some (Some (w', cnt, Inl e))
      | (w', Inr written) \<Rightarrow>
          if written = 0 then Some (Some (w', cnt, Inl write_zero))
          else if length bs < written then Some None
          else write_loop k w' (drop written bs) (cnt + written))"

definition write_count ::
  "'w sink \<Rightarrow> 'w \<Rightarrow> bytes \<Rightarrow> nat \<Rightarrow> ('w \<times> nat \<times> (io_error + unit)) effect" where
  "write_count k w bs cnt =
     (case try_from U64_MAX (length bs) of
        None \<Rightarrow> yields (w, cnt, Inl error_other)
      | Some n \<Rightarrow>
          (case checked_add U64_MAX cnt n of
             None \<Rightarrow> yields (w, cnt, Inl error_other)
           | Some _ \<Rightarrow> write_loop k w bs cnt))"

section \<open>Diagnostic texts\<close>

record debug_texts =
  dbg_instant :: "instant \<Rightarrow> string"
  dbg_uuid :: "Uuid option \<Rightarrow> string"
  dbg_char :: "u8 \<Rightarrow> string"
  dbg_message :: "TypedMessageError \<Rightarrow> string"
  dbg_decode :: "DecodeError \<Rightarrow> string"
  dbg_finish :: "FinishError \<Rightarrow> string"
  dbg_policy :: "IncomingSessionError \<Rightarrow> string"
  dbg_transport :: "io_error \<Rightarrow> string"
  dbg_budget :: "BudgetError \<Rightarrow> string"

definition digit_char :: "nat \<Rightarrow> char" where
  "digit_char n = char_of (if n < 10 then 48 + n else 87 + n)"

fun show_nat :: "nat \<Rightarrow> string" where
  "show_nat n = (if n < 10 then [digit_char n] else show_nat (n div 10) @ [digit_char (n mod 10)])"

declare show_nat.simps [simp del]

definition hex_byte :: "u8 \<Rightarrow> string" where
  "hex_byte b = [digit_char (unat b div 16), digit_char (unat b mod 16)]"

text \<open>\<open>{:02x?}\<close> of a byte array.\<close>

fun hex_items :: "bytes \<Rightarrow> string" where
  "hex_items [] = ''''"
| "hex_items [b] = hex_byte b"
| "hex_items (b # c # bs) = hex_byte b @ '', '' @ hex_items (c # bs)"

definition hex_bytes :: "bytes \<Rightarrow> string" where
  "hex_bytes bs = ''['' @ hex_items bs @ '']''"

fun rate_text :: "SampleRate \<Rightarrow> string" where
  "rate_text Khz8 = ''Khz8''"
| "rate_text Khz12 = ''Khz12''"
| "rate_text Khz16 = ''Khz16''"
| "rate_text Khz24 = ''Khz24''"
| "rate_text Khz32 = ''Khz32''"
| "rate_text Khz44_1 = ''Khz44_1''"
| "rate_text Khz48 = ''Khz48''"
| "rate_text Khz96 = ''Khz96''"
| "rate_text Khz192 = ''Khz192''"

fun EndDescription :: "debug_texts \<Rightarrow> EndReason \<Rightarrow> string" where
  "EndDescription d CleanEof = ''clean-eof''"
| "EndDescription d EndTerminate = ''terminate''"
| "EndDescription d (EndPeerError b) = ''peer-error bytes='' @ show_nat (length (as_slice b))"
| "EndDescription d (InvalidMessage e) = ''invalid-message detail='' @ dbg_message d e"
| "EndDescription d (EndDecode e) = ''decode detail='' @ dbg_decode d e"
| "EndDescription d (Truncated e) = ''truncated detail='' @ dbg_finish d e"
| "EndDescription d (Policy e) = ''policy detail='' @ dbg_policy d e"
| "EndDescription d (Transport e) = ''transport detail='' @ dbg_transport d e"
| "EndDescription d (ResourceRefused e) = ''resource-refused detail='' @ dbg_budget d e"
| "EndDescription d OffsetExhausted = ''offset-exhausted''"

fun Description :: "debug_texts \<Rightarrow> RecordKind \<Rightarrow> string" where
  "Description d (RConnected peer) = ''connected peer='' @ peer"
| "Description d (RWire b) = ''wire bytes='' @ show_nat (length (as_slice b))"
| "Description d (RStarted u) = ''started uuid='' @ hex_bytes (uuid_bytes u)"
| "Description d (RAudio u r b) =
     ''audio uuid='' @ hex_bytes (uuid_bytes u) @ '' rate='' @ rate_text r @ '' bytes='' @ show_nat (length (as_slice b))"
| "Description d (RDtmf u g) = ''dtmf uuid='' @ hex_bytes (uuid_bytes u) @ '' digit='' @ dbg_char d (dtmf_value g)"
| "Description d (REnded u r) = ''ended uuid='' @ dbg_uuid d u @ '' reason='' @ EndDescription d r"

definition description_line :: "debug_texts \<Rightarrow> ConnectionId \<Rightarrow> Record \<Rightarrow> string" where
  "description_line d i x =
     ''instance='' @ show_nat (conn_instance i) @ '' connection='' @ show_nat (conn_sequence i) @
     '' offset='' @ show_nat (offset_get (rec_offset x)) @ '' observed='' @ dbg_instant d (observed_at x) @
     '' '' @ Description d (rec_kind x) @ [CHR 0x0A]"

section \<open>Validation\<close>

fun is_connected :: "RecordKind \<Rightarrow> bool" where
  "is_connected (RConnected p) = True"
| "is_connected _ = False"

fun is_wire :: "RecordKind \<Rightarrow> bool" where
  "is_wire (RWire b) = True"
| "is_wire _ = False"

definition validate :: "('a, 'b, 'c) Recording \<Rightarrow> Record \<Rightarrow> (RecordingViolation + RecState) run" where
  "validate r x =
     (let offset = offset_get (rec_offset x);
          uuid = (case rec_state r of RActive u \<Rightarrow> Some u | _ \<Rightarrow> None) in
      if rec_state r = RecFailed then Some (Inl AfterFailure)
      else if rec_state r = RecEnded then Some (Inl VAfterEnd)
      else if connection x \<noteq> rec_id r then Some (Inl VConnection)
      else if rec_state r = AwaitingConnection \<and> \<not> is_connected (rec_kind x) then Some (Inl VOrder)
      else if \<not> is_wire (rec_kind x) \<and>
              (offset < last_event_offset r \<or> offset > wire_bytes (summary r)) then Some (Inl VOffset)
      else case rec_kind x of
        RConnected p \<Rightarrow> Some (if rec_state r \<noteq> AwaitingConnection then Inl VOrder else Inr RAwaitingUuid)
      | RWire b \<Rightarrow> Some (if offset \<noteq> wire_bytes (summary r) then Inl VOffset else Inr (rec_state r))
      | RStarted u \<Rightarrow> Some (if rec_state r \<noteq> RAwaitingUuid then Inl VOrder else Inr (RActive u))
      | RAudio u rate b \<Rightarrow>
          if uuid \<noteq> Some u then Some (Inl VUuid)
          else if rate \<noteq> sample_rate r \<or> length (as_slice b) mod unat SAMPLE_BYTES \<noteq> 0
            then Some (Inl AudioFormat)
          else case try_from U64_MAX (length (as_slice b)) of
            None \<Rightarrow> Some (Inl WaveSize)
          | Some n \<Rightarrow>
              (case checked_add U64_MAX (audio_bytes (summary r)) n of
                 None \<Rightarrow> Some (Inl WaveSize)
               | Some next \<Rightarrow> do {
                   h \<leftarrow> wave_header next (sample_rate r);
                   Some (case h of Inl v \<Rightarrow> Inl v | Inr _ \<Rightarrow> Inr (rec_state r))
                 })
      | RDtmf u g \<Rightarrow> Some (if uuid \<noteq> Some u then Inl VUuid else Inr (rec_state r))
      | REnded u reason \<Rightarrow> Some (if uuid \<noteq> u then Inl VUuid else Inr RecEnded))"

section \<open>Recording\<close>

definition invalid ::
  "('a, 'b, 'c) Recording \<Rightarrow> RecordingViolation \<Rightarrow> ('a, 'b, 'c) Recording \<times> RecordingError" where
  "invalid r v =
     (r\<lparr>rec_state := RecFailed\<rparr>,
      \<lparr>err_stage = Validate, err_failure = Invalid v, err_summary = summary r\<rparr>)"

definition output_result ::
  "('a, 'b, 'c) Recording \<Rightarrow> RecordingStage \<Rightarrow> io_error + unit
     \<Rightarrow> ('a, 'b, 'c) Recording \<times> (RecordingError + unit)" where
  "output_result r st res =
     (case res of
        Inr _ \<Rightarrow> (r, Inr ())
      | Inl e \<Rightarrow>
          (r\<lparr>rec_state := RecFailed\<rparr>,
           Inl \<lparr>err_stage = st, err_failure = Io e, err_summary = summary r\<rparr>))"

definition with_sample_rate ::
  "('a, 'b, 'c) outputs \<Rightarrow> ConnectionId \<Rightarrow> SampleRate \<Rightarrow> 'a \<Rightarrow> 'b \<Rightarrow> 'c
     \<Rightarrow> (('a, 'b, 'c) Recording \<times> (RecordingError + unit)) effect" where
  "with_sample_rate k i rate a b c =
     (let r = \<lparr>rec_id = i, sample_rate = rate, wire = a, wave = b, events = c,
               rec_state = AwaitingConnection, last_event_offset = 0,
               summary = RecordingSummary_default\<rparr> in
      and_then (Some (wave_header 0 rate)) (\<lambda>h.
        case h of
          Inl v \<Rightarrow> (case invalid r v of (r', e) \<Rightarrow> yields (r', Inl e))
        | Inr hdr \<Rightarrow>
            and_then (write_count (wave_out k) (wave r) hdr (header_bytes (summary r))) (\<lambda>(b', n, res).
              yields (output_result (r\<lparr>wave := b', summary := (summary r)\<lparr>header_bytes := n\<rparr>\<rparr>) StHeader res))))"

definition Recording_new ::
  "('a, 'b, 'c) outputs \<Rightarrow> ConnectionId \<Rightarrow> 'a \<Rightarrow> 'b \<Rightarrow> 'c
     \<Rightarrow> (('a, 'b, 'c) Recording \<times> (RecordingError + unit)) effect" where
  "Recording_new k i a b c = with_sample_rate k i Khz8 a b c"

text \<open>The payload of a record, written before its description; the stage is the one reported on failure.\<close>

definition write_payload ::
  "('a, 'b, 'c) outputs \<Rightarrow> ('a, 'b, 'c) Recording \<Rightarrow> RecordKind
     \<Rightarrow> (('a, 'b, 'c) Recording \<times> RecordingStage \<times> (io_error + unit)) effect" where
  "write_payload k r kind =
     (case kind of
        RWire b \<Rightarrow>
          and_then (write_count (wire_out k) (wire r) (as_slice b) (wire_bytes (summary r))) (\<lambda>(a', n, res).
            yields (r\<lparr>wire := a', summary := (summary r)\<lparr>wire_bytes := n\<rparr>\<rparr>, StWire, res))
      | RAudio u rate b \<Rightarrow>
          and_then (write_count (wave_out k) (wave r) (as_slice b) (audio_bytes (summary r))) (\<lambda>(b', n, res).
            yields (r\<lparr>wave := b', summary := (summary r)\<lparr>audio_bytes := n\<rparr>\<rparr>, StAudio, res))
      | _ \<Rightarrow> yields (r, StEvents, Inr ()))"

definition write_description ::
  "('a, 'b, 'c) outputs \<Rightarrow> debug_texts \<Rightarrow> ('a, 'b, 'c) Recording \<Rightarrow> Record
     \<Rightarrow> (('a, 'b, 'c) Recording \<times> (RecordingError + unit)) effect" where
  "write_description k d r x =
     and_then (write_count (events_out k) (events r) (as_bytes (description_line d (rec_id r) x))
                (event_bytes (summary r))) (\<lambda>(c', n, res).
       yields (output_result (r\<lparr>events := c', summary := (summary r)\<lparr>event_bytes := n\<rparr>\<rparr>) StEvents res))"

definition record_accepted :: "('a, 'b, 'c) Recording \<Rightarrow> Record \<Rightarrow> RecState \<Rightarrow> ('a, 'b, 'c) Recording" where
  "record_accepted r x next =
     (let r1 = (case rec_kind x of
                  RWire b \<Rightarrow> r
                | _ \<Rightarrow> r\<lparr>last_event_offset := offset_get (rec_offset x)\<rparr>);
          r2 = (case rec_kind x of
                  REnded u reason \<Rightarrow> r1\<lparr>summary := (summary r1)\<lparr>rec_end := Observed (TerminalKind_from reason)\<rparr>\<rparr>
                | _ \<Rightarrow> r1)
      in r2\<lparr>rec_state := next\<rparr>)"

definition record_one ::
  "('a, 'b, 'c) outputs \<Rightarrow> debug_texts \<Rightarrow> ('a, 'b, 'c) Recording \<Rightarrow> Record
     \<Rightarrow> (('a, 'b, 'c) Recording \<times> (RecordingError + unit)) effect" where
  "record_one k d r x =
     and_then (Some (validate r x)) (\<lambda>v.
       case v of
         Inl violation \<Rightarrow> (case invalid r violation of (r', e) \<Rightarrow> yields (r', Inl e))
       | Inr next \<Rightarrow>
           and_then (write_payload k r (rec_kind x)) (\<lambda>(r1, st, res).
             case output_result r1 st res of
               (r2, Inl e) \<Rightarrow> yields (r2, Inl e)
             | (r2, Inr _) \<Rightarrow>
                 and_then (write_description k d r2 x) (\<lambda>(r3, res3).
                   case res3 of
                     Inl e \<Rightarrow> yields (r3, Inl e)
                   | Inr _ \<Rightarrow> yields (record_accepted r3 x next, Inr ()))))"

text \<open>One fallible call on a writer during finalization.\<close>

definition finish_flushes ::
  "('a, 'b, 'c) outputs \<Rightarrow> ('a, 'b, 'c) Recording \<Rightarrow> ('a, 'b, 'c) Recording \<times> (RecordingError + RecordingSummary)" where
  "finish_flushes k r =
     (case out_flush (wire_out k) (wire r) of (a, res) \<Rightarrow>
      (case output_result (r\<lparr>wire := a\<rparr>) FlushWire res of
         (r1, Inl e) \<Rightarrow> (r1, Inl e)
       | (r1, Inr _) \<Rightarrow>
         (case out_flush (wave_out k) (wave r1) of (b, res) \<Rightarrow>
          (case output_result (r1\<lparr>wave := b\<rparr>) FlushWave res of
             (r2, Inl e) \<Rightarrow> (r2, Inl e)
           | (r2, Inr _) \<Rightarrow>
             (case out_flush (events_out k) (events r2) of (c, res) \<Rightarrow>
              (case output_result (r2\<lparr>events := c\<rparr>) FlushEvents res of
                 (r3, Inl e) \<Rightarrow> (r3, Inl e)
               | (r3, Inr _) \<Rightarrow> (r3, Inr (summary r3))))))))"

definition finish_recording ::
  "('a, 'b, 'c) outputs \<Rightarrow> ('a, 'b, 'c) Recording
     \<Rightarrow> (('a, 'b, 'c) Recording \<times> (RecordingError + RecordingSummary)) effect" where
  "finish_recording k r =
     (if rec_state r = RecFailed
      then (case invalid r AfterFailure of (r', e) \<Rightarrow> yields (r', Inl e))
      else and_then (Some (wave_header (audio_bytes (summary r)) (sample_rate r))) (\<lambda>h.
        case h of
          Inl v \<Rightarrow> (case invalid r v of (r', e) \<Rightarrow> yields (r', Inl e))
        | Inr hdr \<Rightarrow>
            (case out_rewind (wave_out k) (wave r) of (b, res) \<Rightarrow>
             (case output_result (r\<lparr>wave := b\<rparr>) StSeek res of
                (r1, Inl e) \<Rightarrow> yields (r1, Inl e)
              | (r1, Inr _) \<Rightarrow>
                  and_then (write_count (wave_out k) (wave r1) hdr (patch_bytes (summary r1))) (\<lambda>(b', n, res).
                    case output_result (r1\<lparr>wave := b', summary := (summary r1)\<lparr>patch_bytes := n\<rparr>\<rparr>) StPatch res of
                      (r2, Inl e) \<Rightarrow> yields (r2, Inl e)
                    | (r2, Inr _) \<Rightarrow> yields (finish_flushes k r2))))))"

section \<open>Facts about the header\<close>

text \<open>The forty-four bytes a header for \<open>n\<close> bytes of samples consists of.\<close>

definition header_of :: "nat \<Rightarrow> SampleRate \<Rightarrow> bytes" where
  "header_of n rate =
     as_bytes ''RIFF'' @ to_le_bytes32 (word_of_nat (n + 36)) @ as_bytes ''WAVE'' @ as_bytes ''fmt '' @
     to_le_bytes32 16 @ to_le_bytes16 1 @ to_le_bytes16 1 @ to_le_bytes32 (hertz rate) @
     to_le_bytes32 (hertz rate * 2) @ to_le_bytes16 2 @ to_le_bytes16 16 @ as_bytes ''data'' @
     to_le_bytes32 (word_of_nat n)"

lemma length_header_of [simp]: "length (header_of n rate) = 44"
  by (simp add: header_of_def as_bytes_def)

lemma copy_next:
  assumes "length pre = i" "length bs = j - i" "m = 44 - i" "i \<le> j" "j \<le> 44"
  shows "copy_from_slice (pre @ replicate m (0::u8)) i j bs = Some ((pre @ bs) @ replicate (44 - j) 0)"
  using assms by (simp add: copy_from_slice_def put_slice_def)

lemma byte_rate: "mul_u32 (hertz rate) 2 = Some (hertz rate * 2)"
  by (cases rate) (simp_all add: mul_u32_def U32_MAX_def)

lemma wave_header_eval:
  "wave_header n rate = Some (if n + 36 \<le> U32_MAX then Inr (header_of n rate) else Inl WaveSize)"
proof (cases "n + 36 \<le> U32_MAX")
  case False
  then show ?thesis by (simp add: wave_header_def try_from_def checked_add_def RIFF_OVERHEAD_def)
next
  case True
  have start: "replicate WAVE_HEADER_BYTES (0::u8) = [] @ replicate 44 0"
    by (simp add: WAVE_HEADER_BYTES_def)
  have tags: "as_bytes ''RIFF'' = [82, 73, 70, 70]" "as_bytes ''WAVE'' = [87, 65, 86, 69]"
    "as_bytes ''fmt '' = [102, 109, 116, 32]" "as_bytes ''data'' = [100, 97, 116, 97]"
    by (simp_all add: as_bytes_def)
  show ?thesis using True
    by (simp add: wave_header_def try_from_def checked_add_def RIFF_OVERHEAD_def start copy_next Let_def
        byte_rate tags header_of_def FORMAT_BYTES_def PCM_FORMAT_def CHANNELS_def SAMPLE_BYTES_def
        SAMPLE_BITS_def del: append_assoc append_Cons append_Nil replicate.simps)
       simp
qed

section \<open>The contract of a writer\<close>

text \<open>
  \<open>content\<close> is what a writer has accepted up to its position, and \<open>patience\<close> bounds how often it
  can still be interrupted: the contract of \<open>Write\<close> together with the fact that signals do not
  interrupt a write for ever.
\<close>

locale writer =
  fixes k :: "'w sink" and content :: "'w \<Rightarrow> bytes" and patience :: "'w \<Rightarrow> nat" and sound :: "'w \<Rightarrow> bool"
  assumes write_ok: "\<lbrakk>sound w; out_write k w bs = (w', Inr n)\<rbrakk> \<Longrightarrow>
      n \<le> length bs \<and> content w' = content w @ take n bs \<and> patience w' \<le> patience w"
    and write_err: "\<lbrakk>sound w; out_write k w bs = (w', Inl e)\<rbrakk> \<Longrightarrow>
      content w' = content w \<and> (io_kind e = Interrupted \<longrightarrow> patience w' < patience w)"
    and write_sound: "\<lbrakk>sound w; out_write k w bs = (w', res)\<rbrakk> \<Longrightarrow> sound w'"
    and flush_same: "\<lbrakk>sound w; out_flush k w = (w', fres)\<rbrakk> \<Longrightarrow> content w' = content w \<and> sound w'"
begin

text \<open>A counted write ends, accepts a prefix, counts exactly that prefix, and succeeds only with all of it.\<close>

lemma write_loop_accepts:
  "sound w \<Longrightarrow> \<exists>w' m res. write_loop k w bs c = Some (Some (w', c + m, res)) \<and> sound w' \<and> m \<le> length bs \<and>
     content w' = content w @ take m bs \<and> (res = Inr () \<longleftrightarrow> m = length bs)"
proof (induction "length bs + patience w" arbitrary: w bs c rule: less_induct)
  case less
  show ?case
  proof (cases "bs = []")
    case True
    then show ?thesis using less.prems by (auto simp: write_loop.simps [of k w "[]"])
  next
    case False
    obtain w1 r where out: "out_write k w bs = (w1, r)" by fastforce
    have s1: "sound w1" using write_sound [OF less.prems out] .
    show ?thesis
    proof (cases r)
      case (Inl e)
      note err = write_err [OF less.prems out [unfolded Inl]]
      show ?thesis
      proof (cases "io_kind e = Interrupted")
        case True
        then have "length bs + patience w1 < length bs + patience w" using err by simp
        from less.hyps [OF this s1, of c] show ?thesis
          using err False out Inl True by (simp add: write_loop.simps [of k w bs])
      next
        case int: False
        then show ?thesis using err False out Inl s1
          by (auto simp: write_loop.simps [of k w bs] intro: exI [of _ 0])
      qed
    next
      case (Inr n)
      note ok = write_ok [OF less.prems out [unfolded Inr]]
      show ?thesis
      proof (cases "n = 0")
        case True
        then show ?thesis using ok False out Inr s1
          by (auto simp: write_loop.simps [of k w bs] intro: exI [of _ 0])
      next
        case pos: False
        then have "length (drop n bs) + patience w1 < length bs + patience w" using ok False by auto
        from less.hyps [OF this s1, of "c + n"] obtain w2 m res where
          w2: "write_loop k w1 (drop n bs) (c + n) = Some (Some (w2, c + n + m, res))" "sound w2"
            "m \<le> length (drop n bs)" "content w2 = content w1 @ take m (drop n bs)"
            "res = Inr () \<longleftrightarrow> m = length (drop n bs)" by blast
        have "write_loop k w bs c = Some (Some (w2, c + (n + m), res))"
          using False out Inr pos ok w2(1) by (simp add: write_loop.simps [of k w bs] add.assoc not_less)
        moreover have "content w2 = content w @ take (n + m) bs" using ok w2(4) by (simp add: take_add)
        ultimately show ?thesis using w2 ok by (intro exI [of _ w2] exI [of _ "n + m"] exI [of _ res]) auto
      qed
    qed
  qed
qed

lemma write_count_accepts:
  assumes "sound w"
  obtains w' m res where "write_count k w bs c = Some (Some (w', c + m, res))" "sound w'" "m \<le> length bs"
    "content w' = content w @ take m bs" "res = Inr () \<longrightarrow> m = length bs"
proof (cases "c + length bs \<le> U64_MAX")
  case True
  then have "write_count k w bs c = write_loop k w bs c"
    by (simp add: write_count_def try_from_def checked_add_def)
  with write_loop_accepts [OF assms, of bs c] that show ?thesis by metis
next
  case False
  then have "write_count k w bs c = Some (Some (w, c + 0, Inl error_other))"
    by (simp add: write_count_def try_from_def checked_add_def yields_def)
  with that [of w 0 "Inl error_other"] assms False show ?thesis by simp
qed

end

text \<open>
  A writer that can also be rewound: \<open>beyond\<close> is what is stored after the position, which
  writing replaces from the front.
\<close>

locale seekable = writer k content patience sound
  for k :: "'w sink" and content :: "'w \<Rightarrow> bytes" and patience :: "'w \<Rightarrow> nat" and sound :: "'w \<Rightarrow> bool" +
  fixes beyond :: "'w \<Rightarrow> bytes"
  assumes beyond_ok: "\<lbrakk>sound w; out_write k w bs = (w', Inr n)\<rbrakk> \<Longrightarrow> beyond w' = drop n (beyond w)"
    and beyond_err: "\<lbrakk>sound w; out_write k w bs = (w', Inl e)\<rbrakk> \<Longrightarrow> beyond w' = beyond w"
    and rewind_ok: "\<lbrakk>sound w; out_rewind k w = (w', Inr u)\<rbrakk> \<Longrightarrow>
      content w' = [] \<and> beyond w' = content w @ beyond w"
    and rewind_sound: "\<lbrakk>sound w; out_rewind k w = (w', sres)\<rbrakk> \<Longrightarrow> sound w'"
    and flush_beyond: "\<lbrakk>sound w; out_flush k w = (w', fres)\<rbrakk> \<Longrightarrow> beyond w' = beyond w"
begin

lemma write_loop_beyond:
  "\<lbrakk>sound w; write_loop k w bs c = Some (Some (w', c', res))\<rbrakk> \<Longrightarrow> beyond w' = drop (c' - c) (beyond w) \<and> c \<le> c'"
proof (induction "length bs + patience w" arbitrary: w bs c rule: less_induct)
  case less
  show ?case
  proof (cases "bs = []")
    case True
    then show ?thesis using less.prems(2) by (simp add: write_loop.simps [of k w "[]"])
  next
    case False
    obtain w1 r where out: "out_write k w bs = (w1, r)" by fastforce
    have s1: "sound w1" using write_sound [OF less.prems(1) out] .
    show ?thesis
    proof (cases r)
      case (Inl e)
      note err = write_err [OF less.prems(1) out [unfolded Inl]] beyond_err [OF less.prems(1) out [unfolded Inl]]
      show ?thesis
      proof (cases "io_kind e = Interrupted")
        case True
        then have lt: "length bs + patience w1 < length bs + patience w" using err(1) by simp
        have "write_loop k w1 bs c = Some (Some (w', c', res))"
          using less.prems(2) False out Inl True by (simp add: write_loop.simps [of k w bs])
        from less.hyps [OF lt s1 this] show ?thesis by (simp add: err(2))
      next
        case int: False
        then show ?thesis using less.prems(2) err(2) False out Inl by (simp add: write_loop.simps [of k w bs])
      qed
    next
      case (Inr n)
      note ok = write_ok [OF less.prems(1) out [unfolded Inr]] beyond_ok [OF less.prems(1) out [unfolded Inr]]
      show ?thesis
      proof (cases "n = 0")
        case True
        then show ?thesis using less.prems(2) ok False out Inr by (simp add: write_loop.simps [of k w bs])
      next
        case pos: False
        then have lt: "length (drop n bs) + patience w1 < length bs + patience w" using ok False by auto
        have "write_loop k w1 (drop n bs) (c + n) = Some (Some (w', c', res))"
          using less.prems(2) False out Inr pos ok by (simp add: write_loop.simps [of k w bs] split: if_splits)
        from less.hyps [OF lt s1 this] show ?thesis by (simp add: ok(2))
      qed
    qed
  qed
qed

lemma write_count_beyond:
  "\<lbrakk>sound w; write_count k w bs c = Some (Some (w', c + m, res))\<rbrakk> \<Longrightarrow> beyond w' = drop m (beyond w)"
  using write_loop_beyond [of w bs c w' "c + m" res]
  by (auto simp: write_count_def yields_def split: option.splits)

end

section \<open>What a recording holds\<close>

fun wire_part :: "RecordKind \<Rightarrow> bytes" where
  "wire_part (RWire b) = as_slice b"
| "wire_part _ = []"

fun audio_part :: "RecordKind \<Rightarrow> bytes" where
  "audio_part (RAudio u r b) = as_slice b"
| "audio_part _ = []"

lemma validate_total: "\<exists>v. validate r x = Some v"
  by (auto simp: validate_def Let_def wave_header_eval split: RecordKind.split option.split)

lemma validate_audio:
  assumes "validate r x = Some (Inr st)"
  shows "36 + audio_bytes (summary r) + length (audio_part (rec_kind x)) \<le> U32_MAX \<or> audio_part (rec_kind x) = []"
  using assms
  by (cases "rec_kind x")
     (auto simp: validate_def Let_def wave_header_eval checked_simps split: if_splits option.splits)

lemma output_result_simps [simp]:
  "output_result r st (Inr u) = (r, Inr ())"
  "output_result r st (Inl e) =
     (r\<lparr>rec_state := RecFailed\<rparr>, Inl \<lparr>err_stage = st, err_failure = Io e, err_summary = summary r\<rparr>)"
  by (simp_all add: output_result_def)

text \<open>A failed recording refuses everything and touches no writer.\<close>

lemma record_one_failed:
  assumes "rec_state r = RecFailed"
  shows "record_one k d r x =
    Some (Some (r, Inl \<lparr>err_stage = Validate, err_failure = Invalid AfterFailure, err_summary = summary r\<rparr>))"
  using assms by (simp add: record_one_def validate_def Let_def invalid_def yields_def)

fun record_all ::
  "('a, 'b, 'c) outputs \<Rightarrow> debug_texts \<Rightarrow> ('a, 'b, 'c) Recording \<Rightarrow> Record list
     \<Rightarrow> (('a, 'b, 'c) Recording \<times> (RecordingError + unit) list) effect" where
  "record_all k d r [] = yields (r, [])"
| "record_all k d r (x # xs) =
     and_then (record_one k d r x) (\<lambda>(r1, res).
       and_then (record_all k d r1 xs) (\<lambda>(r2, ress). yields (r2, res # ress)))"

lemma record_all_failed:
  assumes "rec_state r = RecFailed"
  shows "record_all k d r xs = Some (Some (r, map (\<lambda>x. Inl \<lparr>err_stage = Validate,
    err_failure = Invalid AfterFailure, err_summary = summary r\<rparr>) xs))"
  using assms by (induction xs) (simp_all add: record_one_failed yields_def)

definition accepted_count :: "('e + unit) list \<Rightarrow> nat" where
  "accepted_count ress = length (takeWhile (\<lambda>x. \<not> isl x) ress)"

text \<open>The payloads of the accepted records, and at most a prefix of the first refused one.\<close>

definition accepted_prefix :: "(RecordKind \<Rightarrow> bytes) \<Rightarrow> Record list \<Rightarrow> nat \<Rightarrow> bytes \<Rightarrow> bool" where
  "accepted_prefix part xs j B \<longleftrightarrow>
     prefix (concat (map (\<lambda>x. part (rec_kind x)) (take j xs))) B \<and>
     prefix B (concat (map (\<lambda>x. part (rec_kind x)) (take (Suc j) xs)))"

lemma accepted_prefix_Cons:
  "accepted_prefix part (x # xs) (Suc j) (part (rec_kind x) @ B) \<longleftrightarrow> accepted_prefix part xs j B"
  by (simp add: accepted_prefix_def)

lemma accepted_prefix_0: "accepted_prefix part (x # xs) 0 (take m (part (rec_kind x)))"
  by (simp add: accepted_prefix_def take_is_prefix)

locale recorder =
  wire: writer "wire_out k" cw pw sw + wave: seekable "wave_out k" cv pv sv bv + events: writer "events_out k" ce pe se
  for k :: "('a, 'b, 'c) outputs" and cw pw sw cv pv sv bv ce pe se
begin

text \<open>\<open>W\<close> and \<open>A\<close> are the transport and sample bytes the writers have accepted.\<close>

definition holds :: "SampleRate \<Rightarrow> ('a, 'b, 'c) Recording \<Rightarrow> bytes \<Rightarrow> bytes \<Rightarrow> bool" where
  "holds rate r W A \<longleftrightarrow>
     sw (wire r) \<and> sv (wave r) \<and> se (events r) \<and> cw (wire r) = W \<and> length W = wire_bytes (summary r) \<and>
     (\<exists>H. length H = 44 \<and> cv (wave r) = H @ A) \<and> bv (wave r) = [] \<and>
     length A = audio_bytes (summary r) \<and> 36 + length A \<le> U32_MAX \<and>
     patch_bytes (summary r) = 0 \<and> sample_rate r = rate"

lemma holds_fields:
  assumes "holds rate r W A"
  shows "holds rate (r\<lparr>rec_state := st\<rparr>) W A" "holds rate (r\<lparr>last_event_offset := n\<rparr>) W A"
    "holds rate (r\<lparr>summary := (summary r)\<lparr>rec_end := z\<rparr>\<rparr>) W A"
  using assms by (simp_all add: holds_def)

lemma write_payload_holds:
  assumes hold: "holds rate r W A" and v: "validate r x = Some (Inr st)"
  shows "\<exists>r' res stg m n. write_payload k r (rec_kind x) = Some (Some (r', stg, res)) \<and>
    holds rate r' (W @ take m (wire_part (rec_kind x))) (A @ take n (audio_part (rec_kind x))) \<and>
    (res = Inr () \<longrightarrow> length (wire_part (rec_kind x)) \<le> m \<and> length (audio_part (rec_kind x)) \<le> n)"
proof (cases "rec_kind x")
  case (RWire b)
  have "sw (wire r)" using hold by (simp add: holds_def)
  then obtain w' m res where w: "write_count (wire_out k) (wire r) (as_slice b) (wire_bytes (summary r)) =
      Some (Some (w', wire_bytes (summary r) + m, res))" "sw w'" "m \<le> length (as_slice b)"
    "cw w' = cw (wire r) @ take m (as_slice b)" "res = Inr () \<longrightarrow> m = length (as_slice b)"
    by (rule wire.write_count_accepts [of "wire r" "as_slice b" "wire_bytes (summary r)"])
  let ?r = "r\<lparr>wire := w', summary := (summary r)\<lparr>wire_bytes := wire_bytes (summary r) + m\<rparr>\<rparr>"
  have "holds rate ?r (W @ take m (as_slice b)) A" using hold w by (simp add: holds_def)
  then show ?thesis using w RWire
    by (intro exI [of _ ?r] exI [of _ res] exI [of _ StWire] exI [of _ m] exI [of _ 0])
       (simp add: write_payload_def yields_def)
next
  case (RAudio u rt b)
  have "sv (wave r)" using hold by (simp add: holds_def)
  then obtain w' m res where w: "write_count (wave_out k) (wave r) (as_slice b) (audio_bytes (summary r)) =
      Some (Some (w', audio_bytes (summary r) + m, res))" "sv w'" "m \<le> length (as_slice b)"
    "cv w' = cv (wave r) @ take m (as_slice b)" "res = Inr () \<longrightarrow> m = length (as_slice b)"
    by (rule wave.write_count_accepts [of "wave r" "as_slice b" "audio_bytes (summary r)"])
  have bv: "bv w' = []"
    using wave.write_count_beyond [OF \<open>sv (wave r)\<close> w(1)] hold by (simp add: holds_def)
  have fit: "36 + audio_bytes (summary r) + m \<le> U32_MAX"
    using validate_audio [OF v] w(3) RAudio hold by (auto simp: holds_def)
  let ?r = "r\<lparr>wave := w', summary := (summary r)\<lparr>audio_bytes := audio_bytes (summary r) + m\<rparr>\<rparr>"
  have "holds rate ?r W (A @ take m (as_slice b))" using hold w bv fit by (auto simp: holds_def)
  then show ?thesis using w RAudio
    by (intro exI [of _ ?r] exI [of _ res] exI [of _ StAudio] exI [of _ 0] exI [of _ m])
       (simp add: write_payload_def yields_def)
qed (use hold in \<open>auto simp: write_payload_def yields_def intro!: exI [of _ r] exI [of _ 0]\<close>)

lemma write_description_holds:
  assumes hold: "holds rate r W A"
  shows "\<exists>r' res. write_description k d r x = Some (Some (r', res)) \<and> holds rate r' W A \<and>
    (case res of Inl e \<Rightarrow> rec_state r' = RecFailed | Inr u \<Rightarrow> True)"
proof -
  have "se (events r)" using hold by (simp add: holds_def)
  then obtain w' m res where w: "write_count (events_out k) (events r) (as_bytes (description_line d (rec_id r) x))
      (event_bytes (summary r)) = Some (Some (w', event_bytes (summary r) + m, res))" "se w'"
    by (rule events.write_count_accepts)
  show ?thesis using hold w
    by (cases res) (simp_all add: write_description_def yields_def holds_def)
qed

lemma record_one_holds:
  assumes hold: "holds rate r W A"
  shows "\<exists>r' res m n. record_one k d r x = Some (Some (r', res)) \<and>
    holds rate r' (W @ take m (wire_part (rec_kind x))) (A @ take n (audio_part (rec_kind x))) \<and>
    (case res of
       Inl e \<Rightarrow> rec_state r' = RecFailed
     | Inr u \<Rightarrow> length (wire_part (rec_kind x)) \<le> m \<and> length (audio_part (rec_kind x)) \<le> n)"
proof -
  obtain v where v: "validate r x = Some v" using validate_total by blast
  show ?thesis
  proof (cases v)
    case (Inl viol)
    then show ?thesis using v hold holds_fields(1) [OF hold]
      by (auto simp: record_one_def invalid_def yields_def intro!: exI [of _ 0])
  next
    case (Inr st)
    obtain r1 res stg m n where p: "write_payload k r (rec_kind x) = Some (Some (r1, stg, res))"
      "holds rate r1 (W @ take m (wire_part (rec_kind x))) (A @ take n (audio_part (rec_kind x)))"
      "res = Inr () \<longrightarrow> length (wire_part (rec_kind x)) \<le> m \<and> length (audio_part (rec_kind x)) \<le> n"
      using write_payload_holds [OF hold v [unfolded Inr]] by blast
    show ?thesis
    proof (cases res)
      case (Inl e)
      then show ?thesis using v Inr p holds_fields(1) [OF p(2)] by (auto simp: record_one_def yields_def)
    next
      case res: (Inr u)
      obtain r3 res3 where q: "write_description k d r1 x = Some (Some (r3, res3))"
        "holds rate r3 (W @ take m (wire_part (rec_kind x))) (A @ take n (audio_part (rec_kind x)))"
        "case res3 of Inl e \<Rightarrow> rec_state r3 = RecFailed | Inr u \<Rightarrow> True"
        using write_description_holds [OF p(2)] by blast
      have acc: "holds rate (record_accepted r3 x st) (W @ take m (wire_part (rec_kind x))) (A @ take n (audio_part (rec_kind x)))"
        using q(2) by (auto simp: record_accepted_def Let_def holds_def split: RecordKind.split)
      show ?thesis
      proof (cases res3)
        case (Inl e)
        then have "record_one k d r x = Some (Some (r3, res3))"
          using v Inr p(1) q(1) res by (simp add: record_one_def yields_def)
        moreover have "rec_state r3 = RecFailed" using q(3) Inl by simp
        ultimately show ?thesis using q(2) Inl by (metis sum.case(1))
      next
        case r3: (Inr u3)
        then have "record_one k d r x = Some (Some (record_accepted r3 x st, Inr ()))"
          using v Inr p(1) q(1) res by (simp add: record_one_def yields_def)
        moreover have "length (wire_part (rec_kind x)) \<le> m \<and> length (audio_part (rec_kind x)) \<le> n"
          using p(3) res by simp
        ultimately show ?thesis using acc by (metis sum.case(2))
      qed
    qed
  qed
qed

lemma with_sample_rate_holds:
  assumes "sw a" "cw a = []" "sv b" "cv b = []" "bv b = []" "se c"
  shows "\<exists>r res. with_sample_rate k i rate a b c = Some (Some (r, res)) \<and>
    (\<not> isl res \<longrightarrow> holds rate r [] [] \<and> rec_state r = AwaitingConnection \<and> rec_id r = i)"
proof -
  have hdr: "wave_header 0 rate = Some (Inr (header_of 0 rate))" by (simp add: wave_header_eval U32_MAX_def)
  obtain w' m res where w: "write_count (wave_out k) b (header_of 0 rate) 0 = Some (Some (w', 0 + m, res))" "sv w'"
    "m \<le> length (header_of 0 rate)" "cv w' = cv b @ take m (header_of 0 rate)"
    "res = Inr () \<longrightarrow> m = length (header_of 0 rate)"
    by (rule wave.write_count_accepts [OF assms(3), of "header_of 0 rate" 0])
  have "bv w' = []" using wave.write_count_beyond [OF assms(3) w(1)] assms(5) by simp
  with w assms hdr show ?thesis
    by (cases res) (simp_all add: with_sample_rate_def Let_def RecordingSummary_default_def yields_def holds_def U32_MAX_def)
qed

lemma record_all_holds:
  assumes "holds rate r W A"
  shows "\<exists>r' ress W' A'. record_all k d r xs = Some (Some (r', ress)) \<and> length ress = length xs \<and>
    holds rate r' (W @ W') (A @ A') \<and>
    accepted_prefix wire_part xs (accepted_count ress) W' \<and> accepted_prefix audio_part xs (accepted_count ress) A' \<and>
    (\<forall>y \<in> set (drop (accepted_count ress) ress). isl y) \<and>
    (accepted_count ress < length xs \<longrightarrow> rec_state r' = RecFailed)"
  using assms
proof (induction xs arbitrary: r W A)
  case Nil
  then show ?case by (auto simp: yields_def accepted_count_def accepted_prefix_def)
next
  case (Cons x xs)
  obtain r1 res m n where one: "record_one k d r x = Some (Some (r1, res))"
    and hold1: "holds rate r1 (W @ take m (wire_part (rec_kind x))) (A @ take n (audio_part (rec_kind x)))"
    and res: "case res of Inl e \<Rightarrow> rec_state r1 = RecFailed
      | Inr u \<Rightarrow> length (wire_part (rec_kind x)) \<le> m \<and> length (audio_part (rec_kind x)) \<le> n"
    using record_one_holds [OF Cons.prems, of d x] by blast
  show ?case
  proof (cases res)
    case (Inl e)
    then have "rec_state r1 = RecFailed" using res by simp
    then have all: "record_all k d r (x # xs) = Some (Some (r1, res # map (\<lambda>x. Inl \<lparr>err_stage = Validate,
        err_failure = Invalid AfterFailure, err_summary = summary r1\<rparr>) xs))" (is "_ = Some (Some (_, res # ?ress))")
      using one by (simp add: record_all_failed yields_def)
    show ?thesis
      by (rule exI [of _ r1], rule exI [of _ "res # ?ress"], rule exI [of _ "take m (wire_part (rec_kind x))"],
          rule exI [of _ "take n (audio_part (rec_kind x))"])
         (use all Inl hold1 \<open>rec_state r1 = RecFailed\<close> in \<open>auto simp: accepted_count_def accepted_prefix_0\<close>)
  next
    case (Inr u)
    then have full: "take m (wire_part (rec_kind x)) = wire_part (rec_kind x)"
      "take n (audio_part (rec_kind x)) = audio_part (rec_kind x)" using res by simp_all
    from Cons.IH [OF hold1] obtain r2 ress W' A' where ih: "record_all k d r1 xs = Some (Some (r2, ress))"
      "length ress = length xs"
      "holds rate r2 ((W @ wire_part (rec_kind x)) @ W') ((A @ audio_part (rec_kind x)) @ A')"
      "accepted_prefix wire_part xs (accepted_count ress) W'" "accepted_prefix audio_part xs (accepted_count ress) A'"
      "\<forall>y \<in> set (drop (accepted_count ress) ress). isl y"
      "accepted_count ress < length xs \<longrightarrow> rec_state r2 = RecFailed"
      unfolding full by blast
    have j: "accepted_count (res # ress) = Suc (accepted_count ress)" using Inr by (simp add: accepted_count_def)
    show ?thesis
      by (rule exI [of _ r2], rule exI [of _ "res # ress"], rule exI [of _ "wire_part (rec_kind x) @ W'"],
          rule exI [of _ "audio_part (rec_kind x) @ A'"])
         (use one ih in \<open>simp add: yields_def j accepted_prefix_Cons\<close>)
  qed
qed

lemma finish_recording_holds:
  assumes hold: "holds rate r W A" and alive: "rec_state r \<noteq> RecFailed"
  shows "\<exists>r' res. finish_recording k r = Some (Some (r', res)) \<and>
    (\<forall>z. res = Inr z \<longrightarrow> cw (wire r') = W \<and> cv (wave r') @ bv (wave r') = header_of (length A) rate @ A \<and>
       z = (summary r)\<lparr>patch_bytes := 44\<rparr>)"
proof -
  obtain H where H: "length H = 44" "cv (wave r) = H @ A" "bv (wave r) = []" and s: "sv (wave r)" "sw (wire r)"
    and A: "length A = audio_bytes (summary r)" "36 + length A \<le> U32_MAX" "sample_rate r = rate"
    and W: "cw (wire r) = W" "patch_bytes (summary r) = 0"
    using hold by (auto simp: holds_def)
  have hdr: "wave_header (audio_bytes (summary r)) (sample_rate r) = Some (Inr (header_of (length A) rate))"
    using A by (simp add: wave_header_eval)
  obtain b res where rew: "out_rewind (wave_out k) (wave r) = (b, res)" by fastforce
  show ?thesis
  proof (cases res)
    case (Inl e)
    then show ?thesis using alive hdr rew by (simp add: finish_recording_def yields_def)
  next
    case (Inr u)
    note rw = wave.rewind_ok [OF s(1) rew [unfolded Inr]] wave.rewind_sound [OF s(1) rew]
    obtain w' m res2 where w: "write_count (wave_out k) b (header_of (length A) rate) 0 = Some (Some (w', 0 + m, res2))"
      "sv w'" "cv w' = cv b @ take m (header_of (length A) rate)" "res2 = Inr () \<longrightarrow> m = length (header_of (length A) rate)"
      by (rule wave.write_count_accepts [of b "header_of (length A) rate" 0]) (use rw in auto)
    have bw: "bv w' = drop m (H @ A)"
      using wave.write_count_beyond [OF _ w(1)] rw H by simp
    show ?thesis
    proof (cases res2)
      case res2: (Inl e)
      then show ?thesis using alive hdr rew Inr w(1) W by (simp add: finish_recording_def yields_def)
    next
      case res2: (Inr u2)
      then have m: "m = 44" using w(4) by simp
      have img: "cv w' @ bv w' = header_of (length A) rate @ A" using w(3) rw bw H m by simp
      let ?r2 = "r\<lparr>wave := w', summary := (summary r)\<lparr>patch_bytes := 44\<rparr>\<rparr>"
      have eval: "finish_recording k r = Some (Some (finish_flushes k ?r2))"
        using alive hdr rew Inr w(1) W res2 m by (simp add: finish_recording_def yields_def)
      obtain a fa where fa: "out_flush (wire_out k) (wire r) = (a, fa)" by fastforce
      obtain v fv where fv: "out_flush (wave_out k) w' = (v, fv)" by fastforce
      obtain c fc where fc: "out_flush (events_out k) (events r) = (c, fc)" by fastforce
      note keep = wire.flush_same [OF s(2) fa] wave.flush_same [OF w(2) fv] wave.flush_beyond [OF w(2) fv]
      show ?thesis
        by (cases fa; cases fv; cases fc)
           (simp_all add: eval finish_flushes_def fa fv fc keep img W)
    qed
  qed
qed

text \<open>Whatever creating and finishing a recording return, its writers stay sound.\<close>

definition writers_sound :: "('a, 'b, 'c) Recording \<Rightarrow> bool" where
  "writers_sound r \<longleftrightarrow> sw (wire r) \<and> sv (wave r) \<and> se (events r)"

lemma holds_sound: "holds rate r W A \<Longrightarrow> writers_sound r"
  by (auto simp: holds_def writers_sound_def)

lemma with_sample_rate_sound:
  assumes "sw a" "sv b" "se c" "with_sample_rate k i rate a b c = Some (Some (r, res))"
  shows "writers_sound r"
proof -
  have hdr: "wave_header 0 rate = Some (Inr (header_of 0 rate))" by (simp add: wave_header_eval U32_MAX_def)
  obtain w' m res' where w: "write_count (wave_out k) b (header_of 0 rate) 0 = Some (Some (w', 0 + m, res'))" "sv w'"
    by (rule wave.write_count_accepts [OF assms(2), of "header_of 0 rate" 0])
  from assms w hdr show ?thesis
    by (cases res') (auto simp: with_sample_rate_def Let_def RecordingSummary_default_def yields_def writers_sound_def)
qed

lemma finish_flushes_sound:
  assumes "writers_sound r" "finish_flushes k r = (r', res)"
  shows "writers_sound r'"
proof -
  have s: "sw (wire r)" "sv (wave r)" "se (events r)" using assms(1) by (simp_all add: writers_sound_def)
  obtain a fa where fa: "out_flush (wire_out k) (wire r) = (a, fa)" by fastforce
  obtain v fv where fv: "out_flush (wave_out k) (wave r) = (v, fv)" by fastforce
  obtain c fc where fc: "out_flush (events_out k) (events r) = (c, fc)" by fastforce
  note keep = wire.flush_same [OF s(1) fa] wave.flush_same [OF s(2) fv] events.flush_same [OF s(3) fc]
  have "writers_sound (fst (finish_flushes k r))"
    by (cases fa; cases fv; cases fc) (simp_all add: finish_flushes_def fa fv fc writers_sound_def s keep)
  with assms(2) show ?thesis by simp
qed

lemma finish_recording_sound:
  assumes s: "writers_sound r" and fin: "finish_recording k r = Some (Some (r', res))"
  shows "writers_sound r'"
proof (cases "rec_state r = RecFailed \<or> U32_MAX < audio_bytes (summary r) + 36")
  case True
  then show ?thesis using s fin
    by (cases "rec_state r = RecFailed")
       (auto simp: finish_recording_def wave_header_eval invalid_def yields_def writers_sound_def)
next
  case False
  let ?h = "header_of (audio_bytes (summary r)) (sample_rate r)"
  have sv: "sv (wave r)" using s by (simp add: writers_sound_def)
  have hdr: "wave_header (audio_bytes (summary r)) (sample_rate r) = Some (Inr ?h)"
    using False by (simp add: wave_header_eval)
  obtain b rres where rew: "out_rewind (wave_out k) (wave r) = (b, rres)" by fastforce
  note sb = wave.rewind_sound [OF sv rew]
  obtain w' m wres where w: "write_count (wave_out k) b ?h (patch_bytes (summary r)) =
      Some (Some (w', patch_bytes (summary r) + m, wres))" "sv w'"
    by (rule wave.write_count_accepts [OF sb, of ?h "patch_bytes (summary r)"])
  let ?r2 = "r\<lparr>wave := w', summary := (summary r)\<lparr>patch_bytes := patch_bytes (summary r) + m\<rparr>\<rparr>"
  have "writers_sound ?r2" using s w(2) by (simp add: writers_sound_def)
  then show ?thesis
    using s sb fin False hdr rew w finish_flushes_sound [of ?r2 r' res]
    by (cases rres; cases wres) (auto simp: finish_recording_def yields_def writers_sound_def)
qed

end

section \<open>Properties\<close>

text \<open>
  C30: The WAVE header for any number of sample bytes is built without a panic; it is refused
  exactly when the sizes do not fit the RIFF length fields, and otherwise it is forty-four bytes
  that declare one channel of sixteen-bit PCM at the recorder's rate and exactly the sizes of
  the data that follows.
\<close>

theorem wave_header_layout:
  "case wave_header n rate of
     None \<Rightarrow> False
   | Some (Inl v) \<Rightarrow> v = WaveSize \<and> U32_MAX < n + 36
   | Some (Inr h) \<Rightarrow>
       n + 36 \<le> U32_MAX \<and> length h = 44 \<and>
       take 4 h = as_bytes ''RIFF'' \<and> le_value (take 4 (drop 4 h)) = n + 36 \<and>
       take 8 (drop 8 h) = as_bytes ''WAVEfmt '' \<and> le_value (take 4 (drop 16 h)) = 16 \<and>
       le_value (take 2 (drop 20 h)) = 1 \<and> le_value (take 2 (drop 22 h)) = 1 \<and>
       le_value (take 4 (drop 24 h)) = unat (hertz rate) \<and>
       le_value (take 4 (drop 28 h)) = 2 * unat (hertz rate) \<and>
       le_value (take 2 (drop 32 h)) = 2 \<and> le_value (take 2 (drop 34 h)) = 16 \<and>
       take 4 (drop 36 h) = as_bytes ''data'' \<and> le_value (drop 40 h) = n"
proof (cases "n + 36 \<le> U32_MAX")
  case True
  have "unat (word_of_nat n + 36 :: u32) = n + 36" "unat (word_of_nat n :: u32) = n"
    using True unat_word_of_nat_less [of "n + 36", where 'a = 32] unat_word_of_nat_less [of n, where 'a = 32]
    by (simp_all add: U32_MAX_def)
  moreover have "unat (hertz rate * 2) = 2 * unat (hertz rate)" by (cases rate) simp_all
  ultimately show ?thesis
    using True by (simp add: wave_header_eval header_of_def as_bytes_def)
qed (simp add: wave_header_eval)

text \<open>
  C31: A record that fails validation stops the recording before anything is written: no writer
  and no count changes, the error names the violation, and from then on every record and the
  finalization are refused as following a failure, again without touching a writer.
\<close>

theorem invalid_record_writes_nothing:
  assumes "validate r x = Some (Inl v)"
  shows "\<exists>e. record_one k d r x = Some (Some (r\<lparr>rec_state := RecFailed\<rparr>, Inl e)) \<and>
    err_stage e = Validate \<and> err_failure e = Invalid v \<and> err_summary e = summary r \<and>
    record_all k d (r\<lparr>rec_state := RecFailed\<rparr>) ys =
      Some (Some (r\<lparr>rec_state := RecFailed\<rparr>,
                  map (\<lambda>y. Inl \<lparr>err_stage = Validate, err_failure = Invalid AfterFailure, err_summary = summary r\<rparr>) ys)) \<and>
    finish_recording k (r\<lparr>rec_state := RecFailed\<rparr>) =
      Some (Some (r\<lparr>rec_state := RecFailed\<rparr>,
                  Inl \<lparr>err_stage = Validate, err_failure = Invalid AfterFailure, err_summary = summary r\<rparr>))"
  using assms
  by (simp add: record_one_def invalid_def yields_def record_all_failed finish_recording_def)

theorem invalid_record_writes_nothing_witness:
  "\<exists>(k :: (nat, nat, nat) outputs) d r x e. rec_state r = AwaitingConnection \<and>
     record_one k d r x = Some (Some (r\<lparr>rec_state := RecFailed\<rparr>, Inl e)) \<and> err_failure e = Invalid VOrder"
proof -
  let ?r = "\<lparr>rec_id = ConnectionId 1 2, sample_rate = Khz8, wire = 0, wave = 0, events = 0,
    rec_state = AwaitingConnection, last_event_offset = 0, summary = RecordingSummary_default\<rparr> :: (nat, nat, nat) Recording"
  let ?x = "\<lparr>connection = ConnectionId 1 2, rec_offset = WireOffset 0, observed_at = 0,
    rec_kind = RStarted (Uuid [])\<rparr>"
  have "validate ?r ?x = Some (Inl VOrder)" by (simp add: validate_def)
  from invalid_record_writes_nothing [OF this] show ?thesis
    by (metis (no_types, lifting) Recording.select_convs(6))
qed

end
