(* ===== verification/Connection_Task.thy ===== *)
theory Connection_Task
  imports Task_Context Wave_Recording
begin

text \<open>
  The task of one accepted connection (\<open>crates/phonowire-receiver/src/connection.rs\<close>): it reads
  the socket, retains what it read, feeds the decoder and the session, and hands a record off for
  every observation until a terminal one.

  The source is a sequential asynchronous function; its awaits are modelled by their completed
  results, whose possible values are what \<open>Task_Context\<close> proves of the polls: a copy fails exactly
  when the bytes exceed the whole account, and a send succeeds, finds the consumer gone, or finds
  the record counter exhausted.  The environment says when the consumer is gone, what the clock
  shows and what each read returns; a list of reads that ends leaves the task waiting for more.
  A non-terminating loop would be \<open>None\<close>, a panic \<open>Some None\<close>.
\<close>

section \<open>State and environment\<close>

record conn_env =
  ce_id :: ConnectionId
  ce_peer :: SocketAddr
  ce_retention :: nat
  ce_capacity :: nat
  ce_clock :: "nat \<Rightarrow> instant"
  ce_accepts :: "nat \<Rightarrow> bool"

record conn =
  cn_decoder :: Framer
  cn_session :: IncomingSession
  cn_progress :: Progress
  cn_sent :: "Record list"
  cn_ticks :: nat

text \<open>\<open>ReadBytes []\<close> is a read of zero bytes, the end of the stream.\<close>

datatype read_result = ReadBytes bytes | ReadErr io_error

section \<open>One read\<close>

definition read_poll ::
  "io_error + unit \<Rightarrow> worker \<Rightarrow> TaskContext \<Rightarrow> io_error + bytes
     \<Rightarrow> (worker \<times> TaskContext \<times> (io_error + bytes) poll) run" where
  "read_poll wr w c res =
     do {
       (w, c, ok) \<leftarrow> permit wr w c;
       if \<not> ok then Some (w, c, Pending)
       else (case res of
           Inr bs \<Rightarrow> Some (w, c, ReadyWith (Inr bs))
         | Inl e \<Rightarrow>
             if io_kind e = WouldBlock then do { w \<leftarrow> park_task w c Kernel; Some (w, c, Pending) }
             else if io_kind e = Interrupted then do {
               (s, b) \<leftarrow> task_wake wr (w_sched w) (tc_token c);
               Some (w\<lparr>w_sched := s\<rparr>, c, Pending)
             }
             else Some (w, c, ReadyWith (Inl e)))
     }"

section \<open>Completed awaits\<close>

definition conn_now :: "conn_env \<Rightarrow> conn \<Rightarrow> instant \<times> conn" where
  "conn_now env s = (ce_clock env (cn_ticks s), s\<lparr>cn_ticks := cn_ticks s + 1\<rparr>)"

definition conn_copy :: "conn_env \<Rightarrow> bytes \<Rightarrow> BudgetError + OwnedBytes" where
  "conn_copy env bs =
     (if length bs > ce_capacity env then Inl (TooLarge (length bs) (ce_capacity env))
      else Inr \<lparr>owned_bytes = bs,
                charge = \<lparr>charge_bytes = length bs, retention = Some (ce_retention env, ce_id env)\<rparr>\<rparr>)"

definition send_at :: "conn_env \<Rightarrow> conn \<Rightarrow> nat \<Rightarrow> instant \<Rightarrow> RecordKind \<Rightarrow> (conn \<times> bool) run" where
  "send_at env s offset at kind =
     (let p = (cn_progress s)\<lparr>pending_record := True\<rparr> in
      case checked_add U64_MAX (records_queued p) 1 of
        None \<Rightarrow> Some (s\<lparr>cn_progress := p\<lparr>counter_overflow := True\<rparr>\<rparr>, False)
      | Some next \<Rightarrow>
          if ce_accepts env (length (cn_sent s)) then do {
            n \<leftarrow> wire_len kind;
            p' \<leftarrow> note_sent p (is_ended kind) n next;
            Some (s\<lparr>cn_progress := p',
                    cn_sent := cn_sent s @ [\<lparr>connection = ce_id env, rec_offset = WireOffset offset,
                                             observed_at = at, rec_kind = kind\<rparr>]\<rparr>, True)
          }
          else Some (s\<lparr>cn_progress := p\<rparr>, False))"

definition conn_send :: "conn_env \<Rightarrow> conn \<Rightarrow> nat \<Rightarrow> RecordKind \<Rightarrow> (conn \<times> bool) run" where
  "conn_send env s offset kind = (case conn_now env s of (at, s) \<Rightarrow> send_at env s offset at kind)"

definition end_at ::
  "conn_env \<Rightarrow> conn \<Rightarrow> nat \<Rightarrow> instant \<Rightarrow> Uuid option \<Rightarrow> EndReason \<Rightarrow> (conn \<times> bool) run" where
  "end_at env s offset at uuid reason = send_at env s offset at (REnded uuid reason)"

definition conn_end :: "conn_env \<Rightarrow> conn \<Rightarrow> nat \<Rightarrow> Uuid option \<Rightarrow> EndReason \<Rightarrow> (conn \<times> bool) run" where
  "conn_end env s offset uuid reason = conn_send env s offset (REnded uuid reason)"

definition conn_offset :: "conn \<Rightarrow> nat" where
  "conn_offset s = p_consumed (cn_progress s)"

section \<open>Events\<close>

definition observe :: "conn_env \<Rightarrow> conn \<Rightarrow> nat \<Rightarrow> IncomingEvent \<Rightarrow> (conn \<times> bool) run" where
  "observe env s offset event =
     (case conn_now env s of (at, s) \<Rightarrow>
      (case event of
         EvStarted uuid \<Rightarrow> send_at env s offset at (RStarted uuid)
       | EvDtmf uuid digit \<Rightarrow> send_at env s offset at (RDtmf uuid digit)
       | EvAudio uuid rate p \<Rightarrow>
           (case conn_copy env (audio_bytes_of p) of
              Inr bs \<Rightarrow> send_at env s offset at (RAudio uuid rate bs)
            | Inl e \<Rightarrow> end_at env s offset at (Some uuid) (ResourceRefused e))
       | EvEnded uuid reason \<Rightarrow>
           (case reason of
              Terminate \<Rightarrow> end_at env s offset at uuid EndTerminate
            | PeerError p \<Rightarrow>
                (case conn_copy env (opaque_bytes p) of
                   Inr bs \<Rightarrow> end_at env s offset at uuid (EndPeerError bs)
                 | Inl e \<Rightarrow> end_at env s offset at uuid (ResourceRefused e))
            | EndOfInput \<Rightarrow> end_at env s offset at uuid CleanEof)))"

text \<open>Ending the connection inside a loop: the result of the last send is ignored.\<close>

definition stop_with :: "(conn \<times> bool) run \<Rightarrow> (conn \<times> bool) run" where
  "stop_with m = map_option (\<lambda>(s, _). (s, False)) m"

text \<open>What is done with one completed frame: whether the loop goes on.\<close>

definition handle_frame :: "conn_env \<Rightarrow> conn \<Rightarrow> nat \<Rightarrow> RawEnvelope \<Rightarrow> (conn \<times> bool) run" where
  "handle_frame env s offset raw =
     do {
       r \<leftarrow> typed raw;
       (case r of
          Inl e \<Rightarrow> stop_with (conn_end env s offset (identity (cn_session s)) (InvalidMessage e))
        | Inr m \<Rightarrow>
            (let uuid = identity (cn_session s) in
             case receive (cn_session s) m of
               (ses, Inl e) \<Rightarrow> stop_with (conn_end env (s\<lparr>cn_session := ses\<rparr>) offset uuid (Policy e))
             | (ses, Inr event) \<Rightarrow> do {
                 (s', ok) \<leftarrow> observe env (s\<lparr>cn_session := ses\<rparr>) offset event;
                 Some (s', ok \<and> identity (cn_session s') \<noteq> None)
               }))
     }"

text \<open>One pass of the loop over a chunk: the rest of the input when it goes on.\<close>

definition chunk_pass :: "conn_env \<Rightarrow> conn \<Rightarrow> bytes \<Rightarrow> (conn \<times> (bool + bytes)) run" where
  "chunk_pass env s input =
     do {
       (d, rest, frame) \<leftarrow> RawDecoder_feed (cn_decoder s) input;
       let s = s\<lparr>cn_decoder := d\<rparr>;
       (p, r) \<leftarrow> consume (cn_progress s) (length input - length rest);
       let s = s\<lparr>cn_progress := p\<rparr>;
       (case r of
          Inl _ \<Rightarrow> do {
            (s, _) \<leftarrow> conn_end env s (conn_offset s) (identity (cn_session s)) OffsetExhausted;
            Some (s, Inl False)
          }
        | Inr offset \<Rightarrow>
            (case frame of
               Inr NeedInput \<Rightarrow> Some (s, Inl True)
             | Inl e \<Rightarrow> do {
                 (s, _) \<leftarrow> conn_end env s offset (identity (cn_session s)) (EndDecode e);
                 Some (s, Inl False)
               }
             | Inr (Frame raw) \<Rightarrow> do {
                 (s, go) \<leftarrow> handle_frame env s offset raw;
                 Some (s, if go then Inr rest else Inl False)
               }))
     }"

partial_function (option) decode_chunk :: "conn_env \<Rightarrow> conn \<Rightarrow> bytes \<Rightarrow> (conn \<times> bool) effect" where
  "decode_chunk env s input =
     (if input = [] then Some (Some (s, True))
      else case chunk_pass env s input of
        None \<Rightarrow> Some None
      | Some (s', Inl res) \<Rightarrow> Some (Some (s', res))
      | Some (s', Inr rest) \<Rightarrow> decode_chunk env s' rest)"

section \<open>The whole task\<close>

text \<open>The end of the stream.\<close>

definition conn_eof :: "conn_env \<Rightarrow> conn \<Rightarrow> (conn \<times> bool) run" where
  "conn_eof env s =
     (let uuid = identity (cn_session s) in
      case Framer_finish (cn_decoder s) of
        Inr _ \<Rightarrow>
          (case end_of_input (cn_session s) of
             (ses, Inr (EvEnded u r)) \<Rightarrow> conn_end env (s\<lparr>cn_session := ses\<rparr>) (conn_offset s) uuid CleanEof
           | (ses, Inr _) \<Rightarrow> panic
           | (ses, Inl e) \<Rightarrow> conn_end env (s\<lparr>cn_session := ses\<rparr>) (conn_offset s) uuid (Policy e))
      | Inl e \<Rightarrow> conn_end env s (conn_offset s) uuid (Truncated e))"

text \<open>One turn of the outer loop for a read of \<open>bs\<close>; the second component is whether the loop goes on.\<close>

definition conn_chunk :: "conn_env \<Rightarrow> conn \<Rightarrow> bytes \<Rightarrow> (conn \<times> bool) effect" where
  "conn_chunk env s bs =
     (case conn_now env s of (at, s) \<Rightarrow>
      (case observe_read (cn_progress s) (length bs) of
         (p, Inl _) \<Rightarrow>
           Some (stop_with (conn_end env (s\<lparr>cn_progress := p\<rparr>) (p_consumed p) (identity (cn_session s)) OffsetExhausted))
       | (p, Inr start) \<Rightarrow>
           (let s = s\<lparr>cn_progress := p\<rparr> in
            case conn_copy env bs of
              Inl e \<Rightarrow> Some (stop_with (conn_end env s start (identity (cn_session s)) (ResourceRefused e)))
            | Inr owned \<Rightarrow>
                and_then (Some (send_at env s start at (RWire owned))) (\<lambda>(s, ok).
                  if \<not> ok then yields (s, False) else decode_chunk env s bs))))"

text \<open>The result says whether the task has ended (or still waits for the next read).\<close>

fun receive_loop :: "conn_env \<Rightarrow> conn \<Rightarrow> read_result list \<Rightarrow> (conn \<times> bool) effect" where
  "receive_loop env s [] = yields (s, False)"
| "receive_loop env s (ReadErr e # rs) =
     and_then (Some (conn_end env s (conn_offset s) (identity (cn_session s)) (Transport e)))
       (\<lambda>(s, _). yields (s, True))"
| "receive_loop env s (ReadBytes bs # rs) =
     (if bs = [] then and_then (Some (conn_eof env s)) (\<lambda>(s, _). yields (s, True))
      else and_then (conn_chunk env s bs) (\<lambda>(s, go).
        if go then receive_loop env s rs else yields (s, True)))"

definition conn_new :: "nat \<Rightarrow> IncomingProfile \<Rightarrow> conn" where
  "conn_new pc prof =
     \<lparr>cn_decoder = RawDecoder_new (replicate pc 0), cn_session = with_profile prof,
      cn_progress = Progress_default, cn_sent = [], cn_ticks = 0\<rparr>"

definition receive_from :: "conn_env \<Rightarrow> nat \<Rightarrow> IncomingProfile \<Rightarrow> read_result list \<Rightarrow> (conn \<times> bool) effect" where
  "receive_from env pc prof reads =
     and_then (Some (conn_send env (conn_new pc prof) 0 (RConnected (ce_peer env)))) (\<lambda>(s, ok).
       if \<not> ok then yields (s, True) else receive_loop env s reads)"

end
