(* ===== verification/Connection_Stream.thy ===== *)
theory Connection_Stream
  imports Connection_Task
begin

text \<open>
  What a connection task hands off.  \<open>stream_run\<close> is the record protocol a consumer may rely on:
  one record of the accepted socket first, transport bytes in order from offset zero, the
  observations of one identity in between, one end, and offsets that never decrease and never
  pass the transport bytes already handed off.  \<open>stream_report\<close> is the functional specification:
  the observations a complete byte stream deserves, computed from the reference parser, the
  typed policy and the session, with no task, chunk, buffer or queue.
\<close>

section \<open>The record protocol\<close>

fun phase_step :: "(SampleRate \<Rightarrow> bool) \<Rightarrow> RecState \<Rightarrow> RecordKind \<Rightarrow> RecState option" where
  "phase_step ok AwaitingConnection (RConnected p) = Some RAwaitingUuid"
| "phase_step ok RAwaitingUuid (RWire b) = Some RAwaitingUuid"
| "phase_step ok RAwaitingUuid (RStarted u) = Some (RActive u)"
| "phase_step ok RAwaitingUuid (REnded None r) = Some RecEnded"
| "phase_step ok (RActive u) (RWire b) = Some (RActive u)"
| "phase_step ok (RActive u) (RAudio v rate b) =
     (if v = u \<and> ok rate \<and> even (length (as_slice b)) then Some (RActive u) else None)"
| "phase_step ok (RActive u) (RDtmf v g) = (if v = u then Some (RActive u) else None)"
| "phase_step ok (RActive u) (REnded (Some v) r) = (if v = u then Some RecEnded else None)"
| "phase_step ok _ _ = None"

text \<open>A position is the phase, the offset of the last observation and the transport bytes so far.\<close>

type_synonym stream_pos = "RecState \<times> nat \<times> nat"

fun stream_step :: "ConnectionId \<Rightarrow> (SampleRate \<Rightarrow> bool) \<Rightarrow> stream_pos \<Rightarrow> Record \<Rightarrow> stream_pos option" where
  "stream_step i ok (st, lo, got) x =
     (let at = offset_get (rec_offset x) in
      if connection x \<noteq> i then None
      else case phase_step ok st (rec_kind x) of
        None \<Rightarrow> None
      | Some st' \<Rightarrow>
          if is_wire (rec_kind x)
          then (if at = got then Some (st', lo, got + length (wire_part (rec_kind x))) else None)
          else (if lo \<le> at \<and> at \<le> got then Some (st', at, got) else None))"

fun stream_run :: "ConnectionId \<Rightarrow> (SampleRate \<Rightarrow> bool) \<Rightarrow> stream_pos \<Rightarrow> Record list \<Rightarrow> stream_pos option" where
  "stream_run i ok c [] = Some c"
| "stream_run i ok c (x # xs) = (case stream_step i ok c x of None \<Rightarrow> None | Some c' \<Rightarrow> stream_run i ok c' xs)"

declare stream_step.simps [simp del]

lemma stream_run_append:
  "stream_run i ok c (xs @ ys) = (case stream_run i ok c xs of None \<Rightarrow> None | Some c' \<Rightarrow> stream_run i ok c' ys)"
  by (induction xs arbitrary: c) (auto split: option.split)

text \<open>Nothing follows an end.\<close>

lemma phase_step_RecEnded [simp]: "phase_step ok RecEnded k = None"
  by (cases k) simp_all

lemma stream_run_RecEnded: "stream_run i ok (RecEnded, lo, got) xs = Some c \<Longrightarrow> xs = []"
  by (cases xs) (simp_all add: stream_step.simps Let_def split: if_splits)

section \<open>What a stream deserves\<close>

definition owned :: "conn_env \<Rightarrow> bytes \<Rightarrow> OwnedBytes" where
  "owned env bs =
     \<lparr>owned_bytes = bs,
      charge = \<lparr>charge_bytes = length bs, retention = Some (ce_retention env, ce_id env)\<rparr>\<rparr>"

fun event_kind :: "conn_env \<Rightarrow> IncomingEvent \<Rightarrow> RecordKind" where
  "event_kind env (EvStarted u) = RStarted u"
| "event_kind env (EvDtmf u g) = RDtmf u g"
| "event_kind env (EvAudio u rate p) = RAudio u rate (owned env (audio_bytes_of p))"
| "event_kind env (EvEnded u Terminate) = REnded u EndTerminate"
| "event_kind env (EvEnded u (PeerError p)) = REnded u (EndPeerError (owned env (opaque_bytes p)))"
| "event_kind env (EvEnded u EndOfInput) = REnded u CleanEof"

text \<open>The observation of one frame, the session after it, and whether the connection goes on.\<close>

definition frame_report :: "conn_env \<Rightarrow> IncomingSession \<Rightarrow> RawEnvelope \<Rightarrow> RecordKind \<times> IncomingSession \<times> bool" where
  "frame_report env ses raw =
     (case typed_policy raw of
        Inl e \<Rightarrow> (REnded (identity ses) (InvalidMessage e), ses, False)
      | Inr m \<Rightarrow>
          (case receive ses m of
             (ses', Inl e) \<Rightarrow> (REnded (identity ses) (Policy e), ses', False)
           | (ses', Inr ev) \<Rightarrow> (event_kind env ev, ses', identity ses' \<noteq> None)))"

fun frames_report :: "conn_env \<Rightarrow> IncomingSession \<Rightarrow> RawEnvelope list \<Rightarrow> (IncomingSession \<Rightarrow> RecordKind) \<Rightarrow> RecordKind list" where
  "frames_report env ses [] close = [close ses]"
| "frames_report env ses (raw # fs) close =
     (case frame_report env ses raw of (k, ses', go) \<Rightarrow> k # (if go then frames_report env ses' fs close else []))"

text \<open>How a stream that leaves the session open ends: by a decoder error, inside a frame, or cleanly.\<close>

fun stream_end :: "pending \<Rightarrow> DecodeError option \<Rightarrow> IncomingSession \<Rightarrow> RecordKind" where
  "stream_end a (Some e) ses = REnded (identity ses) (EndDecode e)"
| "stream_end Dead None ses = REnded (identity ses) (Truncated FinishFailed)"
| "stream_end (Live p) None ses =
     REnded (identity ses)
       (if p = [] then CleanEof
        else if length p < HEADER_BYTES then Truncated (TruncatedHeader HEADER_BYTES (length p))
        else Truncated (TruncatedPayload (unat (from_be_bytes16 (p ! 1) (p ! 2))) (length p - HEADER_BYTES)))"

definition stream_report :: "conn_env \<Rightarrow> nat \<Rightarrow> IncomingSession \<Rightarrow> bytes \<Rightarrow> RecordKind list" where
  "stream_report env cap ses stream =
     (case parse_frames accept_any cap stream of (fs, a, e) \<Rightarrow> frames_report env ses fs (stream_end a e))"

section \<open>Observations of one frame\<close>

fun phase_of :: "SessionState \<Rightarrow> RecState" where
  "phase_of AwaitingUuid = RAwaitingUuid"
| "phase_of (Active u) = RActive u"
| "phase_of Ended = RecEnded"

lemma phase_end:
  "session_state ses \<noteq> Ended \<Longrightarrow> phase_step ok (phase_of (session_state ses)) (REnded (identity ses) r) = Some RecEnded"
  by (cases "session_state ses") (simp_all add: identity_def)

lemma phase_wire:
  "session_state ses \<noteq> Ended \<Longrightarrow> phase_step ok (phase_of (session_state ses)) (RWire b) = Some (phase_of (session_state ses))"
  by (cases "session_state ses") simp_all

lemma message_of_fits:
  "message_of k p = MAudio rate q \<Longrightarrow> body_error k p = None \<Longrightarrow> even (length (audio_bytes_of q)) \<and> audio_bytes_of q = p"
  "message_of k p = MError o' \<Longrightarrow> opaque_bytes o' = p"
  by (cases k; auto split: if_splits)+

lemma typed_policy_fits:
  "typed_policy raw = Inr (MAudio rate q) \<Longrightarrow> even (length (audio_bytes_of q)) \<and> audio_bytes_of q = payload raw"
  "typed_policy raw = Inr (MError o') \<Longrightarrow> opaque_bytes o' = payload raw"
  by (auto simp: typed_policy_def raw_unknown_def dest: message_of_fits split: option.splits)

lemma receive_event:
  "receive ses m = (ses', Inr ev) \<Longrightarrow>
     (case ev of
        EvStarted u \<Rightarrow> session_state ses = AwaitingUuid \<and> session_state ses' = Active u
      | EvAudio u rate p \<Rightarrow> session_state ses = Active u \<and> ses' = ses \<and> accepts (profile ses) rate \<and> m = MAudio rate p
      | EvDtmf u g \<Rightarrow> session_state ses = Active u \<and> ses' = ses
      | EvEnded u r \<Rightarrow> u = identity ses \<and> session_state ses \<noteq> Ended \<and> session_state ses' = Ended \<and>
          (case r of PeerError p \<Rightarrow> m = MError p | _ \<Rightarrow> True))"
  by (cases m) (auto simp: session_defs split: if_splits SessionState.splits)

lemma receive_profile: "receive ses m = (ses', r) \<Longrightarrow> profile ses' = profile ses"
  using session_step_profile [of ses "Message m"] by simp

lemma frame_report_phase:
  assumes "session_state ses \<noteq> Ended" "frame_report env ses raw = (k, ses', go)"
  shows "phase_step (accepts (profile ses)) (phase_of (session_state ses)) k =
      Some (if go then phase_of (session_state ses') else RecEnded)"
    and "\<not> is_wire k" and "profile ses' = profile ses" and "go \<Longrightarrow> session_state ses' \<noteq> Ended"
proof -
  have "phase_step (accepts (profile ses)) (phase_of (session_state ses)) k =
      Some (if go then phase_of (session_state ses') else RecEnded) \<and> \<not> is_wire k \<and> profile ses' = profile ses \<and>
      (go \<longrightarrow> session_state ses' \<noteq> Ended)"
  proof (cases "typed_policy raw")
    case (Inl e)
    then show ?thesis using assms phase_end by (auto simp: frame_report_def)
  next
    case (Inr m)
    obtain s r where r: "receive ses m = (s, r)" by fastforce
    show ?thesis
    proof (cases r)
      case (Inl e)
      then show ?thesis using assms phase_end Inr r receive_profile [OF r] by (auto simp: frame_report_def)
    next
      case ev: (Inr ev)
      have k: "k = event_kind env ev" "s = ses'" "go = (identity ses' \<noteq> None)"
        using assms(2) Inr r ev by (auto simp: frame_report_def)
      note e = receive_event [OF r [unfolded ev]] receive_profile [OF r]
      show ?thesis
      proof (cases ev)
        case (EvEnded u reason)
        then show ?thesis using e k phase_end [OF assms(1)]
          by (cases reason) (auto simp: identity_def)
      qed (use e k Inr in \<open>auto simp: identity_def owned_def as_slice_def dest: typed_policy_fits\<close>)
    qed
  qed
  then show "phase_step (accepts (profile ses)) (phase_of (session_state ses)) k =
      Some (if go then phase_of (session_state ses') else RecEnded)"
    and "\<not> is_wire k" and "profile ses' = profile ses" and "go \<Longrightarrow> session_state ses' \<noteq> Ended" by auto
qed

section \<open>Sending\<close>

definition conn_inv :: "conn_env \<Rightarrow> (SampleRate \<Rightarrow> bool) \<Rightarrow> conn \<Rightarrow> RecState \<Rightarrow> nat \<Rightarrow> bool" where
  "conn_inv env ok s st lo \<longleftrightarrow>
     (let p = cn_progress s in
      stream_run (ce_id env) ok (AwaitingConnection, 0, 0) (cn_sent s) = Some (st, lo, wire_queued p) \<and>
      records_queued p = length (cn_sent s) \<and> (terminal_queued p \<longleftrightarrow> st = RecEnded) \<and>
      lo \<le> p_consumed p \<and> p_consumed p \<le> wire_queued p \<and> wire_queued p \<le> p_read p \<and> p_read p \<le> U64_MAX)"

text \<open>The consumer is gone, or so much was read that a counter could be exhausted.\<close>

definition lost :: "conn_env \<Rightarrow> conn \<Rightarrow> nat \<Rightarrow> bool" where
  "lost env s n \<longleftrightarrow> \<not> ce_accepts env (length (cn_sent s)) \<or> U64_MAX < 2 * n + 2"

definition observed :: "conn \<Rightarrow> RecordKind list" where
  "observed s = filter (\<lambda>k. \<not> is_wire k) (map rec_kind (cn_sent s))"

definition transport :: "conn \<Rightarrow> bytes" where
  "transport s = concat (map (wire_part \<circ> rec_kind) (cn_sent s))"

text \<open>What a send leaves alone.\<close>

definition same_task :: "conn \<Rightarrow> conn \<Rightarrow> bool" where
  "same_task s s' \<longleftrightarrow> cn_decoder s' = cn_decoder s \<and> cn_session s' = cn_session s \<and>
     p_read (cn_progress s') = p_read (cn_progress s) \<and> p_consumed (cn_progress s') = p_consumed (cn_progress s)"

definition sent_as :: "conn_env \<Rightarrow> conn \<Rightarrow> RecordKind \<Rightarrow> conn \<Rightarrow> bool" where
  "sent_as env s kind s' \<longleftrightarrow> same_task s s' \<and> length (cn_sent s') = Suc (length (cn_sent s)) \<and>
     wire_queued (cn_progress s') = wire_queued (cn_progress s) + length (wire_part kind) \<and>
     observed s' = observed s @ (if is_wire kind then [] else [kind]) \<and>
     transport s' = transport s @ wire_part kind"

definition unsent :: "conn_env \<Rightarrow> conn \<Rightarrow> conn \<Rightarrow> bool" where
  "unsent env s s' \<longleftrightarrow> same_task s s' \<and> cn_sent s' = cn_sent s \<and>
     (\<not> ce_accepts env (length (cn_sent s)) \<or> U64_MAX \<le> length (cn_sent s))"

lemma is_wire_part: "\<not> is_wire k \<Longrightarrow> wire_part k = []"
  by (cases k) simp_all

lemma wire_len_eval: "length (wire_part k) \<le> U64_MAX \<Longrightarrow> wire_len k = Some (length (wire_part k))"
  by (cases k) (simp_all add: wire_len_def try_from_def)

lemma phase_step_ended: "phase_step ok st k = Some st' \<Longrightarrow> is_ended k \<longleftrightarrow> st' = RecEnded"
  by (cases "(ok, st, k)" rule: phase_step.cases) (auto simp: is_ended_def split: if_splits)

lemma send_at_cases:
  assumes inv: "conn_inv env ok s st lo" and ph: "phase_step ok st kind = Some st'"
    and room: "wire_queued (cn_progress s) + length (wire_part kind) \<le> p_read (cn_progress s)"
    and off: "if is_wire kind then offset = wire_queued (cn_progress s) else lo \<le> offset \<and> offset \<le> p_consumed (cn_progress s)"
  obtains (sent) s' where "send_at env s offset at kind = Some (s', True)"
      "conn_inv env ok s' st' (if is_wire kind then lo else offset)" "sent_as env s kind s'"
  | (unsent) s' where "send_at env s offset at kind = Some (s', False)" "conn_inv env ok s' st lo" "unsent env s s'"
proof -
  let ?p = "cn_progress s"
  note i = inv [unfolded conn_inv_def Let_def]
  consider (over) "U64_MAX < length (cn_sent s) + 1" | (gone) "length (cn_sent s) + 1 \<le> U64_MAX" "\<not> ce_accepts env (length (cn_sent s))"
    | (ok) "length (cn_sent s) + 1 \<le> U64_MAX" "ce_accepts env (length (cn_sent s))" by fastforce
  then show thesis
  proof cases
    case over
    then show ?thesis
      by (intro unsent [of "s\<lparr>cn_progress := ?p\<lparr>pending_record := True, counter_overflow := True\<rparr>\<rparr>"])
         (use i in \<open>auto simp: send_at_def checked_add_def conn_inv_def unsent_def same_task_def\<close>)
  next
    case gone
    then show ?thesis
      by (intro unsent [of "s\<lparr>cn_progress := ?p\<lparr>pending_record := True\<rparr>\<rparr>"])
         (use i in \<open>auto simp: send_at_def checked_add_def conn_inv_def unsent_def same_task_def\<close>)
  next
    case ok
    let ?x = "\<lparr>connection = ce_id env, rec_offset = WireOffset offset, observed_at = at, rec_kind = kind\<rparr>"
    let ?s = "s\<lparr>cn_progress := ?p\<lparr>pending_record := False, terminal_queued := (terminal_queued ?p \<or> is_ended kind),
        wire_queued := wire_queued ?p + length (wire_part kind), records_queued := length (cn_sent s) + 1\<rparr>,
        cn_sent := cn_sent s @ [?x]\<rparr>"
    have len: "length (wire_part kind) \<le> U64_MAX" using room i by linarith
    have eval: "send_at env s offset at kind = Some (?s, True)"
      using ok i room wire_len_eval [OF len] by (simp add: send_at_def checked_add_def note_sent_def)
    have step: "stream_step (ce_id env) ok (st, lo, wire_queued ?p) ?x =
        Some (st', if is_wire kind then lo else offset, wire_queued ?p + length (wire_part kind))"
      using ph off i by (auto simp: stream_step.simps is_wire_part split: if_splits)
    have "st \<noteq> RecEnded" using ph by auto
    then have "conn_inv env ok ?s st' (if is_wire kind then lo else offset)"
      using i step room off phase_step_ended [OF ph]
      by (auto simp: conn_inv_def stream_run_append is_wire_part)
    moreover have "sent_as env s kind ?s" by (simp add: sent_as_def same_task_def observed_def transport_def)
    ultimately show ?thesis using sent eval by blast
  qed
qed

text \<open>With payloads inside the account, an event is one send of its record.\<close>

lemma conn_copy_fits: "length bs \<le> ce_capacity env \<Longrightarrow> conn_copy env bs = Inr (owned env bs)"
  by (simp add: conn_copy_def owned_def)

lemma send_at_session: "send_at env s offset at kind = Some (s', b) \<Longrightarrow> cn_session s' = cn_session s"
  by (auto simp: send_at_def Let_def split: option.splits if_splits bind_splits)

lemma handle_frame_eval:
  assumes "length (payload raw) \<le> ce_capacity env" "frame_report env (cn_session s) raw = (k, ses, go)"
  shows "handle_frame env s offset raw =
    map_option (\<lambda>(s', b). (s', b \<and> go)) (conn_send env (s\<lparr>cn_session := ses\<rparr>) offset k)"
proof (cases "typed_policy raw")
  case (Inl e)
  then show ?thesis using assms(2)
    by (auto simp: handle_frame_def frame_report_def typed_eq_policy stop_with_def conn_end_def intro!: map_option_cong)
next
  case (Inr m)
  obtain s1 r where r: "receive (cn_session s) m = (s1, r)" by fastforce
  show ?thesis
  proof (cases r)
    case (Inl e)
    then show ?thesis using assms(2) Inr r
      by (auto simp: handle_frame_def frame_report_def typed_eq_policy stop_with_def conn_end_def intro!: map_option_cong)
  next
    case ev: (Inr ev)
    have k: "k = event_kind env ev" "s1 = ses" "go = (identity ses \<noteq> None)"
      using assms(2) Inr r ev by (auto simp: frame_report_def)
    have fits: "case ev of EvAudio u rate p \<Rightarrow> length (audio_bytes_of p) \<le> ce_capacity env
        | EvEnded u (PeerError p) \<Rightarrow> length (opaque_bytes p) \<le> ce_capacity env | _ \<Rightarrow> True"
      using receive_event [OF r [unfolded ev]] assms(1) Inr
      by (auto split: IncomingEvent.splits SessionEnd.splits dest: typed_policy_fits)
    have "observe env (s\<lparr>cn_session := ses\<rparr>) offset ev = conn_send env (s\<lparr>cn_session := ses\<rparr>) offset k"
      using fits unfolding k
      by (auto simp: observe_def conn_send_def end_at_def conn_copy_fits split: prod.split IncomingEvent.split SessionEnd.split)
    then show ?thesis
      using Inr r ev k
      by (auto simp: handle_frame_def typed_eq_policy conn_send_def conn_now_def map_conv_bind_option dest!: send_at_session
          intro!: Option.bind_cong)
  qed
qed

lemma conn_inv_update [simp]:
  "conn_inv env ok (s\<lparr>cn_ticks := t\<rparr>) st lo = conn_inv env ok s st lo"
  "conn_inv env ok (s\<lparr>cn_session := ses\<rparr>) st lo = conn_inv env ok s st lo"
  "conn_inv env ok (s\<lparr>cn_decoder := d\<rparr>) st lo = conn_inv env ok s st lo"
  by (simp_all add: conn_inv_def)

lemma conn_send_cases:
  assumes "conn_inv env ok s st lo" "phase_step ok st kind = Some st'" "\<not> is_wire kind"
    "lo \<le> offset" "offset \<le> p_consumed (cn_progress s)"
  obtains (sent) s' where "conn_send env s offset kind = Some (s', True)" "conn_inv env ok s' st' offset" "sent_as env s kind s'"
  | (unsent) s' where "conn_send env s offset kind = Some (s', False)" "conn_inv env ok s' st lo" "unsent env s s'"
proof -
  let ?s = "s\<lparr>cn_ticks := cn_ticks s + 1\<rparr>"
  have fields: "sent_as env (s\<lparr>cn_ticks := t\<rparr>) kind s' = sent_as env s kind s'" "unsent env (s\<lparr>cn_ticks := t\<rparr>) s' = unsent env s s'" for s' t
    by (simp_all add: sent_as_def unsent_def same_task_def observed_def transport_def)
  have eval: "conn_send env s offset kind = send_at env ?s offset (ce_clock env (cn_ticks s)) kind"
    by (simp add: conn_send_def conn_now_def)
  have "wire_queued (cn_progress s) \<le> p_read (cn_progress s)" using assms(1) by (simp add: conn_inv_def Let_def)
  then show thesis
    by (rule_tac at = "ce_clock env (cn_ticks s)" in send_at_cases [of env ok ?s st lo kind st' offset])
       (use assms sent unsent in \<open>auto simp: fields eval is_wire_part\<close>)
qed

section \<open>The loop over a chunk\<close>

text \<open>What the rest of a stream, and then its end, still has to bring.\<close>

definition outlook :: "conn_env \<Rightarrow> nat \<Rightarrow> conn \<Rightarrow> bytes \<Rightarrow> RecordKind list" where
  "outlook env cap s zs =
     (case framer_abs (cn_decoder s) of Live p \<Rightarrow> stream_report env cap (cn_session s) (p @ zs) | Dead \<Rightarrow> [])"

definition going :: "conn_env \<Rightarrow> nat \<Rightarrow> conn \<Rightarrow> bool" where
  "going env cap s \<longleftrightarrow>
     (\<exists>lo. conn_inv env (accepts (profile (cn_session s))) s (phase_of (session_state (cn_session s))) lo) \<and>
     framer_ok accept_any cap (cn_decoder s) \<and> framer_abs (cn_decoder s) \<noteq> Dead \<and>
     session_state (cn_session s) \<noteq> Ended \<and> wire_queued (cn_progress s) = p_read (cn_progress s) \<and>
     length (cn_sent s) \<le> 1 + p_read (cn_progress s) + p_consumed (cn_progress s)"

definition closed :: "conn_env \<Rightarrow> (SampleRate \<Rightarrow> bool) \<Rightarrow> conn \<Rightarrow> bool" where
  "closed env ok s \<longleftrightarrow>
     (\<exists>st lo. conn_inv env ok s st lo \<and> (st = RecEnded \<or> lost env s (p_read (cn_progress s))))"

definition chunk_result :: "conn_env \<Rightarrow> nat \<Rightarrow> conn \<Rightarrow> bytes \<Rightarrow> conn \<Rightarrow> bool \<Rightarrow> bool" where
  "chunk_result env cap s input s' go \<longleftrightarrow>
     transport s' = transport s \<and> p_read (cn_progress s') = p_read (cn_progress s) \<and>
     profile (cn_session s') = profile (cn_session s) \<and>
     (if go
      then going env cap s' \<and> p_consumed (cn_progress s') = p_read (cn_progress s') \<and>
        (\<forall>zs. observed s' @ outlook env cap s' zs = observed s @ outlook env cap s (input @ zs))
      else closed env (accepts (profile (cn_session s))) s' \<and>
        (lost env s' (p_read (cn_progress s')) \<or> (\<forall>zs. observed s' = observed s @ outlook env cap s (input @ zs))))"

lemma stream_report_frame:
  assumes "frame_step accept_any cap (Live p) input = (a, rest, Inr (Frame raw))"
  shows "stream_report env cap ses (p @ input @ zs) =
    (case frame_report env ses raw of (k, ses', go) \<Rightarrow> k # (if go then stream_report env cap ses' (rest @ zs) else []))"
proof -
  have "frame_step accept_any cap (Live []) (p @ input @ zs) = (a, rest @ zs, Inr (Frame raw))"
    using frame_step_done_Nil [of accept_any cap "p @ input" a rest _ zs] assms by (simp add: frame_step_Live [of _ _ p])
  then show ?thesis
    by (simp add: stream_report_def parse_frames_step [of accept_any cap "p @ input @ zs"] split: prod.split)
qed

lemma stream_report_error:
  assumes "frame_step accept_any cap (Live p) input = (a, rest, Inl e)"
  shows "stream_report env cap ses (p @ input @ zs) = [REnded (identity ses) (EndDecode e)]"
proof -
  have "frame_step accept_any cap (Live []) (p @ input @ zs) = (a, rest @ zs, Inl e)"
    using frame_step_done_Nil [of accept_any cap "p @ input" a rest _ zs] assms by (simp add: frame_step_Live [of _ _ p])
  then show ?thesis by (simp add: stream_report_def parse_frames_step [of accept_any cap "p @ input @ zs"])
qed

lemma frame_step_payload: "frame_step v cap a xs = (a', rest, Inr (Frame raw)) \<Longrightarrow> length (payload raw) \<le> cap"
  by (cases a) (auto simp: frame_step_def Let_def split: sum.splits if_splits)

text \<open>After the decoder has taken its bytes, the counters follow it and nothing else has changed.\<close>

lemma consume_eval:
  assumes "p_consumed p + n \<le> p_read p" "p_read p \<le> U64_MAX"
  shows "consume p n = Some (p\<lparr>p_consumed := p_consumed p + n\<rparr>, Inr (p_consumed p + n))"
  using assms by (simp add: consume_def add_observation_def try_from_def checked_add_def)

lemma lost_unsent:
  assumes "unsent env s s'" "length (cn_sent s) \<le> 1 + p_read (cn_progress s) + p_consumed (cn_progress s)"
    "p_consumed (cn_progress s) \<le> p_read (cn_progress s)" "p_read (cn_progress s) \<le> n"
  shows "lost env s' n"
  using assms by (auto simp: unsent_def lost_def)

text \<open>The state a pass works on, once the decoder has taken \<open>n\<close> bytes.\<close>

definition advanced :: "conn \<Rightarrow> Framer \<Rightarrow> nat \<Rightarrow> conn" where
  "advanced s d n =
     s\<lparr>cn_decoder := d, cn_progress := (cn_progress s)\<lparr>p_consumed := p_consumed (cn_progress s) + n\<rparr>\<rparr>"

lemma advanced_simps [simp]:
  "cn_decoder (advanced s d n) = d" "cn_session (advanced s d n) = cn_session s" "cn_sent (advanced s d n) = cn_sent s"
  "p_read (cn_progress (advanced s d n)) = p_read (cn_progress s)"
  "p_consumed (cn_progress (advanced s d n)) = p_consumed (cn_progress s) + n"
  "wire_queued (cn_progress (advanced s d n)) = wire_queued (cn_progress s)"
  "observed (advanced s d n) = observed s" "transport (advanced s d n) = transport s"
  by (simp_all add: advanced_def observed_def transport_def)

lemma going_advanced:
  assumes "going env cap s" "p_consumed (cn_progress s) + n \<le> p_read (cn_progress s)"
  obtains lo where "conn_inv env (accepts (profile (cn_session s))) (advanced s d n) (phase_of (session_state (cn_session s))) lo"
    "lo \<le> p_consumed (cn_progress s) + n"
  using assms by (auto simp: going_def advanced_def conn_inv_def Let_def)

lemma chunk_pass_eval:
  assumes "RawDecoder_feed (cn_decoder s) input = Some (d, rest, frame)" "going env cap s"
    and "p_consumed (cn_progress s) + length input = p_read (cn_progress s)"
  shows "chunk_pass env s input =
    (let n = length input - length rest; s1 = advanced s d n; offset = p_consumed (cn_progress s) + n in
     case frame of
       Inr NeedInput \<Rightarrow> Some (s1, Inl True)
     | Inl e \<Rightarrow> map_option (\<lambda>(s, _). (s, Inl False)) (conn_end env s1 offset (identity (cn_session s)) (EndDecode e))
     | Inr (Frame raw) \<Rightarrow> map_option (\<lambda>(s, go). (s, if go then Inr rest else Inl False)) (handle_frame env s1 offset raw))"
proof -
  have "p_read (cn_progress s) \<le> U64_MAX" using assms(2) by (auto simp: going_def conn_inv_def Let_def)
  then have "consume (cn_progress s) (length input - length rest) =
      Some ((cn_progress s)\<lparr>p_consumed := p_consumed (cn_progress s) + (length input - length rest)\<rparr>,
            Inr (p_consumed (cn_progress s) + (length input - length rest)))"
    using assms(3) by (intro consume_eval) auto
  then show ?thesis using assms(1)
    by (auto simp: chunk_pass_def advanced_def Let_def map_conv_bind_option split: sum.split DecodeOutcome.split
        intro!: Option.bind_cong)
qed

lemma pass_end:
  assumes g: "going env cap s" and n: "p_consumed (cn_progress s) + n \<le> p_read (cn_progress s)"
    and out: "\<forall>zs. outlook env cap s (input @ zs) = [REnded (identity (cn_session s)) r]"
  obtains s' b where "conn_end env (advanced s d n) (p_consumed (cn_progress s) + n) (identity (cn_session s)) r = Some (s', b)"
    "chunk_result env cap s input s' False"
proof -
  let ?k = "REnded (identity (cn_session s)) r" and ?s = "advanced s d n"
  obtain lo where inv: "conn_inv env (accepts (profile (cn_session s))) ?s (phase_of (session_state (cn_session s))) lo"
    and lo: "lo \<le> p_consumed (cn_progress s) + n" by (rule going_advanced [OF g n])
  have bound: "length (cn_sent ?s) \<le> 1 + p_read (cn_progress ?s) + p_consumed (cn_progress ?s)"
    using g by (simp add: going_def)
  have ph: "phase_step (accepts (profile (cn_session s))) (phase_of (session_state (cn_session s))) ?k = Some RecEnded"
    using g by (simp add: going_def phase_end)
  have side: "\<not> is_wire ?k" "p_consumed (cn_progress s) + n \<le> p_consumed (cn_progress ?s)" by simp_all
  from conn_send_cases [OF inv ph side(1) lo side(2)] show ?thesis
  proof cases
    case (1 s')
    then show ?thesis using out
      by (intro that [of s' True])
         (auto simp: conn_end_def chunk_result_def closed_def sent_as_def same_task_def)
  next
    case (2 s')
    moreover have "lost env s' (p_read (cn_progress s'))"
      using lost_unsent [OF 2(3) bound] 2(3) n by (simp add: unsent_def same_task_def)
    ultimately show ?thesis
      by (intro that [of s' False])
         (auto simp: conn_end_def chunk_result_def closed_def unsent_def same_task_def observed_def transport_def)
  qed
qed

text \<open>A frame whose record was sent, when the connection goes on.\<close>

definition frame_passed :: "conn_env \<Rightarrow> nat \<Rightarrow> conn \<Rightarrow> bytes \<Rightarrow> conn \<Rightarrow> bytes \<Rightarrow> bool" where
  "frame_passed env cap s input s' rest \<longleftrightarrow>
     going env cap s' \<and> length rest < length input \<and>
     p_consumed (cn_progress s') + length rest = p_read (cn_progress s') \<and>
     transport s' = transport s \<and> p_read (cn_progress s') = p_read (cn_progress s) \<and>
     profile (cn_session s') = profile (cn_session s) \<and>
     (\<forall>zs. observed s' @ outlook env cap s' (rest @ zs) = observed s @ outlook env cap s (input @ zs))"

lemma pass_frame:
  assumes g: "going env cap s" and len: "p_consumed (cn_progress s) + length input = p_read (cn_progress s)"
    and cap: "cap \<le> ce_capacity env" and d: "framer_ok accept_any cap d" "framer_abs d = Live []"
    and abs: "framer_abs (cn_decoder s) = Live p"
    and step: "frame_step accept_any cap (Live p) input = (Live [], rest, Inr (Frame raw))" "length rest < length input"
  defines "n \<equiv> length input - length rest"
  obtains s' go where "handle_frame env (advanced s d n) (p_consumed (cn_progress s) + n) raw = Some (s', go)"
    "if go then frame_passed env cap s input s' rest else chunk_result env cap s input s' False"
proof -
  obtain k ses go where rep: "frame_report env (cn_session s) raw = (k, ses, go)" by (cases "frame_report env (cn_session s) raw")
  have live: "session_state (cn_session s) \<noteq> Ended" using g by (simp add: going_def)
  note fr = frame_report_phase [OF live rep]
  let ?s = "(advanced s d n)\<lparr>cn_session := ses\<rparr>"
  have pos: "0 < n" "p_consumed (cn_progress s) + n \<le> p_read (cn_progress s)"
    "p_consumed (cn_progress s) + n + length rest = p_read (cn_progress s)" using len step(2) by (auto simp: n_def)
  obtain lo where inv: "conn_inv env (accepts (profile (cn_session s))) ?s (phase_of (session_state (cn_session s))) lo"
    and lo: "lo \<le> p_consumed (cn_progress s) + n" using going_advanced [OF g pos(2), of d] by auto
  have out: "outlook env cap s (input @ zs) = k # (if go then stream_report env cap ses (rest @ zs) else [])" for zs
    using stream_report_frame [OF step(1)] rep abs by (simp add: outlook_def)
  have eval: "handle_frame env (advanced s d n) (p_consumed (cn_progress s) + n) raw =
      map_option (\<lambda>(s', b). (s', b \<and> go)) (conn_send env ?s (p_consumed (cn_progress s) + n) k)"
    using frame_step_payload [OF step(1)] cap rep by (intro handle_frame_eval) auto
  have len_sent: "length (cn_sent s) + 1 \<le> 1 + p_read (cn_progress s) + (p_consumed (cn_progress s) + n)"
    using g pos(1) by (simp add: going_def)
  have fields: "observed ?s = observed s" "transport ?s = transport s" by (simp_all add: observed_def transport_def)
  have wq: "wire_queued (cn_progress s) = p_read (cn_progress s)" using g by (simp add: going_def)
  have side: "p_consumed (cn_progress s) + n \<le> p_consumed (cn_progress ?s)" by simp
  from conn_send_cases [OF inv fr(1) fr(2) lo side] show ?thesis
  proof cases
    case (1 s')
    note f = 1(3) [unfolded sent_as_def same_task_def]
    have "if go then frame_passed env cap s input s' rest else chunk_result env cap s input s' False"
      using 1(2) f fr pos len_sent out wq step(2) d
      by (auto simp: frame_passed_def chunk_result_def going_def closed_def outlook_def fields is_wire_part)
    then show ?thesis using that [of s' go] 1(1) eval by simp
  next
    case (2 s')
    note f = 2(3) [unfolded unsent_def same_task_def]
    have "lost env s' (p_read (cn_progress s'))"
      by (rule lost_unsent [OF 2(3)]) (use f len_sent pos in auto)
    then have "chunk_result env cap s input s' False"
      using 2(2) f fr(3) fields by (auto simp: chunk_result_def closed_def transport_def)
    then show ?thesis using that [of s' False] 2(1) eval by simp
  qed
qed

lemma chunk_pass_cases:
  assumes g: "going env cap s" and len: "p_consumed (cn_progress s) + length input = p_read (cn_progress s)"
    and cap: "cap \<le> ce_capacity env"
  shows "(\<exists>s' go. chunk_pass env s input = Some (s', Inl go) \<and> chunk_result env cap s input s' go) \<or>
    (\<exists>s' rest. chunk_pass env s input = Some (s', Inr rest) \<and> frame_passed env cap s input s' rest)"
proof -
  have ok: "framer_ok accept_any cap (cn_decoder s)" using g by (simp add: going_def)
  obtain p where abs: "framer_abs (cn_decoder s) = Live p" using g by (cases "framer_abs (cn_decoder s)") (auto simp: going_def)
  show ?thesis
  proof (cases rule: raw_stream.feed_cases [OF ok, of input, case_names need frame error])
    case (need d')
    have d': "framer_abs d' = Live (p @ input)" using frame_step_needD [OF need(3)] abs by auto
    obtain lo where inv: "conn_inv env (accepts (profile (cn_session s))) (advanced s d' (length input))
        (phase_of (session_state (cn_session s))) lo"
      using going_advanced [OF g, of "length input" d'] len by auto
    have "chunk_pass env s input = Some (advanced s d' (length input), Inl True)"
      using chunk_pass_eval [OF need(1) g len] by simp
    moreover have "chunk_result env cap s input (advanced s d' (length input)) True"
      using g inv need(2) d' len abs by (auto simp: chunk_result_def going_def outlook_def)
    ultimately show ?thesis by blast
  next
    case (frame d' rest raw)
    have a': "framer_abs d' = Live []" using frame_step_frame_Live [OF frame(3)] .
    have st: "frame_step accept_any cap (Live p) input = (Live [], rest, Inr (Frame raw))"
      using frame(3) abs a' by simp
    obtain s' go where s': "handle_frame env (advanced s d' (length input - length rest))
        (p_consumed (cn_progress s) + (length input - length rest)) raw = Some (s', go)"
      "if go then frame_passed env cap s input s' rest else chunk_result env cap s input s' False"
      by (rule pass_frame [OF g len cap frame(2) a' abs st frame(4)])
    then show ?thesis using chunk_pass_eval [OF frame(1) g len] by (cases go) auto
  next
    case (error d' rest e)
    have n: "p_consumed (cn_progress s) + (length input - length rest) \<le> p_read (cn_progress s)" using len by simp
    have out: "\<forall>zs. outlook env cap s (input @ zs) = [REnded (identity (cn_session s)) (EndDecode e)]"
      using stream_report_error [OF error(3) [unfolded abs]] abs by (simp add: outlook_def)
    obtain s' b where "conn_end env (advanced s d' (length input - length rest))
        (p_consumed (cn_progress s) + (length input - length rest)) (identity (cn_session s)) (EndDecode e) = Some (s', b)"
      "chunk_result env cap s input s' False" by (rule pass_end [OF g n out])
    then show ?thesis using chunk_pass_eval [OF error(1) g len] by auto
  qed
qed

lemma decode_chunk_run:
  assumes cap: "cap \<le> ce_capacity env"
  shows "\<lbrakk>going env cap s; p_consumed (cn_progress s) + length input = p_read (cn_progress s)\<rbrakk> \<Longrightarrow>
    \<exists>s' go. decode_chunk env s input = Some (Some (s', go)) \<and> chunk_result env cap s input s' go"
proof (induction "length input" arbitrary: s input rule: less_induct)
  case less
  show ?case
  proof (cases "input = []")
    case True
    then show ?thesis using less.prems by (auto simp: decode_chunk.simps [of env s "[]"] chunk_result_def)
  next
    case False
    consider (stop) s' go where "chunk_pass env s input = Some (s', Inl go)" "chunk_result env cap s input s' go"
      | (more) s' rest where "chunk_pass env s input = Some (s', Inr rest)" "frame_passed env cap s input s' rest"
      using chunk_pass_cases [OF less.prems cap] by blast
    then show ?thesis
    proof cases
      case stop
      then show ?thesis using False by (auto simp: decode_chunk.simps [of env s input])
    next
      case (more s1 rest)
      note m = more(2) [unfolded frame_passed_def]
      obtain s' go where s': "decode_chunk env s1 rest = Some (Some (s', go))" "chunk_result env cap s1 rest s' go"
        using less.hyps [of rest s1] m by blast
      moreover have "chunk_result env cap s input s' go"
        using s'(2) m by (auto simp: chunk_result_def split: if_splits)
      ultimately show ?thesis using False more(1) by (auto simp: decode_chunk.simps [of env s input])
    qed
  qed
qed

section \<open>Reads, ends and the whole task\<close>

definition boundary :: "conn_env \<Rightarrow> nat \<Rightarrow> conn \<Rightarrow> bool" where
  "boundary env cap s \<longleftrightarrow> going env cap s \<and> p_consumed (cn_progress s) = p_read (cn_progress s)"

lemma conn_end_result:
  assumes g: "boundary env cap s" and n: "p_read (cn_progress s) \<le> n"
    and t: "cn_sent t = cn_sent s" "wire_queued (cn_progress t) = wire_queued (cn_progress s)"
      "records_queued (cn_progress t) = records_queued (cn_progress s)"
      "terminal_queued (cn_progress t) = terminal_queued (cn_progress s)"
      "p_read (cn_progress s) \<le> p_read (cn_progress t)" "p_read (cn_progress t) \<le> U64_MAX" "p_read (cn_progress t) \<le> n"
      "p_consumed (cn_progress t) = p_consumed (cn_progress s)"
  obtains s' b where "conn_end env t (p_read (cn_progress s)) (identity (cn_session s)) r = Some (s', b)"
    "closed env (accepts (profile (cn_session s))) s'" "transport s' = transport s"
    "lost env s' n \<or> observed s' = observed s @ [REnded (identity (cn_session s)) r]"
    "cn_session s' = cn_session t" "p_read (cn_progress s') = p_read (cn_progress t)"
proof -
  let ?ok = "accepts (profile (cn_session s))" and ?k = "REnded (identity (cn_session s)) r"
  have live: "session_state (cn_session s) \<noteq> Ended" using g by (simp add: boundary_def going_def)
  obtain lo where "conn_inv env ?ok s (phase_of (session_state (cn_session s))) lo"
    using g by (auto simp: boundary_def going_def)
  then have inv: "conn_inv env ?ok t (phase_of (session_state (cn_session s))) lo" and lo: "lo \<le> p_read (cn_progress s)"
    using t by (auto simp: conn_inv_def Let_def)
  have side: "\<not> is_wire ?k" "p_read (cn_progress s) \<le> p_consumed (cn_progress t)"
    using t g by (simp_all add: boundary_def)
  have tr: "transport t = transport s" "observed t = observed s" using t(1) by (simp_all add: transport_def observed_def)
  from conn_send_cases [OF inv phase_end [OF live] side(1) lo side(2)] show ?thesis
  proof cases
    case (1 s')
    show ?thesis
      by (rule that [of s' True])
         (use 1 tr in \<open>auto simp: conn_end_def closed_def sent_as_def same_task_def\<close>)
  next
    case (2 s')
    have "lost env s' m" if "p_read (cn_progress t) \<le> m" for m
      by (rule lost_unsent [OF 2(3)]) (use g t that in \<open>auto simp: boundary_def going_def\<close>)
    then show ?thesis
      by (intro that [of s' False])
         (use 2 t tr in \<open>auto simp: conn_end_def closed_def unsent_def same_task_def transport_def\<close>)
  qed
qed

definition read_result_ok :: "conn_env \<Rightarrow> nat \<Rightarrow> conn \<Rightarrow> bytes \<Rightarrow> conn \<Rightarrow> bool \<Rightarrow> bool" where
  "read_result_ok env cap s bs s' go \<longleftrightarrow>
     (if go
      then boundary env cap s' \<and> transport s' = transport s @ bs \<and>
        profile (cn_session s') = profile (cn_session s) \<and>
        p_read (cn_progress s') = p_read (cn_progress s) + length bs \<and>
        (\<forall>zs. observed s' @ outlook env cap s' zs = observed s @ outlook env cap s (bs @ zs))
      else closed env (accepts (profile (cn_session s))) s' \<and> prefix (transport s') (transport s @ bs) \<and>
        (length bs \<le> ce_capacity env \<longrightarrow> lost env s' (p_read (cn_progress s) + length bs) \<or>
           transport s' = transport s @ bs \<and> (\<forall>zs. observed s' = observed s @ outlook env cap s (bs @ zs))))"

lemma conn_chunk_refused:
  assumes g: "boundary env cap s" and t: "cn_sent t = cn_sent s" "wire_queued (cn_progress t) = wire_queued (cn_progress s)"
      "records_queued (cn_progress t) = records_queued (cn_progress s)"
      "terminal_queued (cn_progress t) = terminal_queued (cn_progress s)"
      "p_read (cn_progress s) \<le> p_read (cn_progress t)" "p_read (cn_progress t) \<le> U64_MAX"
      "p_read (cn_progress t) \<le> p_read (cn_progress s) + length bs"
      "p_consumed (cn_progress t) = p_consumed (cn_progress s)"
    and over: "length bs \<le> ce_capacity env \<Longrightarrow> U64_MAX < p_read (cn_progress s) + length bs"
  shows "\<exists>s'. Some (stop_with (conn_end env t (p_read (cn_progress s)) (identity (cn_session s)) r)) = Some (Some (s', False)) \<and>
    read_result_ok env cap s bs s' False"
proof -
  obtain s' b where s': "conn_end env t (p_read (cn_progress s)) (identity (cn_session s)) r = Some (s', b)"
    "closed env (accepts (profile (cn_session s))) s'" "transport s' = transport s"
    by (rule conn_end_result [OF g _ t(1-6) t(7,8), of r]) auto
  moreover have "length bs \<le> ce_capacity env \<Longrightarrow> lost env s' (p_read (cn_progress s) + length bs)"
    using over by (simp add: lost_def)
  ultimately show ?thesis by (auto simp: stop_with_def read_result_ok_def)
qed

lemma conn_chunk_run:
  assumes g: "boundary env cap s" and cap: "cap \<le> ce_capacity env" and bs: "bs \<noteq> []"
  shows "\<exists>s' go. conn_chunk env s bs = Some (Some (s', go)) \<and> read_result_ok env cap s bs s' go"
proof -
  let ?p = "cn_progress s" and ?at = "ce_clock env (cn_ticks s)" and ?n = "p_read (cn_progress s) + length bs"
  let ?t = "s\<lparr>cn_ticks := cn_ticks s + 1\<rparr>"
  obtain lo where inv: "conn_inv env (accepts (profile (cn_session s))) s (phase_of (session_state (cn_session s))) lo"
    using g by (auto simp: boundary_def going_def)
  note i = inv [unfolded conn_inv_def Let_def]
  have wq: "wire_queued ?p = p_read ?p" "p_consumed ?p = p_read ?p" "session_state (cn_session s) \<noteq> Ended"
    "length (cn_sent s) \<le> 1 + p_read ?p + p_consumed ?p"
    using g by (simp_all add: boundary_def going_def)
  consider (over) "U64_MAX < ?n" | (large) "?n \<le> U64_MAX" "ce_capacity env < length bs" | (fits) "?n \<le> U64_MAX" "length bs \<le> ce_capacity env"
    by linarith
  then show ?thesis
  proof cases
    case over
    let ?u = "?t\<lparr>cn_progress := ?p\<lparr>counter_overflow := True\<rparr>\<rparr>"
    have "observe_read ?p (length bs) = (?p\<lparr>counter_overflow := True\<rparr>, Inl CounterOverflow)"
      using over by (simp add: observe_read_def add_observation_def try_from_def checked_add_def)
    then have "conn_chunk env s bs = Some (stop_with (conn_end env ?u (p_read ?p) (identity (cn_session s)) OffsetExhausted))"
      using wq by (simp add: conn_chunk_def conn_now_def)
    with conn_chunk_refused [OF g, of ?u bs OffsetExhausted] show ?thesis using over i by auto
  next
    case large
    let ?u = "?t\<lparr>cn_progress := ?p\<lparr>p_read := ?n\<rparr>\<rparr>" and ?e = "TooLarge (length bs) (ce_capacity env)"
    have "observe_read ?p (length bs) = (?p\<lparr>p_read := ?n\<rparr>, Inr (p_read ?p))"
      using large by (simp add: observe_read_def add_observation_def try_from_def checked_add_def)
    then have "conn_chunk env s bs = Some (stop_with (conn_end env ?u (p_read ?p) (identity (cn_session s)) (ResourceRefused ?e)))"
      using large wq by (simp add: conn_chunk_def conn_now_def conn_copy_def Let_def)
    with conn_chunk_refused [OF g, of ?u bs "ResourceRefused ?e"] show ?thesis using large i by auto
  next
    case fits
    let ?u = "?t\<lparr>cn_progress := ?p\<lparr>p_read := ?n\<rparr>\<rparr>" and ?k = "RWire (owned env bs)"
    have read: "observe_read ?p (length bs) = (?p\<lparr>p_read := ?n\<rparr>, Inr (p_read ?p))"
      using fits by (simp add: observe_read_def add_observation_def try_from_def checked_add_def)
    have eval: "conn_chunk env s bs =
        and_then (Some (send_at env ?u (p_read ?p) ?at ?k)) (\<lambda>(s, ok). if \<not> ok then yields (s, False) else decode_chunk env s bs)"
      using fits wq by (simp add: conn_chunk_def conn_now_def read conn_copy_fits Let_def)
    have inv_u: "conn_inv env (accepts (profile (cn_session s))) ?u (phase_of (session_state (cn_session s))) lo"
      using i fits by (auto simp: conn_inv_def)
    have len: "length (wire_part ?k) = length bs" "wire_part ?k = bs" by (simp_all add: owned_def as_slice_def)
    have room: "wire_queued (cn_progress ?u) + length (wire_part ?k) \<le> p_read (cn_progress ?u)" using wq len by simp
    have off: "if is_wire ?k then p_read ?p = wire_queued (cn_progress ?u) else lo \<le> p_read ?p \<and> p_read ?p \<le> p_consumed (cn_progress ?u)"
      using wq by simp
    have tr: "transport ?u = transport s" "observed ?u = observed s" by (simp_all add: transport_def observed_def)
    from send_at_cases [where at = ?at, OF inv_u phase_wire [OF wq(3)] room off] show ?thesis
    proof cases
      case (1 s1)
      note f = 1(3) [unfolded sent_as_def same_task_def tr]
      have "going env cap s1"
        using 1(2) f g len bs wq by (cases bs) (auto simp: boundary_def going_def)
      moreover have "p_consumed (cn_progress s1) + length bs = p_read (cn_progress s1)" using f wq by simp
      ultimately obtain s' go where s': "decode_chunk env s1 bs = Some (Some (s', go))" "chunk_result env cap s1 bs s' go"
        using decode_chunk_run [OF cap] by blast
      moreover have "outlook env cap s1 = outlook env cap s"
        using f by (simp add: fun_eq_iff outlook_def split: pending.split)
      then have "read_result_ok env cap s bs s' go"
        using s'(2) f len by (auto simp: chunk_result_def read_result_ok_def boundary_def split: if_splits)
      ultimately show ?thesis using eval 1(1) by auto
    next
      case (2 s')
      note f = 2(3) [unfolded unsent_def same_task_def]
      have "lost env s' ?n" "lost env s' (p_read (cn_progress s'))"
        by (rule lost_unsent [OF 2(3)]; use f wq in simp)+
      then have "read_result_ok env cap s bs s' False"
        using 2(2) f tr by (auto simp: read_result_ok_def closed_def transport_def)
      then show ?thesis using eval 2(1) by (auto simp: yields_def)
    qed
  qed
qed

lemma live_pending:
  assumes "framer_ok accept_any cap f" "framer_abs f = Live p"
  shows "parse_frames accept_any cap p = ([], Live p, None)"
proof -
  have "frame_step accept_any cap (Live []) p = (Live p, [], Inr NeedInput)"
  proof (cases "framer_state f")
    case (Header r)
    then show ?thesis using assms by (auto simp: framer_ok_def framer_inv_def framer_abs_def frame_step_short)
  next
    case (Body t len r)
    then obtain a b c where "header f = [a, b, c]"
      using assms(1) header_three [of "header f"] by (auto simp: framer_ok_def framer_inv_def)
    then show ?thesis using assms Body
      by (auto simp: framer_ok_def framer_inv_def framer_abs_def frame_step_Cons3)
  qed (use assms in \<open>simp add: framer_abs_def\<close>)
  then show ?thesis by (simp add: parse_frames_step [of accept_any cap p])
qed

lemma conn_eof_run:
  assumes g: "boundary env cap s"
  shows "\<exists>s' b. conn_eof env s = Some (s', b) \<and> closed env (accepts (profile (cn_session s))) s' \<and> transport s' = transport s \<and>
    (lost env s' (p_read (cn_progress s)) \<or> observed s' = observed s @ outlook env cap s [])"
proof -
  have live: "session_state (cn_session s) \<noteq> Ended" and ok: "framer_ok accept_any cap (cn_decoder s)"
    using g by (auto simp: boundary_def going_def)
  obtain p where abs: "framer_abs (cn_decoder s) = Live p"
    using g by (cases "framer_abs (cn_decoder s)") (auto simp: boundary_def going_def)
  let ?uuid = "identity (cn_session s)" and ?o = "p_read (cn_progress s)"
  let ?ses = "if p = [] then (cn_session s)\<lparr>session_state := Ended\<rparr> else cn_session s"
  obtain r where r: "stream_end (Live p) None (cn_session s) = REnded ?uuid r" by simp
  have off: "conn_offset s = ?o" using g by (simp add: conn_offset_def boundary_def)
  have eval: "conn_eof env s = conn_end env (s\<lparr>cn_session := ?ses\<rparr>) ?o ?uuid r"
    using r abs finish_abs [OF ok] live
    by (auto simp: conn_eof_def end_of_input_def session_end_def off Let_def split: if_splits)
  have rep: "outlook env cap s [] = [REnded ?uuid r]"
    using r by (simp add: outlook_def abs stream_report_def live_pending [OF ok abs] del: stream_end.simps)
  obtain s' b where "conn_end env (s\<lparr>cn_session := ?ses\<rparr>) ?o ?uuid r = Some (s', b)"
    "closed env (accepts (profile (cn_session s))) s'" "transport s' = transport s"
    "lost env s' ?o \<or> observed s' = observed s @ [REnded ?uuid r]"
    by (rule conn_end_result [OF g order_refl, of "s\<lparr>cn_session := ?ses\<rparr>" r])
       (use g in \<open>auto simp: boundary_def going_def conn_inv_def Let_def\<close>)
  then show ?thesis using eval rep by auto
qed

fun read_bytes :: "read_result list \<Rightarrow> bytes" where
  "read_bytes [] = []"
| "read_bytes (ReadBytes bs # rs) = bs @ read_bytes rs"
| "read_bytes (ReadErr e # rs) = read_bytes rs"

definition loop_result :: "conn_env \<Rightarrow> nat \<Rightarrow> IncomingProfile \<Rightarrow> bytes \<Rightarrow> conn \<Rightarrow> bool \<Rightarrow> bool" where
  "loop_result env cap prof bs s' fin \<longleftrightarrow>
     (if fin then closed env (accepts prof) s' \<and> prefix (transport s') bs
      else boundary env cap s' \<and> profile (cn_session s') = prof \<and> transport s' = bs)"

lemma receive_loop_run:
  assumes cap: "cap \<le> ce_capacity env"
  shows "boundary env cap s \<Longrightarrow> \<exists>s' fin. receive_loop env s reads = Some (Some (s', fin)) \<and>
    loop_result env cap (profile (cn_session s)) (transport s @ read_bytes reads) s' fin"
proof (induction reads arbitrary: s)
  case Nil
  then show ?case by (auto simp: yields_def loop_result_def)
next
  case (Cons rd reads)
  show ?case
  proof (cases rd)
    case (ReadErr e)
    have off: "conn_offset s = p_read (cn_progress s)" using Cons.prems by (simp add: conn_offset_def boundary_def)
    obtain s' b where "conn_end env s (p_read (cn_progress s)) (identity (cn_session s)) (Transport e) = Some (s', b)"
      "closed env (accepts (profile (cn_session s))) s'" "transport s' = transport s"
      by (rule conn_end_result [OF Cons.prems order_refl, of s "Transport e"])
         (use Cons.prems in \<open>auto simp: boundary_def going_def conn_inv_def Let_def\<close>)
    then show ?thesis using ReadErr by (auto simp: off yields_def loop_result_def)
  next
    case (ReadBytes bs)
    show ?thesis
    proof (cases "bs = []")
      case True
      obtain s' b where "conn_eof env s = Some (s', b)" "closed env (accepts (profile (cn_session s))) s'" "transport s' = transport s"
        using conn_eof_run [OF Cons.prems] by blast
      then show ?thesis using ReadBytes True by (auto simp: yields_def loop_result_def)
    next
      case False
      obtain s1 go where s1: "conn_chunk env s bs = Some (Some (s1, go))" "read_result_ok env cap s bs s1 go"
        using conn_chunk_run [OF Cons.prems cap False] by blast
      show ?thesis
      proof (cases go)
        case True
        then have "boundary env cap s1" using s1(2) by (simp add: read_result_ok_def)
        from Cons.IH [OF this] show ?thesis using s1 True False ReadBytes by (auto simp: read_result_ok_def)
      next
        case stop: False
        then have "loop_result env cap (profile (cn_session s)) (transport s @ read_bytes (rd # reads)) s1 True"
          using s1(2) ReadBytes prefix_prefix [of "transport s1" "transport s @ bs" "read_bytes reads"]
          by (simp add: read_result_ok_def loop_result_def)
        moreover have "receive_loop env s (rd # reads) = Some (Some (s1, True))"
          using stop s1(1) False ReadBytes by (simp add: yields_def)
        ultimately show ?thesis by blast
      qed
    qed
  qed
qed

text \<open>
  With a consumer that stays, the observations are the report of the bytes read, and equally of
  the transport bytes that were handed off: what a connection that ends early leaves unread does
  not matter.
\<close>

definition reported :: "conn_env \<Rightarrow> nat \<Rightarrow> conn \<Rightarrow> bytes \<Rightarrow> conn \<Rightarrow> bool" where
  "reported env cap s bs s' \<longleftrightarrow>
     (\<exists>used rest. bs = used @ rest \<and> transport s' = transport s @ used \<and>
        observed s' = observed s @ outlook env cap s bs \<and> observed s' = observed s @ outlook env cap s used)"

lemma receive_loop_report:
  assumes cap: "cap \<le> ce_capacity env"
    and fits: "\<forall>bs \<in> set chunks. bs \<noteq> [] \<and> length bs \<le> ce_capacity env"
    and total: "2 * (p_read (cn_progress s) + length (concat chunks)) + 2 \<le> U64_MAX" and gone: "\<forall>n. ce_accepts env n"
  shows "boundary env cap s \<Longrightarrow> \<exists>s'. receive_loop env s (map ReadBytes chunks @ [ReadBytes []]) = Some (Some (s', True)) \<and>
    reported env cap s (concat chunks) s'"
  using fits total
proof (induction chunks arbitrary: s)
  case Nil
  then obtain s' b where "conn_eof env s = Some (s', b)" "transport s' = transport s" "observed s' = observed s @ outlook env cap s []"
    using conn_eof_run [OF Nil(1)] gone by (auto simp: lost_def)
  then show ?case by (simp add: yields_def reported_def)
next
  case (Cons bs chunks)
  have bs: "bs \<noteq> []" "length bs \<le> ce_capacity env" using Cons.prems(2) by auto
  obtain s1 go where s1: "conn_chunk env s bs = Some (Some (s1, go))" "read_result_ok env cap s bs s1 go"
    using conn_chunk_run [OF Cons.prems(1) cap bs(1)] by blast
  show ?case
  proof (cases go)
    case True
    then have r: "boundary env cap s1" "p_read (cn_progress s1) = p_read (cn_progress s) + length bs" "transport s1 = transport s @ bs"
      "\<And>zs. observed s1 @ outlook env cap s1 zs = observed s @ outlook env cap s (bs @ zs)"
      using s1(2) by (auto simp: read_result_ok_def)
    from Cons.IH [OF r(1)] Cons.prems(2,3) r(2) obtain s' where
      s': "receive_loop env s1 (map ReadBytes chunks @ [ReadBytes []]) = Some (Some (s', True))" "reported env cap s1 (concat chunks) s'" by auto
    then obtain used rest where "concat chunks = used @ rest" "transport s' = transport s1 @ used"
      "observed s' = observed s1 @ outlook env cap s1 (concat chunks)" "observed s' = observed s1 @ outlook env cap s1 used"
      by (auto simp: reported_def)
    then have "reported env cap s (concat (bs # chunks)) s'"
      unfolding reported_def by (intro exI [of _ "bs @ used"] exI [of _ rest]) (simp add: r(3,4))
    then show ?thesis using s1(1) s'(1) True bs by simp
  next
    case False
    then have r: "transport s1 = transport s @ bs" "\<And>zs. observed s1 = observed s @ outlook env cap s (bs @ zs)"
      using s1(2) bs gone Cons.prems(3) by (auto simp: read_result_ok_def lost_def)
    have "reported env cap s (concat (bs # chunks)) s1"
      unfolding reported_def
      by (intro exI [of _ bs] exI [of _ "concat chunks"]) (use r(1) r(2) [of "concat chunks"] r(2) [of "[]"] in simp)
    then show ?thesis using s1(1) False bs by (simp add: yields_def)
  qed
qed

lemma receive_from_start:
  obtains (admitted) s where "conn_send env (conn_new pc prof) 0 (RConnected (ce_peer env)) = Some (s, True)"
    "boundary env pc s" "profile (cn_session s) = prof" "cn_session s = with_profile prof" "transport s = []"
    "observed s = [RConnected (ce_peer env)]" "framer_abs (cn_decoder s) = Live []" "p_read (cn_progress s) = 0"
  | (gone) s where "conn_send env (conn_new pc prof) 0 (RConnected (ce_peer env)) = Some (s, False)"
    "closed env (accepts prof) s" "transport s = []" "\<not> ce_accepts env 0"
proof -
  let ?s = "conn_new pc prof" and ?k = "RConnected (ce_peer env)"
  have inv: "conn_inv env (accepts prof) ?s AwaitingConnection 0"
    by (simp add: conn_inv_def conn_new_def Progress_default_def)
  have ph: "phase_step (accepts prof) AwaitingConnection ?k = Some RAwaitingUuid" "\<not> is_wire ?k" by simp_all
  have init: "cn_session ?s = with_profile prof" "transport ?s = []" "observed ?s = []" "cn_sent ?s = []"
    "p_read (cn_progress ?s) = 0" "p_consumed (cn_progress ?s) = 0" "wire_queued (cn_progress ?s) = 0"
    "framer_ok accept_any pc (cn_decoder ?s)" "framer_abs (cn_decoder ?s) = Live []"
    using framer_ok_new [of accept_any "replicate pc 0"] framer_abs_new [of "replicate pc 0"]
    by (simp_all add: conn_new_def transport_def observed_def Progress_default_def)
  from conn_send_cases [OF inv ph order_refl le0] show ?thesis
  proof cases
    case (1 s)
    note f = 1(3) [unfolded sent_as_def same_task_def]
    show ?thesis
      by (rule admitted [of s])
         (use 1 f init in \<open>auto simp: boundary_def going_def with_profile_def\<close>)
  next
    case (2 s)
    note f = 2(3) [unfolded unsent_def same_task_def]
    show ?thesis
      by (rule gone [of s])
         (use 2 f init in \<open>auto simp: closed_def lost_def transport_def U64_MAX_def\<close>)
  qed
qed

section \<open>Whole connections\<close>

lemma receive_from_protocol:
  assumes "pc \<le> ce_capacity env"
  shows "\<exists>s fin st lo. receive_from env pc prof reads = Some (Some (s, fin)) \<and>
    stream_run (ce_id env) (accepts prof) (AwaitingConnection, 0, 0) (cn_sent s) = Some (st, lo, wire_queued (cn_progress s)) \<and>
    records_queued (cn_progress s) = length (cn_sent s) \<and> (terminal_queued (cn_progress s) \<longleftrightarrow> st = RecEnded) \<and>
    wire_queued (cn_progress s) \<le> p_read (cn_progress s) \<and> p_read (cn_progress s) \<le> U64_MAX \<and>
    prefix (transport s) (read_bytes reads) \<and>
    (if fin then st = RecEnded \<or> \<not> ce_accepts env (length (cn_sent s)) \<or> U64_MAX < 2 * p_read (cn_progress s) + 2
     else transport s = read_bytes reads)"
proof -
  have "\<exists>s' fin. receive_from env pc prof reads = Some (Some (s', fin)) \<and> loop_result env pc prof (read_bytes reads) s' fin"
  proof (rule receive_from_start [of env pc prof])
    fix s assume s: "conn_send env (conn_new pc prof) 0 (RConnected (ce_peer env)) = Some (s, True)" "boundary env pc s"
      "profile (cn_session s) = prof" "transport s = []"
    then show ?thesis using receive_loop_run [OF assms s(2), of reads] by (simp add: receive_from_def)
  next
    fix s assume "conn_send env (conn_new pc prof) 0 (RConnected (ce_peer env)) = Some (s, False)"
      "closed env (accepts prof) s" "transport s = []"
    then show ?thesis by (auto simp: receive_from_def yields_def loop_result_def)
  qed
  then obtain s' fin where r: "receive_from env pc prof reads = Some (Some (s', fin))"
    "loop_result env pc prof (read_bytes reads) s' fin" by blast
  obtain st lo where "conn_inv env (accepts prof) s' st lo" "fin \<longrightarrow> st = RecEnded \<or> lost env s' (p_read (cn_progress s'))"
    using r(2) by (cases fin) (auto simp: loop_result_def closed_def boundary_def going_def)
  then show ?thesis using r
    by (intro exI [of _ s'] exI [of _ fin] exI [of _ st] exI [of _ lo])
       (cases fin; simp add: conn_inv_def Let_def lost_def loop_result_def)
qed

lemma receive_from_used:
  assumes "pc \<le> ce_capacity env" "list_all (\<lambda>bs. bs \<noteq> [] \<and> length bs \<le> ce_capacity env) chunks"
    and "2 * length (concat chunks) + 2 \<le> U64_MAX" "\<forall>n. ce_accepts env n"
  obtains s rest where "receive_from env pc prof (map ReadBytes chunks @ [ReadBytes []]) = Some (Some (s, True))"
    "filter (\<lambda>k. \<not> is_wire k) (map rec_kind (cn_sent s)) =
      RConnected (ce_peer env) # stream_report env pc (with_profile prof) (concat chunks)"
    "concat chunks = transport s @ rest"
    "stream_report env pc (with_profile prof) (transport s) = stream_report env pc (with_profile prof) (concat chunks)"
proof (rule receive_from_start [of env pc prof])
  fix s assume s: "conn_send env (conn_new pc prof) 0 (RConnected (ce_peer env)) = Some (s, True)" "boundary env pc s"
    "cn_session s = with_profile prof" "transport s = []" "observed s = [RConnected (ce_peer env)]"
    "framer_abs (cn_decoder s) = Live []" "p_read (cn_progress s) = 0"
  obtain s' where "receive_loop env s (map ReadBytes chunks @ [ReadBytes []]) = Some (Some (s', True))"
    "reported env pc s (concat chunks) s'"
    using receive_loop_report [OF assms(1) _ _ assms(4) s(2), of chunks] assms(2,3) s(7) by (auto simp: list_all_iff)
  then show ?thesis using s that by (auto simp: receive_from_def reported_def outlook_def observed_def)
qed (use assms(4) in blast)

lemma receive_from_reports:
  assumes "pc \<le> ce_capacity env" "list_all (\<lambda>bs. bs \<noteq> [] \<and> length bs \<le> ce_capacity env) chunks"
    and "2 * length (concat chunks) + 2 \<le> U64_MAX" "\<forall>n. ce_accepts env n"
  shows "\<exists>s. receive_from env pc prof (map ReadBytes chunks @ [ReadBytes []]) = Some (Some (s, True)) \<and>
    filter (\<lambda>k. \<not> is_wire k) (map rec_kind (cn_sent s)) =
      RConnected (ce_peer env) # stream_report env pc (with_profile prof) (concat chunks)"
  using receive_from_used [OF assms, of prof] by metis

section \<open>Properties\<close>

text \<open>
  C8: Whatever a socket returns, whenever the consumer leaves and however long the connection
  lives, the task of a connection neither panics nor loops.  What it hands off obeys the record
  protocol: its own identity throughout, the accepted socket first, transport bytes contiguous
  from zero and a prefix of the bytes read, offsets that never decrease nor pass them, audio and
  digits of the one started identity at accepted rates, and at most one end, which is last.  Its
  counters equal what was handed off, and a task that has ended without a terminal record lost
  its consumer or read so much that a counter was near its maximum.
\<close>

theorem connection_stream_protocol:
  assumes "pc \<le> ce_capacity env"
  shows "\<exists>s fin st lo. receive_from env pc prof reads = Some (Some (s, fin)) \<and>
    stream_run (ce_id env) (accepts prof) (AwaitingConnection, 0, 0) (cn_sent s) = Some (st, lo, wire_queued (cn_progress s)) \<and>
    records_queued (cn_progress s) = length (cn_sent s) \<and> (terminal_queued (cn_progress s) \<longleftrightarrow> st = RecEnded) \<and>
    wire_queued (cn_progress s) \<le> p_read (cn_progress s) \<and> p_read (cn_progress s) \<le> U64_MAX \<and>
    prefix (transport s) (read_bytes reads) \<and>
    (if fin then st = RecEnded \<or> \<not> ce_accepts env (length (cn_sent s)) \<or> U64_MAX < 2 * p_read (cn_progress s) + 2
     else transport s = read_bytes reads)"
  using assms by (rule receive_from_protocol)

definition demo_env :: "nat \<Rightarrow> conn_env" where
  "demo_env n =
     \<lparr>ce_id = ConnectionId 1 2, ce_peer = ''peer'', ce_retention = 0, ce_capacity = 4096, ce_clock = (\<lambda>n. n),
      ce_accepts = (\<lambda>k. k < n)\<rparr>"

theorem connection_stream_protocol_witness:
  "16 \<le> ce_capacity (demo_env 1) \<and>
   (\<exists>s fin st lo. receive_from (demo_env 1) 16 PCM_8_KHZ [ReadBytes [1, 0], ReadBytes []] = Some (Some (s, fin)) \<and>
      stream_run (ConnectionId 1 2) (accepts PCM_8_KHZ) (AwaitingConnection, 0, 0) (cn_sent s) =
        Some (st, lo, wire_queued (cn_progress s)) \<and> prefix (transport s) [1, 0])"
  using connection_stream_protocol [of 16 "demo_env 1" PCM_8_KHZ "[ReadBytes [1, 0], ReadBytes []]"]
  by (auto simp: demo_env_def)

text \<open>
  C5: While the consumer keeps receiving, a connection that is read to its end reports exactly
  what its byte stream deserves, however the bytes are cut into reads: the accepted socket, then
  the observation of every frame the reference parser finds, in order and with the payload's own
  bytes, up to the first one that ends the session, and otherwise the end the stream itself
  gives: clean, truncated with the exact counts, or the decoder's error.
\<close>

theorem connection_reports_stream:
  assumes "pc \<le> ce_capacity env" "list_all (\<lambda>bs. bs \<noteq> [] \<and> length bs \<le> ce_capacity env) chunks"
    and "2 * length (concat chunks) + 2 \<le> U64_MAX" "\<forall>n. ce_accepts env n"
  shows "\<exists>s. receive_from env pc prof (map ReadBytes chunks @ [ReadBytes []]) = Some (Some (s, True)) \<and>
    filter (\<lambda>k. \<not> is_wire k) (map rec_kind (cn_sent s)) =
      RConnected (ce_peer env) # stream_report env pc (with_profile prof) (concat chunks)"
  using assms by (rule receive_from_reports)

theorem connection_reports_stream_witness:
  "\<exists>s. receive_from (demo_env 9\<lparr>ce_accepts := (\<lambda>n. True)\<rparr>) 16 PCM_8_KHZ [ReadBytes [0, 0], ReadBytes [0], ReadBytes []] =
     Some (Some (s, True)) \<and>
   filter (\<lambda>k. \<not> is_wire k) (map rec_kind (cn_sent s)) = [RConnected ''peer'', REnded None EndTerminate]"
proof -
  let ?env = "demo_env 9\<lparr>ce_accepts := (\<lambda>n. True)\<rparr>"
  have "stream_report ?env 16 (with_profile PCM_8_KHZ) [0, 0, 0] = [REnded None EndTerminate]"
    by (simp add: stream_report_def frame_report_def typed_policy_def known_def wire_consts with_profile_def receive_def
        session_end_def identity_def from_be_bytes16_def)
  then show ?thesis
    using connection_reports_stream [of 16 ?env "[[0, 0], [0]]" PCM_8_KHZ]
    by (simp add: demo_env_def U64_MAX_def)
qed

end
