(* ===== verification/Receiver_Driver.thy ===== *)
theory Receiver_Driver
  imports Run_Summary Connection_Controls Connection_Stream
begin

text \<open>
  The worker that owns a listener and its connections (\<open>crates/phonowire-receiver/src/driver.rs\<close>):
  binding, admission, turns of runnable tasks, retirement, stop, and the summary of a run.

  \<open>Worker\<close> keeps the scheduler, the byte account and the channel in \<open>wk_core\<close>, the record its
  tasks share.  The operating system (the listener, the poller, the clock) is the parameter
  \<open>AcceptIo\<close> over its own state.  The worker sees a connection future as \<open>task_ops\<close>;
  \<open>Connection_Future\<close> is the one of \<open>connection.rs\<close>.  Other threads act through the shared signals, channel, account and controls; their
  actions are the list each poll of the operating system returns with its events, and
  \<open>wk_outside\<close> is the storage they own: a thread can drop only what it received or copied.
  Instants and durations count milliseconds.
\<close>

section \<open>State\<close>

record 'f Entry =
  future :: 'f
  entry_context :: TaskContext

record 'f Worker =
  wk_core :: worker
  wk_limits :: Limits
  wk_instance :: nat
  wk_profile :: IncomingProfile
  wk_controls :: ConnectionControls
  wk_live :: "(Token, 'f Entry) btree"
  wk_next :: nat
  listener_ready :: bool
  accept_paused_at :: "instant option"
  wk_summary :: RunSummary
  wk_outside :: "Charge list"

text \<open>
  The compiler's future of \<open>connection::receive\<close>: creation, one poll, and destruction, which gives
  back what the future still owns.
\<close>

record 'f task_ops =
  start_task :: "nat \<Rightarrow> IncomingProfile \<Rightarrow> TaskContext \<Rightarrow> 'f"
  poll_task :: "io_error + unit \<Rightarrow> worker \<Rightarrow> 'f \<Rightarrow> TaskContext \<Rightarrow> (worker \<times> 'f \<times> TaskContext \<times> unit poll) run"
  drop_task :: "io_error + unit \<Rightarrow> worker \<Rightarrow> 'f \<Rightarrow> TaskContext \<Rightarrow> worker run"

text \<open>What other threads do to the shared state, each one locked section.\<close>

datatype external =
    ExtStop
  | ExtClose ConnectionId
  | ExtReceive
  | ExtCopy bytes
  | ExtRelease nat
  | ExtDisconnect

record 'a AcceptIo =
  io_accept :: "'a \<Rightarrow> 'a \<times> (io_error + SocketAddr)"
  io_register :: "'a \<Rightarrow> Token \<Rightarrow> 'a \<times> (io_error + unit)"
  io_now :: "'a \<Rightarrow> instant"
  io_poll :: "'a \<Rightarrow> nat \<Rightarrow> 'a \<times> external list \<times> (io_error + Token list)"
  io_wake :: "'a \<Rightarrow> io_error + unit"
  io_kind_of :: "int \<Rightarrow> ErrorKind"

abbreviation wk_signals :: "'f Worker \<Rightarrow> Signals" where
  "wk_signals w \<equiv> signals (w_sched (wk_core w))"

definition with_signals :: "worker \<Rightarrow> Signals \<Rightarrow> worker" where
  "with_signals c g = c\<lparr>w_sched := (w_sched c)\<lparr>signals := g\<rparr>\<rparr>"

text \<open>A wake raised by the channel or the account goes to the signals.\<close>

definition raise_wakes :: "io_error + unit \<Rightarrow> worker \<Rightarrow> waker list \<Rightarrow> worker" where
  "raise_wakes wr c ks = with_signals c (fold (\<lambda>k g. resource_wake wr g k) ks (signals (w_sched c)))"

type_synonym shared = "worker \<times> ConnectionControls \<times> Charge list"

fun external_exec :: "io_error + unit \<Rightarrow> external \<Rightarrow> shared \<Rightarrow> shared" where
  "external_exec wr ExtStop (c, k, xs) = (with_signals c (fst (publish wr (signals (w_sched c)) SigStop)), k, xs)"
| "external_exec wr (ExtClose i) (c, k, xs) =
     (case close wr (signals (w_sched c)) k i of (g, k', _) \<Rightarrow> (with_signals c g, k', xs))"
| "external_exec wr ExtReceive (c, k, xs) =
     (case try_recv (w_hand c) of (h, r, ks) \<Rightarrow>
        (raise_wakes wr (c\<lparr>w_hand := h\<rparr>) ks, k, case r of Inl _ \<Rightarrow> xs | Inr r \<Rightarrow> kind_charges (rec_kind r) @ xs))"
| "external_exec wr (ExtCopy bs) (c, k, xs) =
     (case try_copy (w_mem c) bs of
        Some (m, Inr got) \<Rightarrow> (c\<lparr>w_mem := m\<rparr>, k, charge got # xs)
      | _ \<Rightarrow> (c, k, xs))"
| "external_exec wr (ExtRelease n) (c, k, xs) =
     (if n < length xs then
        (case drop_charges wr c [xs ! n] of None \<Rightarrow> (c, k, xs) | Some c' \<Rightarrow> (c', k, take n xs @ drop (Suc n) xs))
      else (c, k, xs))"
| "external_exec wr ExtDisconnect (c, k, xs) =
     (case drop_records (w_hand c) of (h, rs, ks) \<Rightarrow>
        (case drop_charges wr (c\<lparr>w_hand := h\<rparr>) (concat (map (kind_charges \<circ> rec_kind) rs)) of
           None \<Rightarrow> (c, k, xs)
         | Some c' \<Rightarrow> (raise_wakes wr c' ks, k, xs)))"

section \<open>Stopping and waiting\<close>

definition stop_cause :: "'f Worker \<Rightarrow> StopCause option" where
  "stop_cause w =
     (if signal_disconnected (wk_signals w) then Some ConsumerDisconnected
      else if stop_requested (wk_signals w) then Some StopRequested
      else None)"

text \<open>\<open>saturating_sub\<close> and \<open>saturating_duration_since\<close> are subtraction on naturals.\<close>

definition accept_delay :: "'f Worker \<Rightarrow> instant \<Rightarrow> nat" where
  "accept_delay w now =
     (case accept_paused_at w of None \<Rightarrow> 0 | Some paused_at \<Rightarrow> STOP_RECHECK - (now - paused_at))"

definition poll_timeout :: "'f Worker \<Rightarrow> instant \<Rightarrow> nat" where
  "poll_timeout w now =
     (if has_ready (w_sched (wk_core w)) then 0
      else if listener_ready w then accept_delay w now
      else STOP_RECHECK)"

section \<open>Retirement\<close>

text \<open>An entry owns two senders: its own context and the clone inside the future.\<close>

definition absorb :: "'f Worker \<Rightarrow> Progress \<Rightarrow> ('f Worker \<times> (ReceiverFailure + unit)) run" where
  "absorb w p =
     do {
       (s, r) \<leftarrow> merge_progress (wk_summary w) p;
       Some (w\<lparr>wk_summary := (if isl r then s\<lparr>counters_complete := False\<rparr> else s)\<rparr>, r)
     }"

definition retire_with ::
  "'f task_ops \<Rightarrow> io_error + unit \<Rightarrow> 'f Worker \<Rightarrow> Token \<Rightarrow> ConnectionCloseResult
     \<Rightarrow> ('f Worker \<times> (ReceiverFailure + unit)) run" where
  "retire_with ops wr w t res =
     do {
       (s, _) \<leftarrow> retire wr (w_sched (wk_core w)) t;
       e \<leftarrow> btree_get (wk_live w) t;
       let i = tc_id (entry_context e);
       let p = tc_progress (entry_context e);
       c \<leftarrow> drop_task ops wr ((wk_core w)\<lparr>w_sched := s\<rparr>) (future e) (entry_context e);
       let c = c\<lparr>w_hand := drop_sender (drop_sender (w_hand c))\<rparr>;
       let w = w\<lparr>wk_core := c, wk_live := btree_remove (wk_live w) t,
                 wk_controls := controls_finish (wk_controls w) i res\<rparr>;
       if res = RetiredByRequest then
         (case bump USIZE_MAX (closed_by_request (wk_summary w)) of
            Inl f \<Rightarrow> Some (w, Inl f)
          | Inr n \<Rightarrow> absorb (w\<lparr>wk_summary := (wk_summary w)\<lparr>closed_by_request := n\<rparr>\<rparr>) p)
       else absorb w p
     }"

definition retire_task ::
  "'f task_ops \<Rightarrow> io_error + unit \<Rightarrow> 'f Worker \<Rightarrow> Token \<Rightarrow> ('f Worker \<times> (ReceiverFailure + unit)) run" where
  "retire_task ops wr w t = retire_with ops wr w t ConnectionEnded"

fun retire_each ::
  "'f task_ops \<Rightarrow> io_error + unit \<Rightarrow> 'f Worker \<Rightarrow> Token list \<Rightarrow> ('f Worker \<times> (ReceiverFailure + unit)) run" where
  "retire_each ops wr w [] = Some (w, Inr ())"
| "retire_each ops wr w (t # ts) =
     do {
       (w, r) \<leftarrow> retire_with ops wr w t RetiredByRequest;
       (case r of Inl f \<Rightarrow> Some (w, Inl f) | Inr _ \<Rightarrow> retire_each ops wr w ts)
     }"

definition retire_requested ::
  "'f task_ops \<Rightarrow> io_error + unit \<Rightarrow> 'f Worker \<Rightarrow> ('f Worker \<times> (ReceiverFailure + unit)) run" where
  "retire_requested ops wr w =
     retire_each ops wr w
       (map fst (filter (\<lambda>(t, e). controls_requested (wk_controls w) (tc_id (entry_context e))) (wk_live w)))"

text \<open>The loop takes the first live token until none is left and keeps the last failure.\<close>

partial_function (option) retire_all_loop ::
  "'f task_ops \<Rightarrow> io_error + unit \<Rightarrow> 'f Worker \<Rightarrow> ConnectionCloseResult \<Rightarrow> ReceiverFailure option
     \<Rightarrow> ('f Worker \<times> (ReceiverFailure + unit)) effect" where
  "retire_all_loop ops wr w res failed =
     (case wk_live w of
        [] \<Rightarrow> Some (Some (w, case failed of None \<Rightarrow> Inr () | Some f \<Rightarrow> Inl f))
      | (t, _) # _ \<Rightarrow>
          (case retire_with ops wr w t res of
             None \<Rightarrow> Some None
           | Some (w', r) \<Rightarrow>
               retire_all_loop ops wr w' res (case r of Inl f \<Rightarrow> Some f | Inr _ \<Rightarrow> failed)))"

definition retire_all ::
  "'f task_ops \<Rightarrow> io_error + unit \<Rightarrow> 'f Worker \<Rightarrow> ConnectionCloseResult
     \<Rightarrow> ('f Worker \<times> (ReceiverFailure + unit)) effect" where
  "retire_all ops wr w res = retire_all_loop ops wr w res None"

section \<open>Admission\<close>

definition admit ::
  "'f task_ops \<Rightarrow> 'a AcceptIo \<Rightarrow> 'f Worker \<Rightarrow> 'a \<Rightarrow> SocketAddr \<Rightarrow> ('f Worker \<times> 'a \<times> (ReceiverFailure + unit)) run" where
  "admit ops io w a peer =
     (case allocate_token (wk_next w) of
        (n, Inl f) \<Rightarrow> Some (w\<lparr>wk_next := n\<rparr>, a, Inl f)
      | (n, Inr t) \<Rightarrow>
          (let w = w\<lparr>wk_next := n\<rparr> in
           case io_register io a t of
             (a, Inl e) \<Rightarrow> Some (w, a, Inl (RfIo e))
           | (a, Inr _) \<Rightarrow> do {
               let i = ConnectionId (wk_instance w) t;
               let c = TaskContext_new i peer t (controls_retention (wk_controls w));
               s \<leftarrow> sched_insert (w_sched (wk_core w)) t;
               let f = start_task ops (payload_capacity (wk_limits w)) (wk_profile w) c;
               let w = w\<lparr>wk_core := (wk_core w)\<lparr>w_sched := s, w_hand := clone_sender (clone_sender (w_hand (wk_core w)))\<rparr>\<rparr>;
               if btree_get (wk_live w) t \<noteq> None then panic
               else do {
                 let w = w\<lparr>wk_live := btree_insert (wk_live w) t \<lparr>future = f, entry_context = c\<rparr>\<rparr>;
                 k \<leftarrow> register (wk_controls w) i;
                 let w = w\<lparr>wk_controls := k\<rparr>;
                 Some (case bump USIZE_MAX (accepted (wk_summary w)) of
                     Inl f \<Rightarrow> (w, a, Inl f)
                   | Inr m \<Rightarrow> (w\<lparr>wk_summary := (wk_summary w)\<lparr>accepted := m\<rparr>\<rparr>, a, Inr ()))
               }
             }))"

text \<open>
  The accept loop with the number of attempts left; \<open>Inr None\<close> is a return from inside the loop,
  \<open>Inr (Some progressed)\<close> its end.
\<close>

fun accept_loop ::
  "'f task_ops \<Rightarrow> 'a AcceptIo \<Rightarrow> nat \<Rightarrow> 'f Worker \<Rightarrow> 'a \<Rightarrow> bool
     \<Rightarrow> ('f Worker \<times> 'a \<times> (ReceiverFailure + bool option)) run" where
  "accept_loop ops io 0 w a progressed = Some (w, a, Inr (Some progressed))"
| "accept_loop ops io (Suc n) w a progressed =
     (if stop_cause w \<noteq> None then Some (w, a, Inr None)
      else case io_accept io a of
        (a, Inr peer) \<Rightarrow>
          if length (wk_live w) = max_connections (wk_limits w) then
            (case bump USIZE_MAX (refused (wk_summary w)) of
               Inl f \<Rightarrow> Some (w, a, Inl f)
             | Inr m \<Rightarrow> accept_loop ops io n (w\<lparr>wk_summary := (wk_summary w)\<lparr>refused := m\<rparr>\<rparr>) a True)
          else do {
            (w, a, r) \<leftarrow> admit ops io w a peer;
            (case r of Inl f \<Rightarrow> Some (w, a, Inl f) | Inr _ \<Rightarrow> accept_loop ops io n w a True)
          }
      | (a, Inl e) \<Rightarrow>
          (case classify_accept e of
             Drained \<Rightarrow> Some (w\<lparr>listener_ready := False\<rparr>, a, Inr None)
           | Retry \<Rightarrow>
               (case bump U64_MAX (transient_accept_errors (wk_summary w)) of
                  Inl f \<Rightarrow> Some (w, a, Inl f)
                | Inr m \<Rightarrow> accept_loop ops io n (w\<lparr>wk_summary := (wk_summary w)\<lparr>transient_accept_errors := m\<rparr>\<rparr>) a progressed)
           | Pause \<Rightarrow>
               (case bump U64_MAX (resource_pause_entries (wk_summary w)) of
                  Inl f \<Rightarrow> Some (w, a, Inl f)
                | Inr m \<Rightarrow>
                    Some (w\<lparr>wk_summary := (wk_summary w)\<lparr>resource_pause_entries := m\<rparr>,
                            accept_paused_at := Some (io_now io a)\<rparr>, a, Inr None))
           | Fatal \<Rightarrow> Some (w, a, Inl (RfIo e))))"

definition accept_ready ::
  "'f task_ops \<Rightarrow> 'a AcceptIo \<Rightarrow> 'f Worker \<Rightarrow> 'a \<Rightarrow> ('f Worker \<times> 'a \<times> (ReceiverFailure + unit)) run" where
  "accept_ready ops io w a =
     (if \<not> listener_ready w \<or> accept_delay w (io_now io a) \<noteq> 0 then Some (w, a, Inr ())
      else do {
        (w, a, r) \<leftarrow> accept_loop ops io (min (turn_steps (wk_limits w)) EVENT_BATCH) (w\<lparr>accept_paused_at := None\<rparr>) a False;
        Some (case r of
            Inl f \<Rightarrow> (w, a, Inl f)
          | Inr None \<Rightarrow> (w, a, Inr ())
          | Inr (Some progressed) \<Rightarrow>
              if progressed then (w, a, Inr ())
              else (case bump U64_MAX (retry_quota_backoffs (wk_summary w)) of
                      Inl f \<Rightarrow> (w, a, Inl f)
                    | Inr m \<Rightarrow> (w\<lparr>wk_summary := (wk_summary w)\<lparr>retry_quota_backoffs := m\<rparr>,
                                   accept_paused_at := Some (io_now io a)\<rparr>, a, Inr ())))
      })"

section \<open>Turns\<close>

fun run_ready_loop ::
  "'f task_ops \<Rightarrow> io_error + unit \<Rightarrow> nat \<Rightarrow> 'f Worker \<Rightarrow> ('f Worker \<times> (ReceiverFailure + unit)) run" where
  "run_ready_loop ops wr 0 w = Some (w, Inr ())"
| "run_ready_loop ops wr (Suc n) w =
     (if stop_cause w \<noteq> None then Some (w, Inr ())
      else do {
        (s, next_token) \<leftarrow> sched_take (w_sched (wk_core w));
        let w = w\<lparr>wk_core := (wk_core w)\<lparr>w_sched := s\<rparr>\<rparr>;
        (case next_token of
           None \<Rightarrow> Some (w, Inr ())
         | Some t \<Rightarrow> do {
             e \<leftarrow> btree_get (wk_live w) t;
             (c, f, x, p) \<leftarrow> poll_task ops wr (wk_core w) (future e) (reset_turn (entry_context e) (turn_steps (wk_limits w)));
             let w = w\<lparr>wk_core := c, wk_live := btree_insert (wk_live w) t \<lparr>future = f, entry_context = x\<rparr>\<rparr>;
             if counter_overflow (tc_progress x) then Some (w, Inl CounterExhausted)
             else (case p of
                 ReadyWith _ \<Rightarrow> do {
                   (w, r) \<leftarrow> retire_task ops wr w t;
                   (case r of Inl f \<Rightarrow> Some (w, Inl f) | Inr _ \<Rightarrow> run_ready_loop ops wr n w)
                 }
               | Pending \<Rightarrow> do {
                   _ \<leftarrow> verify_pending (w_sched (wk_core w)) t;
                   run_ready_loop ops wr n w
                 })
           })
      })"

definition run_ready ::
  "'f task_ops \<Rightarrow> io_error + unit \<Rightarrow> 'f Worker \<Rightarrow> ('f Worker \<times> (ReceiverFailure + unit)) run" where
  "run_ready ops wr w = run_ready_loop ops wr TURN_BATCH w"

fun dispatch_events :: "'f Worker \<Rightarrow> Token list \<Rightarrow> 'f Worker run" where
  "dispatch_events w [] = Some w"
| "dispatch_events w (t # ts) =
     (if t = LISTENER then dispatch_events (w\<lparr>listener_ready := True\<rparr>) ts
      else if t \<noteq> CONTROL then do {
        s \<leftarrow> io_ready (w_sched (wk_core w)) t;
        dispatch_events (w\<lparr>wk_core := (wk_core w)\<lparr>w_sched := s\<rparr>\<rparr>) ts
      }
      else dispatch_events w ts)"

definition on_signals :: "'f Worker \<Rightarrow> (Signals \<Rightarrow> Signals \<times> 'r) \<Rightarrow> 'f Worker \<times> 'r" where
  "on_signals w f = (case f (wk_signals w) of (g, r) \<Rightarrow> (w\<lparr>wk_core := with_signals (wk_core w) g\<rparr>, r))"

definition resume :: "'f Worker \<Rightarrow> (Signals \<Rightarrow> Signals \<times> bool) \<Rightarrow> WaitReason \<Rightarrow> 'f Worker run" where
  "resume w tk k =
     (case on_signals w tk of
        (w, credit) \<Rightarrow>
          if credit then do {
            s \<leftarrow> resume_credit (w_sched (wk_core w)) k;
            Some (w\<lparr>wk_core := (wk_core w)\<lparr>w_sched := s\<rparr>\<rparr>)
          }
          else Some w)"

definition retire_on_control ::
  "'f task_ops \<Rightarrow> io_error + unit \<Rightarrow> 'f Worker \<Rightarrow> ('f Worker \<times> (ReceiverFailure + unit)) run" where
  "retire_on_control ops wr w =
     (case on_signals w take_control of
        (w, control) \<Rightarrow> if control then retire_requested ops wr w else Some (w, Inr ()))"

text \<open>The end of a turn: accepting, waiting for the operating system, and what other threads did meanwhile.\<close>

definition drive_wait ::
  "'f task_ops \<Rightarrow> 'a AcceptIo \<Rightarrow> 'f Worker \<Rightarrow> 'a \<Rightarrow> ('f Worker \<times> 'a \<times> (ReceiverFailure + StopCause) option) run" where
  "drive_wait ops io w a =
     do {
       (w, a, r) \<leftarrow> accept_ready ops io w a;
       (case r of
          Inl f \<Rightarrow> Some (w, a, Some (Inl f))
        | Inr _ \<Rightarrow>
            (case io_poll io a (poll_timeout w (io_now io a)) of
               (a, xs, res) \<Rightarrow>
                 (let (c, k, ys) = fold (external_exec (io_wake io a)) xs (wk_core w, wk_controls w, wk_outside w);
                      w = w\<lparr>wk_core := c, wk_controls := k, wk_outside := ys\<rparr> in
                  case res of
                    Inr ts \<Rightarrow> do { w \<leftarrow> dispatch_events w ts; Some (w, a, None) }
                  | Inl e \<Rightarrow> Some (w, a, if io_kind e = Interrupted then None else Some (Inl (RfIo e))))))
     }"

definition drive_turn ::
  "'f task_ops \<Rightarrow> 'a AcceptIo \<Rightarrow> 'f Worker \<Rightarrow> 'a \<Rightarrow> ('f Worker \<times> 'a \<times> (ReceiverFailure + StopCause) option) run" where
  "drive_turn ops io w a =
     (let wr = io_wake io a; (w, failed) = on_signals w (take_failure (io_kind_of io)) in
      case failed of
        Some e \<Rightarrow> Some (w, a, Some (Inl (RfIo e)))
      | None \<Rightarrow>
      (case stop_cause w of
         Some cause \<Rightarrow> Some (w, a, Some (Inr cause))
       | None \<Rightarrow> do {
           (w, r) \<leftarrow> retire_requested ops wr w;
           (case r of Inl f \<Rightarrow> Some (w, a, Some (Inl f)) | Inr _ \<Rightarrow> do {
             (w, r) \<leftarrow> retire_on_control ops wr w;
             (case r of Inl f \<Rightarrow> Some (w, a, Some (Inl f)) | Inr _ \<Rightarrow> do {
               w \<leftarrow> resume w take_queue_credit Queue;
               w \<leftarrow> resume w take_byte_credit Bytes;
               (w, r) \<leftarrow> run_ready ops wr w;
               (case r of Inl f \<Rightarrow> Some (w, a, Some (Inl f)) | Inr _ \<Rightarrow> do {
                 (w, r) \<leftarrow> retire_requested ops wr w;
                 (case r of Inl f \<Rightarrow> Some (w, a, Some (Inl f)) | Inr _ \<Rightarrow>
                  (case stop_cause w of
                     Some cause \<Rightarrow> Some (w, a, Some (Inr cause))
                   | None \<Rightarrow> drive_wait ops io w a))
               })
             })
           })
         }))"

partial_function (option) drive ::
  "'f task_ops \<Rightarrow> 'a AcceptIo \<Rightarrow> 'f Worker \<Rightarrow> 'a \<Rightarrow> ('f Worker \<times> 'a \<times> (ReceiverFailure + StopCause)) effect" where
  "drive ops io w a =
     (case drive_turn ops io w a of
        None \<Rightarrow> Some None
      | Some (w', a', Some res) \<Rightarrow> Some (Some (w', a', res))
      | Some (w', a', None) \<Rightarrow> drive ops io w' a')"

section \<open>Binding and running\<close>

record Receiver =
  rc_local :: SocketAddr
  rc_limits :: Limits
  rc_core :: worker
  rc_instance :: nat
  rc_profile :: IncomingProfile
  rc_controls :: ConnectionControls

text \<open>
  The results of the system calls of \<open>bind\<close>: binding, switching to non-blocking, the local
  address.  The instance counter is the process-wide static; a fresh tracker's address is its
  instance.
\<close>

definition bind_with_profile ::
  "io_error + unit \<Rightarrow> io_error + unit \<Rightarrow> io_error + SocketAddr \<Rightarrow> nat \<Rightarrow> Limits \<Rightarrow> memory \<Rightarrow> IncomingProfile
     \<Rightarrow> nat \<times> (ReceiverError + Receiver)" where
  "bind_with_profile bound nonblocking local_addr next_instance l m prof =
     (let needed = max READ_BYTES (payload_capacity l) in
      if capacity (budget m) < needed
      then (next_instance, Inl (before_run (BudgetTooSmall (TooLarge needed (capacity (budget m))))))
      else case checked_add U64_MAX next_instance 1 of
        None \<Rightarrow> (next_instance, Inl (before_run InstanceExhausted))
      | Some n \<Rightarrow>
          (n, case bound of
                Inl e \<Rightarrow> Inl (bind_io e)
              | Inr _ \<Rightarrow>
                  (case nonblocking of
                     Inl e \<Rightarrow> Inl (bind_io e)
                   | Inr _ \<Rightarrow>
                       (case local_addr of
                          Inl e \<Rightarrow> Inl (bind_io e)
                        | Inr addr \<Rightarrow>
                            Inr \<lparr>rc_local = addr, rc_limits = l,
                                 rc_core = \<lparr>w_sched = Scheduler_new (max_connections l) Signals_new, w_mem = m,
                                            w_hand = channel (queue_slots l) (signal_waker SigQueue) (signal_waker SigDisconnected)\<rparr>,
                                 rc_instance = next_instance, rc_profile = prof,
                                 rc_controls = ConnectionControls_new next_instance next_instance\<rparr>))))"

definition receiver_bind ::
  "io_error + unit \<Rightarrow> io_error + unit \<Rightarrow> io_error + SocketAddr \<Rightarrow> nat \<Rightarrow> Limits \<Rightarrow> memory \<Rightarrow> nat \<times> (ReceiverError + Receiver)" where
  "receiver_bind bound nonblocking local_addr next_instance l m =
     bind_with_profile bound nonblocking local_addr next_instance l m ALL_KNOWN_RATES"

text \<open>What other threads own of the account when the run starts is \<open>xs\<close>.\<close>

definition Worker_new :: "Receiver \<Rightarrow> Charge list \<Rightarrow> worker \<Rightarrow> 'f Worker" where
  "Worker_new r xs c =
     \<lparr>wk_core = c, wk_limits = rc_limits r, wk_instance = rc_instance r, wk_profile = rc_profile r,
      wk_controls = rc_controls r, wk_live = [], wk_next = FIRST_CONNECTION, listener_ready = True,
      accept_paused_at = None,
      wk_summary = RunSummary_default\<lparr>run_buffer_capacity := fixed_buffer_capacity (rc_limits r)\<rparr>, wk_outside = xs\<rparr>"

text \<open>The end of a run: what is still live is retired and every open ticket is completed.\<close>

definition run_finish ::
  "'f task_ops \<Rightarrow> io_error + unit \<Rightarrow> 'f Worker \<Rightarrow> ReceiverFailure + StopCause
     \<Rightarrow> ('f Worker \<times> (ReceiverError + RunSummary)) effect" where
  "run_finish ops wr w result =
     (let s = (if result = Inl CounterExhausted then (wk_summary w)\<lparr>counters_complete := False\<rparr> else wk_summary w);
          w = w\<lparr>wk_summary := s\<lparr>live_at_stop := length (wk_live w)\<rparr>\<rparr> in
      and_then (retire_all ops wr w ReceiverStopped) (\<lambda>(w, cleanup).
        let w = w\<lparr>wk_controls := stop_all (wk_controls w),
                  wk_summary := (wk_summary w)\<lparr>retained_output_bytes := budget_used (budget (w_mem (wk_core w)))\<rparr>\<rparr> in
        (case (case result of Inl f \<Rightarrow> Inl f | Inr cause \<Rightarrow> (case cleanup of Inl f \<Rightarrow> Inl f | Inr _ \<Rightarrow> Inr cause)) of
           Inr cause \<Rightarrow>
             (let w = w\<lparr>wk_summary := (wk_summary w)\<lparr>stopped_by := Some cause\<rparr>\<rparr> in yields (w, Inr (wk_summary w)))
         | Inl f \<Rightarrow> yields (w, Inl \<lparr>re_failure = f, re_summary = wk_summary w\<rparr>))))"

text \<open>Leaving \<open>run\<close> drops the worker's sender, the attachment and the subscription.\<close>

definition leave_run :: "'f Worker \<Rightarrow> 'f Worker" where
  "leave_run w =
     (let c = wk_core w;
          c = c\<lparr>w_mem := (w_mem c)\<lparr>budget := drop_subscription (budget (w_mem c))\<rparr>, w_hand := drop_sender (w_hand c)\<rparr>
      in w\<lparr>wk_core := with_signals c (drop_attachment (signals (w_sched c)))\<rparr>)"

text \<open>Failing before the subscription drops the sender only, and the attachment when there is one.\<close>

definition leave_early :: "'f Worker \<Rightarrow> 'f Worker" where
  "leave_early w =
     (let c = wk_core w in
      w\<lparr>wk_core := with_signals (c\<lparr>w_hand := drop_sender (w_hand c)\<rparr>) (drop_attachment (signals (w_sched c)))\<rparr>)"

text \<open>The results of creating the poller and its waker and of registering the listener come first.\<close>

definition run_with ::
  "'f task_ops \<Rightarrow> 'a AcceptIo \<Rightarrow> io_error + unit \<Rightarrow> io_error + unit \<Rightarrow> io_error + unit \<Rightarrow> Receiver \<Rightarrow> Charge list \<Rightarrow> 'a
     \<Rightarrow> ('f Worker \<times> (ReceiverError + RunSummary)) effect" where
  "run_with ops io poll_new waker_new listen r xs a =
     (case poll_new of Inl e \<Rightarrow> yields (leave_early (Worker_new r xs (rc_core r)), Inl (bind_io e)) | Inr _ \<Rightarrow>
      (case waker_new of Inl e \<Rightarrow> yields (leave_early (Worker_new r xs (rc_core r)), Inl (bind_io e)) | Inr _ \<Rightarrow>
      (let c = with_signals (rc_core r) (attach (signals (w_sched (rc_core r)))) in
       case subscribe (budget (w_mem c)) (signal_waker SigBytes) of
         (b, Inl _) \<Rightarrow> yields (leave_early (Worker_new r xs c), Inl (before_run BudgetAlreadySubscribed))
       | (b, Inr _) \<Rightarrow>
           (let c = c\<lparr>w_mem := (w_mem c)\<lparr>budget := b\<rparr>,
                      w_sched := Scheduler_new (max_connections (rc_limits r)) (signals (w_sched c))\<rparr> in
            case listen of Inl e \<Rightarrow> yields (leave_run (Worker_new r xs c), Inl (bind_io e)) | Inr _ \<Rightarrow>
            and_then (drive ops io (Worker_new r xs c) a) (\<lambda>(w, a, result).
              and_then (run_finish ops (io_wake io a) w result) (\<lambda>(w, res). yields (leave_run w, res)))))))"

end
