(* ===== verification/Task_Polls.thy ===== *)
theory Task_Polls
  imports Task_Context
begin

text \<open>
  What one poll of a resource operation does to everything a connection task shares: the
  scheduler of all tasks, the byte account and the channel.  Storage is tracked as in a logic of
  ownership: \<open>owns\<close> says that an account holds exactly a multiset of charges, and every law holds for
  an arbitrary rest \<open>Z\<close> that other tasks, queued records and consumers own and that the poll leaves
  alone.
\<close>

section \<open>Ownership of storage\<close>

definition owns :: "memory \<Rightarrow> Charge multiset \<Rightarrow> bool" where
  "owns m X \<longleftrightarrow> capacity (budget m) \<le> USIZE_MAX \<and>
     accounts_ok (capacity (budget m)) \<lparr>mem = m, reserved = {#}, live = X, dropping = {#}\<rparr>"

definition record_charges :: "Record \<Rightarrow> Charge multiset" where
  "record_charges r = mset (kind_charges (rec_kind r))"

definition queued_charges :: "handoff \<Rightarrow> Charge multiset" where
  "queued_charges h = sum_list (map record_charges (chan_queue h))"

lemma owns_memory_ok: "owns m X \<Longrightarrow> memory_ok m"
  using total_for_le by (fastforce simp: owns_def accounts_ok_alt memory_ok_def)

lemma owns_used: "owns m X \<Longrightarrow> budget_used (budget m) = total X"
  by (simp add: owns_def accounts_ok_alt)

lemma owns_init: "cap \<le> USIZE_MAX \<Longrightarrow> owns (mem (accounts_init cap)) {#}"
  using accounts_ok_init [of cap] by (simp add: owns_def accounts_init_def ByteBudget_new_def)

lemma owns_subscriber:
  "owns (m\<lparr>budget := (budget m)\<lparr>budget_state := (budget_state (budget m))\<lparr>subscriber := k\<rparr>\<rparr>\<rparr>) X \<longleftrightarrow> owns m X"
  by (simp add: owns_def accounts_ok_alt budget_used_def)

lemma owns_drop:
  assumes "owns m (add_mset c X)"
  obtains m' k where "drop_charge m c = Some (m', k)" "owns m' X" "capacity (budget m') = capacity (budget m)"
proof -
  let ?cap = "capacity (budget m)" and ?w = "\<lparr>mem = m, reserved = {#}, live = add_mset c X, dropping = {#}\<rparr>"
  have ok: "accounts_ok ?cap ?w" and cap: "?cap \<le> USIZE_MAX" using assms by (auto simp: owns_def)
  obtain w1 where w1: "account_exec (Untrack c) ?w = Some w1" "accounts_ok ?cap w1" using untrack_ok [OF ok, of c] by auto
  then obtain m1 where m1: "untrack m c = Some m1" "w1 = \<lparr>mem = m1, reserved = {#}, live = X, dropping = {#c#}\<rparr>"
    by (auto split: bind_splits)
  obtain w2 where w2: "account_exec (Refund c) w1 = Some w2" "accounts_ok ?cap w2" using refund_ok [OF w1(2), of c] m1(2) by auto
  then obtain b k where b: "budget_release (budget m1) (charge_bytes c) = Some (b, k)"
    "w2 = \<lparr>mem = m1\<lparr>budget := b\<rparr>, reserved = {#}, live = X, dropping = {#}\<rparr>"
    using m1(2) by (auto split: bind_splits)
  have same: "capacity b = ?cap" using w2(2) b(2) by (simp add: accounts_ok_alt)
  show thesis
  proof (rule that)
    show "drop_charge m c = Some (m1\<lparr>budget := b\<rparr>, k)" using m1(1) b(1) by (simp add: drop_charge_def)
    show "owns (m1\<lparr>budget := b\<rparr>) X" using w2(2) b(2) same cap by (simp add: owns_def)
    show "capacity (budget (m1\<lparr>budget := b\<rparr>)) = ?cap" using same by simp
  qed
qed

lemma owns_copy:
  assumes m: "owns m X" and copy: "try_copy_tracked m bs ret = Some (m', Inr o')"
  shows "owns m' (add_mset (charge o') X)" "o' = \<lparr>owned_bytes = bs, charge = \<lparr>charge_bytes = length bs, retention = ret\<rparr>\<rparr>"
    "capacity (budget m') = capacity (budget m)"
proof -
  note spec = try_copy_spec [OF owns_memory_ok [OF m], of bs ret]
  have r: "memory_ok m'" "budget_used (budget m) + length bs \<le> capacity (budget m)" "as_slice o' = bs"
    "charged_capacity o' = length bs" "retention (charge o') = ret"
    "budget_used (budget m') = budget_used (budget m) + length bs" "capacity (budget m') = capacity (budget m)"
    "\<forall>t i. RetentionTracker_used (trackers m' t) i =
       (if ret = Some (t, i) then length bs else 0) + RetentionTracker_used (trackers m t) i"
    using spec copy by auto
  show o: "o' = \<lparr>owned_bytes = bs, charge = \<lparr>charge_bytes = length bs, retention = ret\<rparr>\<rparr>"
    using r(3-5) by (cases o', cases "charge o'") (auto simp: as_slice_def charged_capacity_def)
  show "owns m' (add_mset (charge o') X)" using m r o by (auto simp: owns_def accounts_ok_alt memory_ok_def)
  show "capacity (budget m') = capacity (budget m)" by (rule r(7))
qed

section \<open>Steps of the shared state\<close>

text \<open>How a task may change what it shares with the others: no task appears or disappears.\<close>

definition core_step :: "worker \<Rightarrow> worker \<Rightarrow> bool" where
  "core_step c c' \<longleftrightarrow> ready_ok (ready (w_sched c')) \<and>
     dom (states (ready (w_sched c'))) = dom (states (ready (w_sched c))) \<and>
     ready_capacity (ready (w_sched c')) = ready_capacity (ready (w_sched c)) \<and>
     chan_senders (w_hand c') = chan_senders (w_hand c)"

lemma core_step_refl: "ready_ok (ready (w_sched c)) \<Longrightarrow> core_step c c"
  by (simp add: core_step_def)

lemma core_step_trans: "core_step a b \<Longrightarrow> core_step b c \<Longrightarrow> core_step a c"
  by (simp add: core_step_def)

lemma core_step_sched:
  assumes "ready_ok (ready s)" "dom (states (ready s)) = dom (states (ready (w_sched c)))"
    "ready_capacity (ready s) = ready_capacity (ready (w_sched c))"
  shows "core_step c (c\<lparr>w_sched := s\<rparr>)"
  using assms by (simp add: core_step_def)

text \<open>A step of the scheduler alone.\<close>

definition sched_step :: "worker \<Rightarrow> worker \<Rightarrow> bool" where
  "sched_step w w' \<longleftrightarrow> core_step w w' \<and> w_mem w' = w_mem w \<and> w_hand w' = w_hand w"

lemma enqueue_states:
  "enqueue r t = Some (r', b) \<Longrightarrow> states r' u = (if u = t then map_option enqueued_state (states r u) else states r u)"
  by (auto simp: enqueue_def enqueued_state_def Let_def split: option.splits State.splits if_splits bind_splits)

lemma resume_head_polled:
  "\<lbrakk>resume_head r k = Some (r', b); states r u = Some Running \<or> states r u = Some Notified\<rbrakk> \<Longrightarrow>
   states r' u = Some Running \<or> states r' u = Some Notified"
  by (auto simp: resume_head_def enqueued_state_def dest!: enqueue_states [of _ _ _ _ u] split: bind_splits option.splits if_splits)

lemma remove_request_polled:
  "\<lbrakk>remove_request r t k = Some (r', b); states r u = Some Running \<or> states r u = Some Notified\<rbrakk> \<Longrightarrow>
   states r' u = Some Running \<or> states r' u = Some Notified"
  by (auto simp: remove_request_def Let_def dest!: resume_head_polled [of _ _ _ _ u] split: bind_splits if_splits)

lemma drop_request_law:
  assumes ok: "ready_ok (ready (w_sched w))" and k: "k \<noteq> Kernel"
  obtains w' where "drop_request wr w c k reg = Some w'" "sched_step w w'"
    "\<And>u. polled (w_sched w) u \<Longrightarrow> polled (w_sched w') u"
proof (cases reg)
  case True
  obtain qs ws bs where inv: "ready_inv (ready (w_sched w)) qs ws bs" using ok by (auto simp: ready_ok_def)
  obtain r' qs' b where r': "remove_request (ready (w_sched w)) (tc_token c) k = Some (r', b)" "ready_ok r'"
    "woken_from (ready (w_sched w)) r'"
    by (rule remove_request_inv [OF inv k refl, of "tc_token c"]) (auto simp: ready_ok_def)
  let ?p = "wake_if wr ((w_sched w)\<lparr>ready := r'\<rparr>) b"
  have eval: "drop_request wr w c k reg = Some (w\<lparr>w_sched := fst ?p\<rparr>)"
    using True r'(1) by (cases ?p) (simp add: drop_request_def finish_request_def)
  show thesis
  proof (rule that [OF eval])
    show "sched_step w (w\<lparr>w_sched := fst ?p\<rparr>)"
      using r' remove_request_capacity [OF r'(1)] by (simp add: sched_step_def woken_from_def core_step_sched)
    show "polled (w_sched (w\<lparr>w_sched := fst ?p\<rparr>)) u" if "polled (w_sched w) u" for u
      using remove_request_polled [OF r'(1), of u] that by (simp add: polled_def)
  qed
qed (use that ok in \<open>simp add: drop_request_def sched_step_def core_step_refl\<close>)

lemma task_wake_law:
  assumes "ready_ok (ready s)" "polled s t"
  obtains s' b where "task_wake wr s t = Some (s', b)" "ready_ok (ready s')" "runnable (states (ready s') t)"
    "dom (states (ready s')) = dom (states (ready s))" "ready_capacity (ready s') = ready_capacity (ready s)"
proof -
  obtain qs ws bs where inv: "ready_inv (ready s) qs ws bs" using assms(1) by (auto simp: ready_ok_def)
  let ?p = "wake_if wr (s\<lparr>ready := enqueued (ready s) qs t\<rparr>) (needs_turn (ready s) t)"
  have "task_wake wr s t = Some (fst ?p, snd ?p)" using enqueue_inv [OF inv, of t] by (simp add: task_wake_def)
  moreover have "ready_ok (ready (fst ?p))" using enqueue_inv [OF inv, of t] by (auto simp: ready_ok_def)
  moreover have "runnable (states (ready (fst ?p)) t)"
    using runnable_enqueued [of "ready s" t qs] assms(2) by (auto simp: polled_def)
  ultimately show ?thesis by (rule that) simp_all
qed

lemma not_running: "runnable (states r t) \<Longrightarrow> states r t \<noteq> Some Running"
  by (auto simp: runnable_def)

lemma permit_law:
  assumes "ready_ok (ready (w_sched w))" "polled (w_sched w) (tc_token c)"
  obtains (out) w' where "permit wr w c = Some (w', c, False)" "sched_step w w'"
      "states (ready (w_sched w')) (tc_token c) \<noteq> Some Running"
    | (go) "permit wr w c = Some (w, c\<lparr>tc_remaining := tc_remaining c - 1\<rparr>, True)" "0 < tc_remaining c"
proof (cases "tc_remaining c = 0")
  case True
  obtain s b where s: "task_wake wr (w_sched w) (tc_token c) = Some (s, b)" "ready_ok (ready s)"
    "runnable (states (ready s) (tc_token c))" "dom (states (ready s)) = dom (states (ready (w_sched w)))"
    "ready_capacity (ready s) = ready_capacity (ready (w_sched w))"
    by (rule task_wake_law [OF assms])
  then show ?thesis using out [of "w\<lparr>w_sched := s\<rparr>"] True
    by (simp add: permit_def sched_step_def core_step_sched not_running)
qed (use go in \<open>simp add: permit_def\<close>)

lemma park_law:
  assumes "ready_ok (ready (w_sched w))" "polled (w_sched w) (tc_token c)"
  obtains w' where "park_task w c k = Some w'" "sched_step w w'" "states (ready (w_sched w')) (tc_token c) \<noteq> Some Running"
proof -
  let ?r = "ready (w_sched w)" and ?t = "tc_token c"
  obtain qs ws bs where inv: "ready_inv ?r qs ws bs" using assms(1) by (auto simp: ready_ok_def)
  obtain st where st: "states ?r ?t = Some st" using assms(2) by (auto simp: polled_def)
  obtain r where r: "park_ready ?r ?t k = Some r" "ready_ok r"
    "states r = (states ?r)(?t \<mapsto> (if st = Notified then Queued else Waiting k))"
    using park_inv [OF inv st, of k] unfolding ready_ok_def by blast
  have "insert ?t (dom (states ?r)) = dom (states ?r)" using st by auto
  then have "sched_step w (w\<lparr>w_sched := (w_sched w)\<lparr>ready := r\<rparr>\<rparr>)"
    using r park_capacity [OF r(1)] by (simp add: sched_step_def core_step_sched)
  then show ?thesis
    using r(1,3) by (intro that [of "w\<lparr>w_sched := (w_sched w)\<lparr>ready := r\<rparr>\<rparr>"]) (simp_all add: park_task_def park_def)
qed

lemma is_head_law:
  assumes "ready_ok (ready (w_sched w))" "polled (w_sched w) (tc_token c)" "k \<noteq> Kernel"
  obtains w' h where "is_head w c k = Some (w', h)" "sched_step w w'" "polled (w_sched w') (tc_token c)"
proof -
  let ?r = "ready (w_sched w)" and ?t = "tc_token c"
  obtain qs ws bs where inv: "ready_inv ?r qs ws bs" using assms(1) by (auto simp: ready_ok_def)
  have live: "states ?r ?t \<noteq> None" using assms(2) by (auto simp: polled_def)
  obtain r h where r: "request_turn_ready ?r ?t k = Some (r, h)" "states r = states ?r" "ready_ok r"
    using request_turn_inv [OF inv live assms(3) refl] unfolding ready_ok_def by blast
  have "sched_step w (w\<lparr>w_sched := (w_sched w)\<lparr>ready := r\<rparr>\<rparr>)"
    using r request_turn_capacity [OF r(1)] by (simp add: sched_step_def core_step_sched)
  then show ?thesis using r assms(2)
    by (intro that [of "w\<lparr>w_sched := (w_sched w)\<lparr>ready := r\<rparr>\<rparr>" h]) (simp_all add: is_head_def request_turn_def polled_def)
qed

section \<open>Laws of the polls\<close>

text \<open>
  A poll by the task of \<open>c\<close> that owned \<open>Y\<close> and owns \<open>Y'\<close> afterwards: identities, limits and the rest
  \<open>Z\<close> are kept, a completed operation used at least one step and leaves the task polled, and a
  pending one leaves it runnable or waiting.
\<close>

definition poll_kept ::
  "worker \<Rightarrow> TaskContext \<Rightarrow> worker \<Rightarrow> TaskContext \<Rightarrow> Charge multiset \<Rightarrow> Charge multiset \<Rightarrow> bool \<Rightarrow> bool" where
  "poll_kept w c w' c' Y' Z fin \<longleftrightarrow>
     core_step w w' \<and> owns (w_mem w') (Y' + queued_charges (w_hand w') + Z) \<and>
     capacity (budget (w_mem w')) = capacity (budget (w_mem w)) \<and>
     tc_id c' = tc_id c \<and> tc_peer c' = tc_peer c \<and> tc_token c' = tc_token c \<and> tc_retention c' = tc_retention c \<and>
     (if fin then polled (w_sched w') (tc_token c) \<and> tc_remaining c' < tc_remaining c
      else states (ready (w_sched w')) (tc_token c) \<noteq> Some Running)"

lemma poll_kept_out:
  "\<lbrakk>sched_step w w'; states (ready (w_sched w')) (tc_token c) \<noteq> Some Running;
    owns (w_mem w) (Y + queued_charges (w_hand w) + Z)\<rbrakk> \<Longrightarrow> poll_kept w c w' c Y Z False"
  by (simp add: poll_kept_def sched_step_def)

lemma sched_step_trans: "sched_step a b \<Longrightarrow> sched_step b c \<Longrightarrow> sched_step a c"
  by (auto simp: sched_step_def intro: core_step_trans)

lemma sched_step_ready: "sched_step a b \<Longrightarrow> ready_ok (ready (w_sched b))"
  by (simp add: sched_step_def core_step_def)

lemma poll_kept_trans:
  "\<lbrakk>sched_step w w1; poll_kept w1 c w' c' Y' Z fin\<rbrakk> \<Longrightarrow> poll_kept w c w' c' Y' Z fin"
  by (auto simp: poll_kept_def sched_step_def intro: core_step_trans)

lemma poll_kept_fewer:
  "poll_kept w (c\<lparr>tc_remaining := tc_remaining c - 1\<rparr>) w' c' Y' Z fin \<Longrightarrow> 0 < tc_remaining c \<Longrightarrow>
   poll_kept w c w' c' Y' Z fin"
  by (auto simp: poll_kept_def)

lemma step_poll_law:
  assumes "ready_ok (ready (w_sched w))" "polled (w_sched w) (tc_token c)" "owns (w_mem w) (Y + queued_charges (w_hand w) + Z)"
  obtains (waits) w' where "step_poll wr w c = Some (w', c, Pending)" "poll_kept w c w' c Y Z False"
    | (goes) c' where "step_poll wr w c = Some (w, c', ReadyWith ())" "poll_kept w c w c' Y Z True"
        "tc_progress c' = tc_progress c"
proof (cases rule: permit_law [OF assms(1,2), of wr])
  case (1 w')
  then show ?thesis using waits [of w'] assms(3) by (simp add: step_poll_def poll_kept_out)
next
  case 2
  then show ?thesis using goes [of "c\<lparr>tc_remaining := tc_remaining c - 1\<rparr>"] assms
    by (simp add: step_poll_def poll_kept_def core_step_refl)
qed

text \<open>Parking after the permit was used, and the end of a request.\<close>

lemma parked_law:
  assumes "ready_ok (ready (w_sched w))" "polled (w_sched w) (tc_token c)" "owns (w_mem w) (Y + queued_charges (w_hand w) + Z)"
  obtains w' where "park_task w c k = Some w'" "poll_kept w c w' c Y Z False" "sched_step w w'"
proof (rule park_law [OF assms(1,2), of k])
  fix w' assume "park_task w c k = Some w'" "sched_step w w'" "states (ready (w_sched w')) (tc_token c) \<noteq> Some Running"
  then show ?thesis using that poll_kept_out assms(3) by blast
qed

lemma finished_law:
  assumes "ready_ok (ready (w_sched w))" "polled (w_sched w) (tc_token c)" "owns (w_mem w) (Y + queued_charges (w_hand w) + Z)" "k \<noteq> Kernel"
    and c: "0 < tc_remaining c0" "tc_remaining c = tc_remaining c0 - 1" "tc_token c = tc_token c0" "tc_id c = tc_id c0"
      "tc_peer c = tc_peer c0" "tc_retention c = tc_retention c0"
  obtains w' where "drop_request wr w c k reg = Some w'" "poll_kept w c0 w' c Y Z True" "sched_step w w'"
proof (rule drop_request_law [OF assms(1,4), of wr c reg])
  fix w' assume "drop_request wr w c k reg = Some w'" "sched_step w w'" "\<And>u. polled (w_sched w) u \<Longrightarrow> polled (w_sched w') u"
  then show ?thesis using that assms(2,3) c by (auto simp: poll_kept_def sched_step_def)
qed

lemma copy_poll_law:
  assumes ok: "ready_ok (ready (w_sched w))" "polled (w_sched w) (tc_token c)" and m: "owns (w_mem w) (Y + queued_charges (w_hand w) + Z)"
  obtains (waits) w' c' reg' where "copy_poll wr w c bs reg = Some (w', c', reg', Pending)" "poll_kept w c w' c' Y Z False"
      "tc_progress c' = tc_progress c" "w_hand w' = w_hand w"
    | (refused) w' c' where "copy_poll wr w c bs reg = Some (w', c', False, ReadyWith (Inl (TooLarge (length bs) (capacity (budget (w_mem w))))))"
      "poll_kept w c w' c' Y Z True" "tc_progress c' = tc_progress c" "w_hand w' = w_hand w" "capacity (budget (w_mem w)) < length bs"
    | (copied) w' c' o' where "copy_poll wr w c bs reg = Some (w', c', False, ReadyWith (Inr o'))"
      "poll_kept w c w' c' (add_mset (charge o') Y) Z True" "tc_progress c' = tc_progress c" "w_hand w' = w_hand w"
      "o' = \<lparr>owned_bytes = bs, charge = \<lparr>charge_bytes = length bs, retention = Some (tc_retention c, tc_id c)\<rparr>\<rparr>"
      "length bs \<le> capacity (budget (w_mem w))"
proof (cases rule: permit_law [OF ok, of wr])
  case (1 w')
  then show ?thesis using waits [of w' c reg] m poll_kept_out by (auto simp: copy_poll_def sched_step_def)
next
  case 2
  let ?c = "c\<lparr>tc_remaining := tc_remaining c - 1\<rparr>"
  have turn: "polled (w_sched w) (tc_token ?c)" using ok(2) by simp
  show ?thesis
  proof (cases "capacity (budget (w_mem w)) < length bs")
    case True
    obtain w1 where "drop_request wr w ?c Bytes reg = Some w1" "poll_kept w c w1 ?c Y Z True" "sched_step w w1"
      by (rule finished_law [OF ok(1) turn m, of Bytes c]) (use 2 in auto)
    then show ?thesis using refused [of w1 ?c] True 2 by (simp add: copy_poll_def sched_step_def)
  next
    case fits: False
    obtain w1 h where w1: "is_head w ?c Bytes = Some (w1, h)" "sched_step w w1" "polled (w_sched w1) (tc_token ?c)"
      by (rule is_head_law [OF ok(1) turn]) auto
    note r1 = sched_step_ready [OF w1(2)]
    have m1: "owns (w_mem w1) (Y + queued_charges (w_hand w1) + Z)" using m w1(2) by (simp add: sched_step_def)
    have mem1: "w_mem w1 = w_mem w" using w1(2) by (simp add: sched_step_def)
    obtain w2 where w2: "park_task w1 ?c Bytes = Some w2" "poll_kept w1 ?c w2 ?c Y Z False" "sched_step w1 w2"
      by (rule parked_law [OF r1 w1(3) m1])
    have park: "poll_kept w c w2 ?c Y Z False" "w_hand w2 = w_hand w"
      using poll_kept_fewer [OF poll_kept_trans [OF w1(2) w2(2)]] 2(2) w1(2) w2(3) by (simp_all add: sched_step_def)
    show ?thesis
    proof (cases h)
      case False
      then show ?thesis using waits [of w2 ?c True] park fits w1(1) w2(1) 2 by (simp add: copy_poll_def)
    next
      case True
      let ?ret = "Some (tc_retention c, tc_id c)"
      obtain m2 r where mr: "try_copy_tracked (w_mem w) bs ?ret = Some (m2, r)"
        using try_copy_spec [OF owns_memory_ok [OF m], of bs ?ret] by blast
      have spec: "case r of Inl (TooLarge n cap) \<Rightarrow> cap < n \<and> n = length bs \<and> cap = capacity (budget (w_mem w)) | Inl (Full n a) \<Rightarrow> m2 = w_mem w | _ \<Rightarrow> True"
        using try_copy_spec [OF owns_memory_ok [OF m], of bs ?ret] mr by (auto split: sum.splits BudgetError.splits)
      consider (full) n a where "r = Inl (Full n a)" "m2 = w_mem w" | (got) o' where "r = Inr o'"
        using spec fits by (cases r) (auto split: BudgetError.splits)
      then show ?thesis
      proof cases
        case full
        have same: "w1\<lparr>w_mem := w_mem w\<rparr> = w1" using mem1 by simp
        show ?thesis using waits [of w2 ?c True] park fits w1(1) w2(1) 2 True full mr
          by (simp add: copy_poll_def try_copy_for_def same mem1)
      next
        case got
        note own = owns_copy [OF m mr [unfolded got]]
        let ?w = "w1\<lparr>w_mem := m2\<rparr>"
        have hand: "w_hand w1 = w_hand w" using w1(2) by (simp add: sched_step_def)
        have a: "ready_ok (ready (w_sched ?w))" "polled (w_sched ?w) (tc_token ?c)"
          "owns (w_mem ?w) (add_mset (charge o') Y + queued_charges (w_hand ?w) + Z)"
          using r1 w1(3) own(1) hand by simp_all
        obtain w3 where w3: "drop_request wr ?w ?c Bytes True = Some w3" "poll_kept ?w c w3 ?c (add_mset (charge o') Y) Z True" "sched_step ?w w3"
          by (rule finished_law [OF a, of Bytes c]) (use 2 in auto)
        have "core_step w ?w" using w1(2) by (simp add: sched_step_def core_step_def)
        then have kept: "poll_kept w c w3 ?c (add_mset (charge o') Y) Z True"
          using w3(2) own(3) by (auto simp: poll_kept_def intro: core_step_trans)
        show ?thesis using copied [of w3 ?c o'] kept w3 fits w1(1) 2 True got mr own(2) mem1 hand
          by (simp add: copy_poll_def try_copy_for_def sched_step_def)
      qed
    qed
  qed
qed

lemma drop_charges_law:
  "owns (w_mem w) (mset cs + X) \<Longrightarrow>
   \<exists>w'. drop_charges wr w cs = Some w' \<and> owns (w_mem w') X \<and> capacity (budget (w_mem w')) = capacity (budget (w_mem w)) \<and>
     ready (w_sched w') = ready (w_sched w) \<and> w_hand w' = w_hand w"
proof (induction cs arbitrary: w)
  case (Cons c cs)
  obtain m k where m: "drop_charge (w_mem w) c = Some (m, k)" "owns m (mset cs + X)" "capacity (budget m) = capacity (budget (w_mem w))"
    using owns_drop [of "w_mem w" c "mset cs + X"] Cons.prems by auto
  let ?w = "case k of None \<Rightarrow> w\<lparr>w_mem := m\<rparr>
    | Some j \<Rightarrow> (w\<lparr>w_mem := m\<rparr>)\<lparr>w_sched := (w_sched w)\<lparr>signals := resource_wake wr (signals (w_sched w)) j\<rparr>\<rparr>"
  have f: "w_mem ?w = m" "ready (w_sched ?w) = ready (w_sched w)" "w_hand ?w = w_hand w" by (simp_all split: option.split)
  have "drop_charges wr w (c # cs) = drop_charges wr ?w cs" using m(1) by (simp split: option.split)
  then show ?case using Cons.IH [of ?w] m(2,3) f by simp
qed simp

lemma drop_record_law:
  assumes "ready_ok (ready (w_sched w))" "owns (w_mem w) (record_charges r + X)"
  obtains w' where "drop_record wr w r = Some w'" "core_step w w'" "owns (w_mem w') X" "w_hand w' = w_hand w"
    "capacity (budget (w_mem w')) = capacity (budget (w_mem w))" "ready (w_sched w') = ready (w_sched w)"
  using drop_charges_law [of w "kind_charges (rec_kind r)" X wr] assms that
  by (auto simp: drop_record_def record_charges_def core_step_def)

text \<open>What a completed hand-off does to the counters.\<close>

definition sent_progress :: "Progress \<Rightarrow> RecordKind \<Rightarrow> nat \<Rightarrow> Progress" where
  "sent_progress p kind n =
     p\<lparr>pending_record := False, terminal_queued := (terminal_queued p \<or> is_ended kind),
       wire_queued := wire_queued p + n, records_queued := records_queued p + 1\<rparr>"

lemma queued_charges_append:
  "queued_charges (h\<lparr>chan_queue := chan_queue h @ [x]\<rparr>) = record_charges x + queued_charges h"
  by (simp add: queued_charges_def)

lemma send_poll_first_law:
  assumes ok: "ready_ok (ready (w_sched w))" "polled (w_sched w) (tc_token c)"
    and m: "owns (w_mem w) (record_charges x + queued_charges (w_hand w) + Z)"
    and go: "permit wr w c = Some (w, c1, True)" "0 < tc_remaining c" "c1 = c\<lparr>tc_remaining := tc_remaining c - 1\<rparr>"
    and next_count: "records_queued (tc_progress c) + 1 \<le> U64_MAX"
    and n: "wire_len (rec_kind x) = Some n" "wire_queued (tc_progress c) + n \<le> U64_MAX"
  obtains (waits) w' reg' where "send_poll wr w c reg (Some x) = Some (w', c1, reg', Some x, Pending)"
      "poll_kept w c w' c1 (record_charges x) Z False" "w_hand w' = w_hand w"
    | (sent) w' c' where "send_poll wr w c reg (Some x) = Some (w', c', False, None, ReadyWith (Inr ()))"
      "poll_kept w c w' c' {#} Z True" "w_hand w' = (w_hand w)\<lparr>chan_queue := chan_queue (w_hand w) @ [x]\<rparr>"
      "tc_progress c' = sent_progress (tc_progress c) (rec_kind x) n"
    | (gone) w' where "send_poll wr w c reg (Some x) = Some (w', c1, False, None, ReadyWith (Inl TsDisconnected))"
      "poll_kept w c w' c1 {#} Z True" "w_hand w' = w_hand w"
proof -
  note c1 = go(3)
  have add: "checked_add U64_MAX (records_queued (tc_progress c1)) 1 = Some (records_queued (tc_progress c) + 1)"
    using next_count c1 by (simp add: checked_add_def)
  have turn: "polled (w_sched w) (tc_token c1)" using ok(2) c1 by simp
  obtain w1 h where w1: "is_head w c1 Queue = Some (w1, h)" "sched_step w w1" "polled (w_sched w1) (tc_token c1)"
    by (rule is_head_law [OF ok(1) turn, of Queue]) auto
  have f1: "w_mem w1 = w_mem w" "w_hand w1 = w_hand w" "core_step w w1" using w1(2) by (simp_all add: sched_step_def)
  note r1 = sched_step_ready [OF w1(2)]
  have m1: "owns (w_mem w1) (record_charges x + queued_charges (w_hand w1) + Z)" using m f1 by simp
  obtain w2 where w2: "park_task w1 c1 Queue = Some w2" "poll_kept w1 c1 w2 c1 (record_charges x) Z False" "sched_step w1 w2"
    by (rule parked_law [OF r1 w1(3) m1])
  have park: "poll_kept w c w2 c1 (record_charges x) Z False" "w_hand w2 = w_hand w"
    using poll_kept_fewer [of w c, folded c1, OF poll_kept_trans [OF w1(2) w2(2)]] go(2) f1(2) w2(3) by (simp_all add: sched_step_def)
  have same: "w1\<lparr>w_hand := w_hand w\<rparr> = w1" using f1(2) by simp
  consider (behind) "\<not> h" | (closed) h "\<not> chan_receiver (w_hand w)"
    | (room) h "chan_receiver (w_hand w)" "length (chan_queue (w_hand w)) < chan_bound (w_hand w)"
    | (full) h "chan_receiver (w_hand w)" "\<not> length (chan_queue (w_hand w)) < chan_bound (w_hand w)" by blast
  then show thesis
  proof cases
    case behind
    then show ?thesis using waits [of w2 True] park go(1) add w1(1) w2(1) by (simp add: send_poll_def)
  next
    case full
    then have "try_send (w_hand w1) x = (w_hand w, Inl (SendFull x))" using f1 by (simp add: try_send_def)
    then show ?thesis using waits [of w2 True] park go(1) add w1(1) w2(1) full(1) n(1) by (simp add: send_poll_def same)
  next
    case room
    let ?h = "(w_hand w)\<lparr>chan_queue := chan_queue (w_hand w) @ [x]\<rparr>" and ?c = "c1\<lparr>tc_progress := sent_progress (tc_progress c) (rec_kind x) n\<rparr>"
    let ?w = "w1\<lparr>w_hand := ?h\<rparr>"
    have ts: "try_send (w_hand w1) x = (?h, Inr ())" using room f1 by (simp add: try_send_def)
    have ns: "note_sent (tc_progress c1) (is_ended (rec_kind x)) n (records_queued (tc_progress c) + 1) =
        Some (sent_progress (tc_progress c) (rec_kind x) n)"
      using n(2) c1 by (simp add: note_sent_def sent_progress_def checked_add_def)
    have "owns (w_mem ?w) ({#} + queued_charges (w_hand ?w) + Z)" using m f1 by (simp add: queued_charges_append)
    then obtain w3 where w3: "drop_request wr ?w ?c Queue True = Some w3" "poll_kept ?w c w3 ?c {#} Z True" "sched_step ?w w3"
      by (rule finished_law [rotated 2, where c = ?c and k = Queue and w = ?w]) (use go r1 w1(3) in auto)
    have "core_step w ?w" using f1(3) by (simp add: core_step_def)
    then have "poll_kept w c w3 ?c {#} Z True" using w3(2) f1 by (auto simp: poll_kept_def intro: core_step_trans)
    then show ?thesis using sent [of w3 ?c] w3 go(1) add w1(1) n(1) ts ns room(1) by (simp add: send_poll_def sched_step_def)
  next
    case closed
    then have ts: "try_send (w_hand w1) x = (w_hand w, Inl (SendDisconnected x))" using f1 by (simp add: try_send_def)
    have "owns (w_mem w1) (record_charges x + (queued_charges (w_hand w) + Z))" using m f1 by (simp add: add.assoc)
    from drop_record_law [OF r1 this, of wr] obtain w2 where w2: "drop_record wr w1 x = Some w2" "core_step w1 w2"
      "owns (w_mem w2) (queued_charges (w_hand w) + Z)" "w_hand w2 = w_hand w1" "capacity (budget (w_mem w2)) = capacity (budget (w_mem w1))"
      "ready (w_sched w2) = ready (w_sched w1)" by blast
    have "ready_ok (ready (w_sched w2))" "polled (w_sched w2) (tc_token c1)" "owns (w_mem w2) ({#} + queued_charges (w_hand w2) + Z)"
      using r1 w1(3) w2 f1 by (simp_all add: polled_def)
    then obtain w3 where w3: "drop_request wr w2 c1 Queue True = Some w3" "poll_kept w2 c w3 c1 {#} Z True" "sched_step w2 w3"
      by (rule finished_law [where k = Queue]) (use go in auto)
    have "poll_kept w c w3 c1 {#} Z True"
      using w3(2) w2(2,5) f1 by (auto simp: poll_kept_def intro: core_step_trans)
    then show ?thesis using gone [of w3] w3 w2 f1 go(1) add w1(1) n(1) ts closed(1) by (simp add: send_poll_def same sched_step_def)
  qed
qed

lemma send_poll_law:
  assumes ok: "ready_ok (ready (w_sched w))" "polled (w_sched w) (tc_token c)"
    and m: "owns (w_mem w) (record_charges x + queued_charges (w_hand w) + Z)"
    and count: "records_queued (tc_progress c) \<le> U64_MAX"
    and n: "wire_len (rec_kind x) = Some n" "wire_queued (tc_progress c) + n \<le> U64_MAX"
  obtains (waits) w' c' reg' where "send_poll wr w c reg (Some x) = Some (w', c', reg', Some x, Pending)"
      "poll_kept w c w' c' (record_charges x) Z False" "tc_progress c' = tc_progress c" "w_hand w' = w_hand w"
    | (sent) w' c' where "send_poll wr w c reg (Some x) = Some (w', c', False, None, ReadyWith (Inr ()))"
      "poll_kept w c w' c' {#} Z True" "w_hand w' = (w_hand w)\<lparr>chan_queue := chan_queue (w_hand w) @ [x]\<rparr>"
      "tc_progress c' = sent_progress (tc_progress c) (rec_kind x) n" "records_queued (tc_progress c) < U64_MAX"
    | (gone) w' c' where "send_poll wr w c reg (Some x) = Some (w', c', False, None, ReadyWith (Inl TsDisconnected))"
      "poll_kept w c w' c' {#} Z True" "tc_progress c' = tc_progress c" "w_hand w' = w_hand w"
      "records_queued (tc_progress c) < U64_MAX"
    | (over) w' c' where "send_poll wr w c reg (Some x) = Some (w', c', False, None, ReadyWith (Inl TsCounterOverflow))"
      "poll_kept w c w' c' {#} Z True" "tc_progress c' = (tc_progress c)\<lparr>counter_overflow := True\<rparr>" "w_hand w' = w_hand w"
      "records_queued (tc_progress c) = U64_MAX"
proof (cases rule: permit_law [OF ok, of wr])
  case (1 w')
  then show ?thesis using waits [of w' c reg] m poll_kept_out by (auto simp: send_poll_def sched_step_def)
next
  case 2
  let ?c = "c\<lparr>tc_remaining := tc_remaining c - 1\<rparr>"
  show ?thesis
  proof (cases "records_queued (tc_progress c) = U64_MAX")
    case True
    let ?c2 = "?c\<lparr>tc_progress := (tc_progress c)\<lparr>counter_overflow := True\<rparr>\<rparr>"
    have "owns (w_mem w) (record_charges x + (queued_charges (w_hand w) + Z))" using m by (simp add: add.assoc)
    from drop_record_law [OF ok(1) this, of wr] obtain w2 where w2: "drop_record wr w x = Some w2" "core_step w w2"
      "owns (w_mem w2) (queued_charges (w_hand w) + Z)" "w_hand w2 = w_hand w" "capacity (budget (w_mem w2)) = capacity (budget (w_mem w))"
      "ready (w_sched w2) = ready (w_sched w)" by blast
    have "ready_ok (ready (w_sched w2))" "polled (w_sched w2) (tc_token ?c2)" "owns (w_mem w2) ({#} + queued_charges (w_hand w2) + Z)"
      using ok w2 by (simp_all add: polled_def)
    then obtain w3 where w3: "drop_request wr w2 ?c2 Queue reg = Some w3" "poll_kept w2 c w3 ?c2 {#} Z True" "sched_step w2 w3"
      by (rule finished_law [where k = Queue]) (use 2 in auto)
    have "poll_kept w c w3 ?c2 {#} Z True" using w3(2) w2(2,5) by (auto simp: poll_kept_def intro: core_step_trans)
    then show ?thesis using over [of w3 ?c2] w3 w2(1,4) 2(1) True by (simp add: send_poll_def checked_add_def sched_step_def)
  next
    case False
    then have room: "records_queued (tc_progress c) + 1 \<le> U64_MAX" "records_queued (tc_progress c) < U64_MAX" using count by simp_all
    show ?thesis
      by (rule send_poll_first_law [OF ok m 2 refl room(1) n, of reg])
         (use waits sent gone room(2) in \<open>auto\<close>)
  qed
qed

end
