(* ===== verification/Driver_Invariant.thy ===== *)
theory Driver_Invariant
  imports Receiver_Driver Task_Polls
begin

text \<open>
  The worker invariant and its preservation by every operation of the driver: the scheduler, the
  live map and the controls name the same connections, tokens are fresh, the connection bound
  holds, senders are counted, and the summary accounts for every admitted connection and every
  byte read.  No assertion or \<open>expect\<close> of the driver fails in a state that satisfies it.
\<close>

section \<open>What the worker relies on\<close>

definition progress_ok :: "Progress \<Rightarrow> bool" where
  "progress_ok p \<longleftrightarrow> wire_queued p \<le> p_read p"

text \<open>
  What the worker relies on of connection futures: \<open>sound\<close> holds of every future it may still poll
  and \<open>held\<close> is the storage a future owns.  A poll returns, leaves the task runnable or waiting when
  it is pending, hands off no more bytes than were read and touches no storage of others;
  destruction gives everything back without a panic.
\<close>

locale connection_tasks =
  fixes ops :: "'f task_ops"
    and sound :: "'f \<Rightarrow> TaskContext \<Rightarrow> bool"
    and held :: "'f \<Rightarrow> Charge multiset"
  assumes start_law: "sound (start_task ops pc prof (TaskContext_new i peer t k)) (TaskContext_new i peer t k)"
      "held (start_task ops pc prof x) = {#}"
    and poll_law: "\<lbrakk>sound f x; ready_ok (ready (w_sched c)); polled (w_sched c) (tc_token x); progress_ok (tc_progress x);
        owns (w_mem c) (held f + queued_charges (w_hand c) + Z)\<rbrakk> \<Longrightarrow>
      \<exists>c' f' x' p. poll_task ops wr c f (reset_turn x n) = Some (c', f', x', p) \<and> core_step c c' \<and>
        owns (w_mem c') (held f' + queued_charges (w_hand c') + Z) \<and> tc_token x' = tc_token x \<and> tc_id x' = tc_id x \<and>
        progress_ok (tc_progress x') \<and>
        (p = Pending \<longrightarrow> sound f' x' \<and> states (ready (w_sched c')) (tc_token x) \<noteq> Some Running)"
    and drop_law: "\<lbrakk>ready_ok (ready (w_sched c)); owns (w_mem c) (held f + queued_charges (w_hand c) + Z)\<rbrakk> \<Longrightarrow>
      \<exists>c'. drop_task ops wr c f x = Some c' \<and> core_step c c' \<and> owns (w_mem c') (queued_charges (w_hand c') + Z)"

text \<open>The storage of the futures, the queued records and the other threads.\<close>

definition worker_charges :: "('f \<Rightarrow> Charge multiset) \<Rightarrow> 'f Worker \<Rightarrow> Charge multiset" where
  "worker_charges held w =
     btree_sum (held \<circ> future) (wk_live w) + queued_charges (w_hand (wk_core w)) + mset (wk_outside w)"

definition entry_ok :: "('f \<Rightarrow> TaskContext \<Rightarrow> bool) \<Rightarrow> nat \<Rightarrow> Token \<Rightarrow> 'f Entry \<Rightarrow> bool" where
  "entry_ok good inst t e \<longleftrightarrow> tc_token (entry_context e) = t \<and> tc_id (entry_context e) = ConnectionId inst t \<and>
     progress_ok (tc_progress (entry_context e)) \<and> good (future e) (entry_context e)"

definition live_tokens :: "'f Worker \<Rightarrow> Token set" where
  "live_tokens w = fst ` set (wk_live w)"

definition raw_balanced :: "RunSummary \<Rightarrow> bool" where
  "raw_balanced s \<longleftrightarrow> raw_bytes_read s = raw_bytes_handed_off s + undelivered_raw_bytes s"

definition worker_inv :: "('f \<Rightarrow> Charge multiset) \<Rightarrow> ('f \<Rightarrow> TaskContext \<Rightarrow> bool) \<Rightarrow> 'f Worker \<Rightarrow> bool" where
  "worker_inv held good w \<longleftrightarrow>
     (let r = ready (w_sched (wk_core w)) in
      ready_ok r \<and> ready_capacity r = max_connections (wk_limits w) \<and> dom (states r) = live_tokens w \<and>
      btree_ok (wk_live w) \<and> (\<forall>t e. btree_get (wk_live w) t = Some e \<longrightarrow> entry_ok good (wk_instance w) t e) \<and>
      (\<forall>t \<in> live_tokens w. t < wk_next w) \<and> length (wk_live w) \<le> max_connections (wk_limits w) \<and>
      controls_ok (wk_controls w) \<and> dom (cell_of (wk_controls w)) = ConnectionId (wk_instance w) ` live_tokens w \<and>
      chan_senders (w_hand (wk_core w)) = Suc (2 * length (wk_live w)) \<and> raw_balanced (wk_summary w) \<and>
      owns (w_mem (wk_core w)) (worker_charges held w))"

text \<open>Every admitted connection is live, ended or abandoned.\<close>

definition balanced :: "'f Worker \<Rightarrow> bool" where
  "balanced w \<longleftrightarrow> (counters_complete (wk_summary w) \<longrightarrow>
     accepted (wk_summary w) = ended (wk_summary w) + abandoned (wk_summary w) + length (wk_live w))"

text \<open>
  The outcome of an operation: an exhausted counter stops the run before the balance is restored,
  and what a run is set up with never changes.
\<close>

definition same_setup :: "'f Worker \<Rightarrow> 'f Worker \<Rightarrow> bool" where
  "same_setup w w' \<longleftrightarrow> wk_limits w' = wk_limits w \<and> wk_instance w' = wk_instance w \<and> wk_profile w' = wk_profile w \<and>
     wk_next w \<le> wk_next w' \<and> live_at_stop (wk_summary w') = live_at_stop (wk_summary w)"

lemma same_setup_refl [simp]: "same_setup w w"
  by (simp add: same_setup_def)

lemma same_setup_trans: "same_setup a b \<Longrightarrow> same_setup b c \<Longrightarrow> same_setup a c"
  by (simp add: same_setup_def)

text \<open>A future that has returned stays in the map only when an exhausted counter ends the run.\<close>

definition good_after :: "('f \<Rightarrow> TaskContext \<Rightarrow> bool) \<Rightarrow> ReceiverFailure option \<Rightarrow> 'f \<Rightarrow> TaskContext \<Rightarrow> bool" where
  "good_after good f = (if f = Some CounterExhausted then (\<lambda>_ _. True) else good)"

definition keeps ::
  "('f \<Rightarrow> Charge multiset) \<Rightarrow> ('f \<Rightarrow> TaskContext \<Rightarrow> bool) \<Rightarrow> 'f Worker \<Rightarrow> 'f Worker \<Rightarrow> ReceiverFailure option \<Rightarrow> bool" where
  "keeps held good w w' f \<longleftrightarrow> worker_inv held (good_after good f) w' \<and> same_setup w w' \<and>
     (f \<noteq> Some CounterExhausted \<longrightarrow> balanced w \<longrightarrow> balanced w')"

lemma worker_inv_mono:
  assumes "worker_inv held good w" "\<And>t e. btree_get (wk_live w) t = Some e \<Longrightarrow> good (future e) (entry_context e) \<Longrightarrow>
    tc_token (entry_context e) = t \<Longrightarrow> good' (future e) (entry_context e)"
  shows "worker_inv held good' w"
proof -
  have "entry_ok good' (wk_instance w) t e" if "btree_get (wk_live w) t = Some e" "entry_ok good (wk_instance w) t e" for t e
    using that assms(2) [OF that(1)] by (simp add: entry_ok_def)
  then show ?thesis using assms(1) by (simp add: worker_inv_def Let_def)
qed

lemma worker_inv_after: "worker_inv held good w \<Longrightarrow> worker_inv held (good_after good f) w"
  by (erule worker_inv_mono) (simp add: good_after_def)

lemma good_after_simps [simp]: "good_after good None = good" "good_after good (Some CounterExhausted) = (\<lambda>_ _. True)"
  by (simp_all add: good_after_def)

fun failure_of :: "'e + 'a \<Rightarrow> 'e option" where
  "failure_of (Inl e) = Some e"
| "failure_of (Inr x) = None"

lemma keepsI:
  "\<lbrakk>worker_inv held good w'; same_setup w w'; f \<noteq> Some CounterExhausted \<Longrightarrow> balanced w \<Longrightarrow> balanced w'\<rbrakk> \<Longrightarrow> keeps held good w w' f"
  by (simp add: keeps_def worker_inv_after)

lemma keeps_refl: "worker_inv held good w \<Longrightarrow> keeps held good w w f"
  by (rule keepsI) simp_all

lemma keeps_trans: "keeps held good a b None \<Longrightarrow> keeps held good b c f \<Longrightarrow> keeps held good a c f"
  by (auto simp: keeps_def intro: same_setup_trans)

lemma keepsD: "keeps held good w w' None \<Longrightarrow> worker_inv held good w'"
  by (simp add: keeps_def)

section \<open>Counters\<close>

lemma merge_progress_spec:
  assumes "progress_ok p" "raw_balanced s"
  obtains (exhausted) "merge_progress s p = Some (s, Inl CounterExhausted)"
  | (merged) s' where "merge_progress s p = Some (s', if counter_overflow p then Inl CounterExhausted else Inr ())"
      "raw_balanced s'" "live_at_stop s' = live_at_stop s" "accepted s' = accepted s" "closed_by_request s' = closed_by_request s"
      "ended s' + abandoned s' = Suc (ended s + abandoned s)" "ended s' = ended s + (if terminal_queued p then 1 else 0)"
      "raw_bytes_read s' = raw_bytes_read s + p_read p" "raw_bytes_handed_off s' = raw_bytes_handed_off s + wire_queued p"
      "counters_complete s' \<longleftrightarrow> counters_complete s \<and> \<not> counter_overflow p"
proof -
  have le: "raw_bytes_handed_off s + wire_queued p \<le> raw_bytes_read s + p_read p"
    using assms by (simp add: progress_ok_def raw_balanced_def)
  let ?n = "(if terminal_queued p then ended s else abandoned s) + 1"
  let ?s = "(if terminal_queued p then s\<lparr>ended := ?n\<rparr> else s\<lparr>abandoned := ?n\<rparr>)\<lparr>
      raw_bytes_read := raw_bytes_read s + p_read p, raw_bytes_handed_off := raw_bytes_handed_off s + wire_queued p,
      undelivered_raw_bytes := raw_bytes_read s + p_read p - (raw_bytes_handed_off s + wire_queued p),
      records_handed_off := records_handed_off s + records_queued p,
      undelivered_records := undelivered_records s + (if pending_record p then 1 else 0),
      counters_complete := (counters_complete s \<and> \<not> counter_overflow p)\<rparr>"
  let ?fit = "?n \<le> USIZE_MAX \<and> raw_bytes_read s + p_read p \<le> U64_MAX \<and> records_handed_off s + records_queued p \<le> U64_MAX \<and>
      undelivered_records s + (if pending_record p then 1 else 0) \<le> USIZE_MAX"
  show thesis
  proof (cases ?fit)
    case True
    then have "merge_progress s p = Some (?s, if counter_overflow p then Inl CounterExhausted else Inr ())"
      using le by (simp add: merge_progress_def merged_def bump_def checked_add_def checked_sub_def Let_def)
    then show ?thesis by (rule merged) (use le in \<open>simp_all add: raw_balanced_def\<close>)
  next
    case False
    then have "merge_progress s p = Some (s, Inl CounterExhausted)"
      using le by (auto simp: merge_progress_def merged_def bump_def checked_add_def checked_sub_def Let_def)
    then show ?thesis by (rule exhausted)
  qed
qed

lemma worker_inv_summary:
  "worker_inv held good w \<Longrightarrow> raw_balanced s \<Longrightarrow> worker_inv held good (w\<lparr>wk_summary := s\<rparr>)"
  by (simp add: worker_inv_def live_tokens_def worker_charges_def Let_def)

lemma absorb_keeps:
  assumes inv: "worker_inv held good w" and p: "progress_ok p"
  obtains s r where "absorb w p = Some (w\<lparr>wk_summary := s\<rparr>, r)" "r = Inr () \<or> r = Inl CounterExhausted"
    "worker_inv held good (w\<lparr>wk_summary := s\<rparr>)" "live_at_stop s = live_at_stop (wk_summary w)"
    "(counters_complete (wk_summary w) \<longrightarrow>
      accepted (wk_summary w) = ended (wk_summary w) + abandoned (wk_summary w) + Suc (length (wk_live w))) \<longrightarrow>
     balanced (w\<lparr>wk_summary := s\<rparr>)"
proof -
  have raw: "raw_balanced (wk_summary w)" using inv by (simp add: worker_inv_def Let_def)
  from merge_progress_spec [OF p raw] show thesis
  proof cases
    case 1
    then show ?thesis
      by (intro that [of "(wk_summary w)\<lparr>counters_complete := False\<rparr>" "Inl CounterExhausted"] worker_inv_summary)
         (use raw inv in \<open>auto simp: absorb_def balanced_def raw_balanced_def\<close>)
  next
    case (2 s')
    let ?s = "if counter_overflow p then s'\<lparr>counters_complete := False\<rparr> else s'"
    show ?thesis
      by (rule that [of ?s "if counter_overflow p then Inl CounterExhausted else Inr ()"])
         (use 2 inv in \<open>auto simp: absorb_def balanced_def raw_balanced_def intro!: worker_inv_summary\<close>)
  qed
qed

section \<open>Retirement\<close>

text \<open>The worker once the connection of a token is gone from every structure.\<close>

definition detached :: "'f Worker \<Rightarrow> worker \<Rightarrow> Token \<Rightarrow> ConnectionCloseResult \<Rightarrow> 'f Worker" where
  "detached w c t res =
     w\<lparr>wk_core := c\<lparr>w_hand := drop_sender (drop_sender (w_hand c))\<rparr>, wk_live := btree_remove (wk_live w) t,
       wk_controls := controls_finish (wk_controls w) (ConnectionId (wk_instance w) t) res\<rparr>"

text \<open>An operation returns, without a panic, in a state that keeps the invariant.\<close>

definition returns ::
  "('f \<Rightarrow> Charge multiset) \<Rightarrow> ('f \<Rightarrow> TaskContext \<Rightarrow> bool) \<Rightarrow> 'f Worker \<Rightarrow> ('f Worker \<times> (ReceiverFailure + 'b)) run \<Rightarrow> bool" where
  "returns held good w m \<longleftrightarrow> (\<exists>w' r. m = Some (w', r) \<and> keeps held good w w' (failure_of r))"

lemma returns_Some: "keeps held good w w' (failure_of r) \<Longrightarrow> returns held good w (Some (w', r))"
  by (simp add: returns_def)

lemma returns_then:
  assumes "returns held good w m" "\<And>w'. keeps held good w w' None \<Longrightarrow> returns held good w' (k w')"
  shows "returns held good w (m \<bind> (\<lambda>(w', r). case r of Inl f \<Rightarrow> Some (w', Inl f) | Inr _ \<Rightarrow> k w'))"
proof -
  obtain w' r where m: "m = Some (w', r)" "keeps held good w w' (failure_of r)" using assms(1) by (auto simp: returns_def)
  show ?thesis
  proof (cases r)
    case (Inl f)
    then show ?thesis using m by (simp add: returns_def)
  next
    case (Inr x)
    then have k: "keeps held good w w' None" using m by simp
    with assms(2) [OF k] m Inr show ?thesis by (auto simp: returns_def intro: keeps_trans)
  qed
qed

lemma live_tokens_remove: "btree_ok (wk_live w) \<Longrightarrow> fst ` set (btree_remove (wk_live w) t) = live_tokens w - {t}"
  by (auto simp: live_tokens_def set_btree_remove)

lemma worker_inv_btree: "worker_inv held good w \<Longrightarrow> btree_ok (wk_live w)"
  by (simp add: worker_inv_def Let_def)

lemma queued_charges_senders [simp]:
  "queued_charges (drop_sender h) = queued_charges h" "queued_charges (clone_sender h) = queued_charges h"
  by (simp_all add: queued_charges_def drop_sender_def clone_sender_def)

context connection_tasks
begin

lemma detached_inv:
  assumes inv: "worker_inv held good w" and e: "btree_get (wk_live w) t = Some e"
  obtains s b c where "retire wr (w_sched (wk_core w)) t = Some (s, b)"
    "drop_task ops wr ((wk_core w)\<lparr>w_sched := s\<rparr>) (future e) (entry_context e) = Some c"
    "worker_inv held good (detached w c t res)"
proof -
  let ?r = "ready (w_sched (wk_core w))"
  note i = inv [unfolded worker_inv_def Let_def]
  obtain qs ws bs where ri: "ready_inv ?r qs ws bs" using i by (auto simp: ready_ok_def)
  obtain r' qs' b where r': "retire_ready ?r t = Some (r', b)" "ready_inv r' qs' (remove1 t ws) (remove1 t bs)"
    "woken_from (?r\<lparr>states := (states ?r)(t := None)\<rparr>) r'" by (rule retire_inv [OF ri, of t]) blast
  define s where "s = fst (wake_if wr ((w_sched (wk_core w))\<lparr>ready := r'\<rparr>) b)"
  have s: "ready s = r'" by (simp add: s_def)
  obtain b' where ret: "retire wr (w_sched (wk_core w)) t = Some (s, b')"
    using r'(1) by (cases "wake_if wr ((w_sched (wk_core w))\<lparr>ready := r'\<rparr>) b") (simp add: retire_def s_def)
  have dom: "dom (states r') = live_tokens w - {t}" using r'(3) i by (auto simp: woken_from_def)
  have cap: "ready_capacity r' = max_connections (wk_limits w)" using retire_capacity [OF r'(1)] i by simp
  let ?c = "(wk_core w)\<lparr>w_sched := s\<rparr>" and ?Z = "btree_sum (held \<circ> future) (btree_remove (wk_live w) t) + mset (wk_outside w)"
  have "ready_ok (ready (w_sched ?c))" using r'(2) s by (auto simp: ready_ok_def)
  moreover have "owns (w_mem ?c) (held (future e) + queued_charges (w_hand ?c) + ?Z)"
    using i btree_sum_remove [OF e, of "held \<circ> future"] by (simp add: worker_charges_def ac_simps)
  ultimately obtain c where c: "drop_task ops wr ?c (future e) (entry_context e) = Some c"
    "core_step ?c c" "owns (w_mem c) (queued_charges (w_hand c) + ?Z)" using drop_law by blast
  have len: "Suc (length (btree_remove (wk_live w) t)) = length (wk_live w)" using e by (intro length_btree_remove) simp
  have keys: "live_tokens (detached w c t res) = live_tokens w - {t}"
    using i by (auto simp: live_tokens_def detached_def set_btree_remove)
  have own: "owns (w_mem (wk_core (detached w c t res))) (worker_charges held (detached w c t res))"
    using c(3) by (simp add: detached_def worker_charges_def ac_simps)
  have "dom ((cell_of (wk_controls w))(ConnectionId (wk_instance w) t := None)) = ConnectionId (wk_instance w) ` (live_tokens w - {t})"
    using i by auto
  moreover have "btree_ok (entries (wk_controls w))" using i by (simp add: controls_ok_def)
  ultimately have "worker_inv held good (detached w c t res)"
    unfolding worker_inv_def Let_def keys
    using i c(2) s dom cap len own
    by (auto simp: detached_def core_step_def btree_remove_ok btree_get_remove finish_ok finish_fields drop_sender_def split: if_splits)
  then show thesis using that [OF ret c(1)] by blast
qed

lemma retire_with_keeps:
  assumes inv: "worker_inv held good w" and t: "t \<in> live_tokens w"
  obtains w' r where "retire_with ops wr w t res = Some (w', r)" "r = Inr () \<or> r = Inl CounterExhausted"
    "worker_inv held good w'" "same_setup w w'" "r = Inr () \<longrightarrow> balanced w \<longrightarrow> balanced w'"
    "wk_live w' = btree_remove (wk_live w) t"
    "wk_controls w' = controls_finish (wk_controls w) (ConnectionId (wk_instance w) t) res"
    "res \<noteq> RetiredByRequest \<longrightarrow> balanced w \<longrightarrow> balanced w'"
proof -
  note result = that
  obtain e where e: "btree_get (wk_live w) t = Some e"
    using t btree_get_None_iff [of "wk_live w" t] by (cases "btree_get (wk_live w) t") (auto simp: live_tokens_def)
  then have eok: "entry_ok good (wk_instance w) t e" using inv by (auto simp: worker_inv_def Let_def)
  obtain s b c where d: "retire wr (w_sched (wk_core w)) t = Some (s, b)"
    "drop_task ops wr ((wk_core w)\<lparr>w_sched := s\<rparr>) (future e) (entry_context e) = Some c"
    "worker_inv held good (detached w c t res)" by (rule detached_inv [OF inv e])
  have len: "Suc (length (btree_remove (wk_live w) t)) = length (wk_live w)" using e by (intro length_btree_remove) simp
  let ?d = "detached w c t res" and ?p = "tc_progress (entry_context e)" and ?n = "closed_by_request (wk_summary w)"
  have eval: "retire_with ops wr w t res =
      (if res = RetiredByRequest then
         (case bump USIZE_MAX ?n of
            Inl f \<Rightarrow> Some (?d, Inl f)
          | Inr n \<Rightarrow> absorb (?d\<lparr>wk_summary := (wk_summary w)\<lparr>closed_by_request := n\<rparr>\<rparr>) ?p)
       else absorb ?d ?p)"
    using d(1,2) e eok by (simp add: retire_with_def entry_ok_def detached_def Let_def split: sum.split)
  have fields: "wk_summary ?d = wk_summary w" "wk_live ?d = btree_remove (wk_live w) t" "same_setup w ?d"
    "wk_controls ?d = controls_finish (wk_controls w) (ConnectionId (wk_instance w) t) res"
    by (simp_all add: detached_def same_setup_def)
  have p: "progress_ok ?p" using eok by (simp add: entry_ok_def)
  have finish: thesis if u: "worker_inv held good (?d\<lparr>wk_summary := s0\<rparr>)" "retire_with ops wr w t res = absorb (?d\<lparr>wk_summary := s0\<rparr>) ?p"
    "accepted s0 = accepted (wk_summary w)" "ended s0 = ended (wk_summary w)" "abandoned s0 = abandoned (wk_summary w)"
    "counters_complete s0 = counters_complete (wk_summary w)" "live_at_stop s0 = live_at_stop (wk_summary w)" for s0
  proof -
    obtain s' r where a: "absorb (?d\<lparr>wk_summary := s0\<rparr>) ?p = Some (?d\<lparr>wk_summary := s'\<rparr>, r)" "r = Inr () \<or> r = Inl CounterExhausted"
      "worker_inv held good (?d\<lparr>wk_summary := s'\<rparr>)" "live_at_stop s' = live_at_stop s0"
      "(counters_complete s0 \<longrightarrow> accepted s0 = ended s0 + abandoned s0 + Suc (length (wk_live ?d))) \<longrightarrow> balanced (?d\<lparr>wk_summary := s'\<rparr>)"
      by (rule absorb_keeps [OF u(1) p]) simp
    have "balanced w \<longrightarrow> balanced (?d\<lparr>wk_summary := s'\<rparr>)" using a(5) u(3-6) len fields by (auto simp: balanced_def)
    then show thesis
      using a u fields by (intro result [of "?d\<lparr>wk_summary := s'\<rparr>" r]) (auto simp: same_setup_def)
  qed
  show thesis
  proof (cases "res = RetiredByRequest")
    case True
    show ?thesis
    proof (cases "bump USIZE_MAX ?n")
      case (Inl f)
      then have "f = CounterExhausted" by (simp add: bump_def split: option.splits)
      then show ?thesis using True Inl eval d(3) fields
        by (intro that [of ?d "Inl CounterExhausted"]) auto
    next
      case (Inr n)
      have "raw_balanced (wk_summary w)" using inv by (simp add: worker_inv_def Let_def)
      then show ?thesis using True eval d(3) Inr
        by (intro finish [of "(wk_summary w)\<lparr>closed_by_request := n\<rparr>"] worker_inv_summary)
           (auto simp: raw_balanced_def)
    qed
  next
    case False
    have "?d\<lparr>wk_summary := wk_summary w\<rparr> = ?d" by (simp add: detached_def)
    then show ?thesis using False eval d(3) by (intro finish [of "wk_summary w"]) auto
  qed
qed

lemma retire_with_returns:
  assumes "worker_inv held good w" "t \<in> live_tokens w"
  shows "returns held good w (retire_with ops wr w t res)"
proof (rule retire_with_keeps [OF assms, of wr res])
  fix w' r assume "retire_with ops wr w t res = Some (w', r)" "r = Inr () \<or> r = Inl CounterExhausted"
    "worker_inv held good w'" "same_setup w w'" "r = Inr () \<longrightarrow> balanced w \<longrightarrow> balanced w'"
  then show ?thesis by (auto simp: returns_def intro!: keepsI)
qed

lemma retire_each_returns:
  "\<lbrakk>worker_inv held good w; distinct ts; set ts \<subseteq> live_tokens w\<rbrakk> \<Longrightarrow> returns held good w (retire_each ops wr w ts)"
proof (induction ts arbitrary: w)
  case Nil
  then show ?case by (simp add: returns_def keeps_refl)
next
  case (Cons t ts)
  have t: "t \<in> live_tokens w" using Cons.prems(3) by simp
  obtain w' r where r: "retire_with ops wr w t RetiredByRequest = Some (w', r)" "r = Inr () \<or> r = Inl CounterExhausted"
    "worker_inv held good w'" "same_setup w w'" "r = Inr () \<longrightarrow> balanced w \<longrightarrow> balanced w'" "wk_live w' = btree_remove (wk_live w) t"
    by (rule retire_with_keeps [OF Cons.prems(1) t, of wr RetiredByRequest])
  have k: "keeps held good w w' (failure_of r)" using r(2-5) by (auto intro!: keepsI)
  have "set ts \<subseteq> live_tokens w'"
    using Cons.prems r(6) live_tokens_remove [OF worker_inv_btree [OF Cons.prems(1)], of t] by (auto simp: live_tokens_def)
  moreover have "distinct ts" using Cons.prems(2) by simp
  ultimately have "returns held good w' (retire_each ops wr w' ts)" using Cons.IH [of w'] r(3) by blast
  then show ?case using r(1,2) k by (auto simp: returns_def intro: keeps_trans)
qed

lemma retire_requested_returns:
  assumes "worker_inv held good w"
  shows "returns held good w (retire_requested ops wr w)"
  unfolding retire_requested_def
proof (rule retire_each_returns [OF assms])
  have "distinct (map fst (wk_live w))" using worker_inv_btree [OF assms] by (simp add: btree_ok_def strict_sorted_iff)
  then show "distinct (map fst (filter (\<lambda>(t, e). controls_requested (wk_controls w) (tc_id (entry_context e))) (wk_live w)))"
    by (rule distinct_map_filter)
qed (auto simp: live_tokens_def)

lemma retire_all_returns:
  assumes res: "res \<noteq> RetiredByRequest"
  shows "worker_inv held good w \<Longrightarrow> \<exists>w' r. retire_all_loop ops wr w res failed = Some (Some (w', r)) \<and>
    worker_inv held good w' \<and> same_setup w w' \<and> wk_live w' = [] \<and> (balanced w \<longrightarrow> balanced w') \<and>
    (r = Inr () \<or> r = Inl CounterExhausted \<or> (\<exists>f. failed = Some f \<and> r = Inl f))"
proof (induction "length (wk_live w)" arbitrary: w failed)
  case 0
  then show ?case by (auto simp: retire_all_loop.simps [of ops wr w] split: option.split)
next
  case (Suc n)
  then obtain t e rest where l: "wk_live w = (t, e) # rest" by (cases "wk_live w") auto
  then have t: "t \<in> live_tokens w" by (simp add: live_tokens_def)
  obtain w1 r1 where r1: "retire_with ops wr w t res = Some (w1, r1)" "r1 = Inr () \<or> r1 = Inl CounterExhausted"
    "worker_inv held good w1" "same_setup w w1" "wk_live w1 = btree_remove (wk_live w) t" "res \<noteq> RetiredByRequest \<longrightarrow> balanced w \<longrightarrow> balanced w1"
    by (rule retire_with_keeps [OF Suc.prems t, of wr res])
  have "n = length (wk_live w1)" using r1(5) l Suc.hyps(2) by simp
  from Suc.hyps(1) [OF this r1(3), of "case r1 of Inl f \<Rightarrow> Some f | Inr _ \<Rightarrow> failed"] obtain w' r where
    w': "retire_all_loop ops wr w1 res (case r1 of Inl f \<Rightarrow> Some f | Inr _ \<Rightarrow> failed) = Some (Some (w', r))"
    "worker_inv held good w'" "same_setup w1 w'" "wk_live w' = []" "balanced w1 \<longrightarrow> balanced w'"
    "r = Inr () \<or> r = Inl CounterExhausted \<or> (\<exists>f. (case r1 of Inl f \<Rightarrow> Some f | Inr _ \<Rightarrow> failed) = Some f \<and> r = Inl f)" by blast
  have "same_setup w w'" using r1(4) w'(3) by (rule same_setup_trans)
  then show ?case using l r1 w' res by (auto simp: retire_all_loop.simps [of ops wr w])
qed

end

section \<open>Admission\<close>

definition returns_io ::
  "('f \<Rightarrow> Charge multiset) \<Rightarrow> ('f \<Rightarrow> TaskContext \<Rightarrow> bool) \<Rightarrow> 'f Worker \<Rightarrow> ('f Worker \<times> 'a \<times> (ReceiverFailure + 'b)) run \<Rightarrow> bool" where
  "returns_io held good w m \<longleftrightarrow> (\<exists>w' a r. m = Some (w', a, r) \<and> keeps held good w w' (failure_of r))"

lemma returns_io_Some: "keeps held good w w' (failure_of r) \<Longrightarrow> returns_io held good w (Some (w', a, r))"
  by (simp add: returns_io_def)

lemma returns_io_from: "keeps held good w w1 None \<Longrightarrow> returns_io held good w1 m \<Longrightarrow> returns_io held good w m"
  by (auto simp: returns_io_def intro: keeps_trans)

lemma bump_Inl: "bump n m = Inl f \<Longrightarrow> f = CounterExhausted"
  by (simp add: bump_def split: option.splits)

text \<open>Changes that no part of the invariant depends on.\<close>

lemma keeps_idle:
  assumes "worker_inv held good w" "raw_balanced s" "accepted s = accepted (wk_summary w)" "ended s = ended (wk_summary w)"
    "abandoned s = abandoned (wk_summary w)" "counters_complete s = counters_complete (wk_summary w)"
    "live_at_stop s = live_at_stop (wk_summary w)"
  shows "keeps held good w (w\<lparr>wk_summary := s, accept_paused_at := p\<rparr>) f" "keeps held good w (w\<lparr>wk_summary := s\<rparr>) f"
  using assms by (auto simp: worker_inv_def live_tokens_def worker_charges_def same_setup_def balanced_def Let_def intro!: keepsI)

lemma keeps_listener:
  assumes "worker_inv held good w"
  shows "keeps held good w (w\<lparr>listener_ready := b\<rparr>) f" "keeps held good w (w\<lparr>accept_paused_at := p\<rparr>) f"
    "wk_next w \<le> n \<Longrightarrow> keeps held good w (w\<lparr>wk_next := n\<rparr>) f"
  using assms by (auto simp: worker_inv_def live_tokens_def worker_charges_def same_setup_def balanced_def Let_def intro!: keepsI) force

lemma inv_raw: "worker_inv held good w \<Longrightarrow> raw_balanced (wk_summary w)"
  by (simp add: worker_inv_def Let_def)

text \<open>The worker with a new connection in every structure.\<close>

definition attached :: "'f Worker \<Rightarrow> Scheduler \<Rightarrow> ConnectionControls \<Rightarrow> Token \<Rightarrow> 'f \<Rightarrow> TaskContext \<Rightarrow> 'f Worker" where
  "attached w s k t f x =
     w\<lparr>wk_next := Suc t, wk_core := (wk_core w)\<lparr>w_sched := s, w_hand := clone_sender (clone_sender (w_hand (wk_core w)))\<rparr>,
       wk_live := btree_insert (wk_live w) t \<lparr>future = f, entry_context = x\<rparr>, wk_controls := k\<rparr>"

context connection_tasks
begin

lemma attached_inv:
  fixes peer :: SocketAddr
  assumes inv: "worker_inv held sound w" and room: "length (wk_live w) < max_connections (wk_limits w)"
  defines "x \<equiv> TaskContext_new (ConnectionId (wk_instance w) (wk_next w)) peer (wk_next w) (controls_retention (wk_controls w))"
  obtains s k where "sched_insert (w_sched (wk_core w)) (wk_next w) = Some s" "btree_get (wk_live w) (wk_next w) = None"
    "register (wk_controls w) (ConnectionId (wk_instance w) (wk_next w)) = Some k"
    "worker_inv held sound (attached w s k (wk_next w) (start_task ops (payload_capacity (wk_limits w)) (wk_profile w) x) x)"
proof -
  let ?t = "wk_next w" and ?r = "ready (w_sched (wk_core w))" and ?i = "ConnectionId (wk_instance w) (wk_next w)"
  note i = inv [unfolded worker_inv_def Let_def]
  obtain qs ws bs where ri: "ready_inv ?r qs ws bs" using i by (auto simp: ready_ok_def)
  have fresh: "?t \<notin> live_tokens w" using i by auto
  then have fresh': "states ?r ?t = None" "btree_get (wk_live w) ?t = None"
    using i by (auto simp: live_tokens_def btree_get_None_iff)
  have card: "card (dom (states ?r)) < ready_capacity ?r"
    using i room card_btree_keys [of "wk_live w"] by (simp add: live_tokens_def)
  obtain s where s: "sched_insert (w_sched (wk_core w)) ?t = Some s" "ready_inv (ready s) (qs @ [?t]) ws bs"
    "states (ready s) = (states ?r)(?t \<mapsto> Queued)"
    using insert_inv [OF ri card fresh'(1)] by blast
  have cap: "ready_capacity (ready s) = ready_capacity ?r"
    using s(1) by (auto simp: sched_insert_def Let_def split: if_splits bind_splits)
  have "cell_of (wk_controls w) ?i = None"
  proof (rule ccontr)
    assume "cell_of (wk_controls w) ?i \<noteq> None"
    then have "?i \<in> ConnectionId (wk_instance w) ` live_tokens w" using i by blast
    with fresh show False by auto
  qed
  then obtain k where k: "register (wk_controls w) ?i = Some k" by (auto simp: register_def cell_of_def)
  have "sound (start_task ops (payload_capacity (wk_limits w)) (wk_profile w) x) x" unfolding x_def by (rule start_law(1))
  then have "entry_ok sound (wk_instance w) ?t \<lparr>future = start_task ops (payload_capacity (wk_limits w)) (wk_profile w) x, entry_context = x\<rparr>"
    by (simp add: entry_ok_def x_def TaskContext_new_def Progress_default_def progress_ok_def)
  moreover have "ready_ok (ready s)" using s(2) by (auto simp: ready_ok_def)
  ultimately have "worker_inv held sound (attached w s k ?t (start_task ops (payload_capacity (wk_limits w)) (wk_profile w) x) x)"
    using i s(3) cap room register_fields [OF k] register_ok [OF _ k] length_btree_insert [OF fresh'(2)]
      btree_sum_insert [OF fresh'(2), of "held \<circ> future"] start_law(2)
    by (auto simp: worker_inv_def attached_def live_tokens_def worker_charges_def clone_sender_def queued_charges_def
        btree_insert_ok btree_get_insert less_Suc_eq Let_def)
  then show thesis using that s(1) fresh'(2) k by blast
qed

lemma admit_returns:
  assumes inv: "worker_inv held sound w" and room: "length (wk_live w) < max_connections (wk_limits w)"
  shows "returns_io held sound w (admit ops io w a peer)"
proof (cases "wk_next w + 1 \<le> USIZE_MAX")
  case False
  then show ?thesis using keeps_refl [OF inv] by (simp add: admit_def allocate_token_def checked_add_def returns_io_def)
next
  case True
  let ?t = "wk_next w"
  let ?x = "TaskContext_new (ConnectionId (wk_instance w) ?t) peer ?t (controls_retention (wk_controls w))"
  let ?f = "start_task ops (payload_capacity (wk_limits w)) (wk_profile w) ?x"
  obtain a' r where r: "io_register io a ?t = (a', r)" by fastforce
  show ?thesis
  proof (cases r)
    case (Inl e)
    then show ?thesis using True r keeps_listener(3) [OF inv, of "Suc ?t"]
      by (simp add: admit_def allocate_token_def checked_add_def returns_io_def)
  next
    case (Inr u)
    obtain s k where sk: "sched_insert (w_sched (wk_core w)) ?t = Some s" "btree_get (wk_live w) ?t = None"
      "register (wk_controls w) (ConnectionId (wk_instance w) ?t) = Some k" "worker_inv held sound (attached w s k ?t ?f ?x)"
      by (rule attached_inv [OF inv room])
    have eval: "admit ops io w a peer = Some (case bump USIZE_MAX (accepted (wk_summary w)) of
        Inl f \<Rightarrow> (attached w s k ?t ?f ?x, a', Inl f)
      | Inr m \<Rightarrow> ((attached w s k ?t ?f ?x)\<lparr>wk_summary := (wk_summary w)\<lparr>accepted := m\<rparr>\<rparr>, a', Inr ()))"
      using True r Inr sk(1,2,3)
      by (simp add: admit_def allocate_token_def checked_add_def attached_def Let_def split: sum.split)
    show ?thesis
    proof (cases "bump USIZE_MAX (accepted (wk_summary w))")
      case b: (Inl f)
      then show ?thesis using eval sk(4) bump_Inl [OF b]
        by (auto simp: returns_io_def same_setup_def attached_def intro!: keepsI)
    next
      case b: (Inr m)
      then have m: "m = Suc (accepted (wk_summary w))" by (auto simp: bump_def checked_add_def split: if_splits)
      have "worker_inv held sound ((attached w s k ?t ?f ?x)\<lparr>wk_summary := (wk_summary w)\<lparr>accepted := m\<rparr>\<rparr>)"
        using sk(4) inv_raw [OF inv] by (intro worker_inv_summary) (simp_all add: raw_balanced_def)
      then show ?thesis using eval b m length_btree_insert [OF sk(2)]
        by (auto simp: returns_io_def same_setup_def attached_def balanced_def intro!: keepsI)
    qed
  qed
qed

lemma accept_loop_returns:
  "worker_inv held sound w \<Longrightarrow> returns_io held sound w (accept_loop ops io n w a progressed)"
proof (induction n arbitrary: w a progressed)
  case 0
  then show ?case by (simp add: returns_io_def keeps_refl)
next
  case (Suc n)
  note inv = Suc.prems and raw = inv_raw [OF Suc.prems]
  have counted: "returns_io held sound w (case bump m c of Inl f \<Rightarrow> Some (w, b, Inl f)
      | Inr v \<Rightarrow> accept_loop ops io n (w\<lparr>wk_summary := g v\<rparr>) b pr)"
    if "\<And>v. keeps held sound w (w\<lparr>wk_summary := g v\<rparr>) None" for m c b g pr
  proof (cases "bump m c")
    case (Inl f)
    then show ?thesis using keeps_refl [OF inv] by (simp add: returns_io_def)
  next
    case (Inr v)
    show ?thesis using returns_io_from [OF that Suc.IH [OF keepsD [OF that]]] Inr by simp
  qed
  obtain b r where acc: "io_accept io a = (b, r)" by fastforce
  have "length (wk_live w) \<le> max_connections (wk_limits w)" using inv by (simp add: worker_inv_def Let_def)
  then consider (stop) "stop_cause w \<noteq> None"
    | (full) peer where "stop_cause w = None" "r = Inr peer" "length (wk_live w) = max_connections (wk_limits w)"
    | (room) peer where "stop_cause w = None" "r = Inr peer" "length (wk_live w) < max_connections (wk_limits w)"
    | (error) e where "stop_cause w = None" "r = Inl e"
    by (cases r; cases "stop_cause w"; cases "length (wk_live w) = max_connections (wk_limits w)") auto
  then show ?case
  proof cases
    case stop
    then show ?thesis by (simp add: returns_io_def keeps_refl inv)
  next
    case full
    then show ?thesis using acc counted [of "\<lambda>m. (wk_summary w)\<lparr>refused := m\<rparr>"] keeps_idle(2) [OF inv] raw
      by (simp add: raw_balanced_def)
  next
    case room
    obtain w' a' res where ad: "admit ops io w b peer = Some (w', a', res)" "keeps held sound w w' (failure_of res)"
      using admit_returns [OF inv room(3), of io b peer] unfolding returns_io_def by blast
    show ?thesis
    proof (cases res)
      case (Inl f)
      then show ?thesis using acc room ad by (simp add: returns_io_def)
    next
      case (Inr u)
      then have "keeps held sound w w' None" using ad(2) by simp
      from returns_io_from [OF this Suc.IH [OF keepsD [OF this]]] show ?thesis using acc room ad(1) Inr by simp
    qed
  next
    case error
    show ?thesis
    proof (cases "classify_accept e")
      case Drained
      then show ?thesis using acc error keeps_listener [OF inv] by (simp add: returns_io_def)
    next
      case Retry
      then show ?thesis using acc error counted [of "\<lambda>m. (wk_summary w)\<lparr>transient_accept_errors := m\<rparr>"] keeps_idle(2) [OF inv] raw
        by (simp add: raw_balanced_def)
    next
      case Pause
      then show ?thesis using acc error keeps_idle(1) [OF inv] raw keeps_refl [OF inv] bump_Inl
        by (auto simp: returns_io_def raw_balanced_def split: sum.split)
    next
      case Fatal
      then show ?thesis using acc error keeps_refl [OF inv] by (simp add: returns_io_def)
    qed
  qed
qed

lemma accept_ready_returns:
  assumes inv: "worker_inv held sound w"
  shows "returns_io held sound w (accept_ready ops io w a)"
proof (cases "\<not> listener_ready w \<or> accept_delay w (io_now io a) \<noteq> 0")
  case True
  then show ?thesis by (auto simp: accept_ready_def returns_io_def keeps_refl inv)
next
  case False
  let ?n = "min (turn_steps (wk_limits w)) EVENT_BATCH" and ?w = "w\<lparr>accept_paused_at := None\<rparr>"
  have k: "keeps held sound w ?w None" by (rule keeps_listener(2) [OF inv])
  obtain w' a' r where l: "accept_loop ops io ?n ?w a False = Some (w', a', r)" "keeps held sound ?w w' (failure_of r)"
    using accept_loop_returns [OF keepsD [OF k], of io ?n a False] unfolding returns_io_def by blast
  have k': "keeps held sound w w' (failure_of r)" using keeps_trans [OF k l(2)] .
  show ?thesis
  proof (cases "r = Inr (Some False)")
    case True
    have kw: "keeps held sound w w' None" using k' True by simp
    note inv' = keepsD [OF kw]
    show ?thesis
    proof (cases "bump U64_MAX (retry_quota_backoffs (wk_summary w'))")
      case (Inl f)
      then show ?thesis using False l(1) True keeps_trans [OF kw keeps_refl [OF inv']] by (simp add: accept_ready_def returns_io_def)
    next
      case (Inr m)
      have "keeps held sound w (w'\<lparr>wk_summary := (wk_summary w')\<lparr>retry_quota_backoffs := m\<rparr>, accept_paused_at := Some (io_now io a')\<rparr>) None"
        using inv_raw [OF inv'] by (intro keeps_trans [OF kw] keeps_idle(1) [OF inv']) (simp_all add: raw_balanced_def)
      then show ?thesis using False l(1) True Inr by (simp add: accept_ready_def returns_io_def)
    qed
  next
    case other: False
    show ?thesis using False l(1) k' other
      by (cases r) (auto simp: accept_ready_def returns_io_def split: option.splits)
  qed
qed

end

section \<open>Turns\<close>

lemma keeps_core:
  assumes "worker_inv held good w" "sched_step (wk_core w) c"
  shows "keeps held good w (w\<lparr>wk_core := c\<rparr>) f"
  using assms
  by (auto simp: worker_inv_def live_tokens_def worker_charges_def same_setup_def balanced_def sched_step_def core_step_def Let_def
      intro!: keepsI)

lemma inv_ready: "worker_inv held good w \<Longrightarrow> ready_ok (ready (w_sched (wk_core w)))"
  by (simp add: worker_inv_def Let_def)

lemma sched_step_signals: "ready_ok (ready (w_sched c)) \<Longrightarrow> sched_step c (with_signals c g)"
  by (simp add: sched_step_def core_step_def with_signals_def)

lemma sched_step_sched:
  assumes "ready_ok (ready s)" "dom (states (ready s)) = dom (states (ready (w_sched c)))"
    "ready_capacity (ready s) = ready_capacity (ready (w_sched c))"
  shows "sched_step c (c\<lparr>w_sched := s\<rparr>)"
  using core_step_sched [OF assms] by (simp add: sched_step_def)

lemma length_btree_update: "btree_ok m \<Longrightarrow> btree_get m k \<noteq> None \<Longrightarrow> length (btree_insert m k v) = length m"
  using card_btree_keys [of m] card_btree_keys [OF btree_insert_ok [of m k v]]
  by (simp add: btree_get_None_iff insert_absorb)

lemma inv_entry_updated:
  assumes inv: "worker_inv held good w" and t: "btree_get (wk_live w) t = Some e0" and c: "core_step (wk_core w) c"
    and own: "owns (w_mem c) (held (future e) + queued_charges (w_hand c) +
        (btree_sum (held \<circ> future) (btree_remove (wk_live w) t) + mset (wk_outside w)))"
    and e: "entry_ok good' (wk_instance w) t e"
    and good': "\<And>f x. good f x \<Longrightarrow> good' f x"
  shows "worker_inv held good' (w\<lparr>wk_core := c, wk_live := btree_insert (wk_live w) t e\<rparr>)"
proof -
  note i = inv [unfolded worker_inv_def Let_def]
  have ok: "btree_ok (wk_live w)" using i by blast
  have live: "t \<in> live_tokens w" using t btree_get_None_iff [of "wk_live w" t] by (auto simp: live_tokens_def)
  have "entry_ok good' (wk_instance w) u e'" if "btree_get (wk_live w) u = Some e'" for u e'
    using i that good' by (auto simp: entry_ok_def)
  then show ?thesis
    using i live c e own length_btree_update [OF ok, of t e] t btree_sum_update [OF ok t, of "held \<circ> future" e]
    by (auto simp: worker_inv_def live_tokens_def worker_charges_def core_step_def Let_def btree_insert_ok btree_get_insert insert_absorb ac_simps)
qed

lemma take_step:
  assumes inv: "worker_inv held good w"
  obtains (none) s where "sched_take (w_sched (wk_core w)) = Some (s, None)" "sched_step (wk_core w) ((wk_core w)\<lparr>w_sched := s\<rparr>)"
  | (some) s t where "sched_take (w_sched (wk_core w)) = Some (s, Some t)" "sched_step (wk_core w) ((wk_core w)\<lparr>w_sched := s\<rparr>)"
      "t \<in> live_tokens w" "polled s t"
proof -
  let ?r = "ready (w_sched (wk_core w))"
  obtain qs ws bs where ri: "ready_inv ?r qs ws bs" using inv_ready [OF inv] by (auto simp: ready_ok_def)
  show thesis
  proof (cases qs)
    case Nil
    then show ?thesis using take_inv(1) [OF ri] inv_ready [OF inv] by (intro none) (auto simp: sched_step_def core_step_def)
  next
    case (Cons t ts)
    have "runnable (states ?r t)" using ri Cons by (auto simp: ready_inv_def ready_core_def)
    then have "t \<in> dom (states ?r)" by (auto simp: runnable_def)
    moreover have "dom (states ?r) = live_tokens w" using inv by (simp add: worker_inv_def Let_def)
    moreover let ?s = "(w_sched (wk_core w))\<lparr>ready := ?r\<lparr>queue := order_of ts, states := (states ?r)(t \<mapsto> Running)\<rparr>\<rparr>"
    have "sched_step (wk_core w) ((wk_core w)\<lparr>w_sched := ?s\<rparr>)"
      using take_inv(2) [OF ri Cons] calculation(1)
      by (simp add: sched_step_def core_step_def ready_ok_def insert_absorb) blast
    moreover have "sched_take (w_sched (wk_core w)) = Some (?s, Some t)" using take_inv(1) [OF ri] Cons by simp
    ultimately show ?thesis by (intro some [of ?s t]) (simp_all add: polled_def)
  qed
qed

context connection_tasks
begin

lemma polled_entry:
  assumes inv: "worker_inv held sound w" and e: "btree_get (wk_live w) t = Some e" and turn: "polled (w_sched (wk_core w)) t"
  obtains c f x p where
    "poll_task ops wr (wk_core w) (future e) (reset_turn (entry_context e) n) = Some (c, f, x, p)"
    "worker_inv held (\<lambda>f x. tc_token x \<noteq> t \<or> p = Pending \<longrightarrow> sound f x)
      (w\<lparr>wk_core := c, wk_live := btree_insert (wk_live w) t \<lparr>future = f, entry_context = x\<rparr>\<rparr>)"
    "p = Pending \<longrightarrow> states (ready (w_sched c)) t \<noteq> Some Running" "tc_token x = t"
proof -
  note i = inv [unfolded worker_inv_def Let_def]
  have eok: "entry_ok sound (wk_instance w) t e" using i e by blast
  let ?Z = "btree_sum (held \<circ> future) (btree_remove (wk_live w) t) + mset (wk_outside w)"
  have "sound (future e) (entry_context e)" "ready_ok (ready (w_sched (wk_core w)))"
    "polled (w_sched (wk_core w)) (tc_token (entry_context e))" "progress_ok (tc_progress (entry_context e))"
    using eok turn i by (simp_all add: entry_ok_def)
  moreover have "owns (w_mem (wk_core w)) (held (future e) + queued_charges (w_hand (wk_core w)) + ?Z)"
    using i btree_sum_remove [OF e, of "held \<circ> future"] by (simp add: worker_charges_def ac_simps)
  ultimately obtain c f x p where poll: "poll_task ops wr (wk_core w) (future e) (reset_turn (entry_context e) n) = Some (c, f, x, p)"
    "core_step (wk_core w) c" "owns (w_mem c) (held f + queued_charges (w_hand c) + ?Z)" "tc_token x = tc_token (entry_context e)"
    "tc_id x = tc_id (entry_context e)" "progress_ok (tc_progress x)"
    "p = Pending \<longrightarrow> sound f x \<and> states (ready (w_sched c)) (tc_token (entry_context e)) \<noteq> Some Running"
    using poll_law [of "future e" "entry_context e" "wk_core w" ?Z wr n] by blast
  have "entry_ok (\<lambda>f x. tc_token x \<noteq> t \<or> p = Pending \<longrightarrow> sound f x) (wk_instance w) t \<lparr>future = f, entry_context = x\<rparr>"
    using eok poll(4-7) by (auto simp: entry_ok_def)
  from inv_entry_updated [OF inv e poll(2) _ this] show thesis
    using that [OF poll(1)] poll(3,4,7) eok by (auto simp: entry_ok_def)
qed

lemma run_ready_loop_returns:
  "worker_inv held sound w \<Longrightarrow> returns held sound w (run_ready_loop ops wr n w)"
proof (induction n arbitrary: w)
  case 0
  then show ?case by (simp add: returns_def keeps_refl)
next
  case (Suc n)
  note inv = Suc.prems
  have again: "returns held sound w (run_ready_loop ops wr n w')" if "keeps held sound w w' None" for w'
    using Suc.IH [OF keepsD [OF that]] that unfolding returns_def by (blast intro: keeps_trans)
  show ?case
  proof (cases "stop_cause w = None")
    case False
    then show ?thesis by (simp add: returns_def keeps_refl inv)
  next
    case go: True
    from take_step [OF inv] show ?thesis
    proof cases
      case (1 s)
      then show ?thesis using go keeps_core [OF inv] by (simp add: returns_def)
    next
      case (2 s t)
      let ?w = "w\<lparr>wk_core := (wk_core w)\<lparr>w_sched := s\<rparr>\<rparr>"
      have kw: "keeps held sound w ?w None" by (rule keeps_core [OF inv 2(2)])
      obtain e where e: "btree_get (wk_live ?w) t = Some e"
        using 2(3) btree_get_None_iff [of "wk_live w" t] by (cases "btree_get (wk_live w) t") (auto simp: live_tokens_def)
      obtain c f x p where poll: "poll_task ops wr (wk_core ?w) (future e) (reset_turn (entry_context e) (turn_steps (wk_limits w))) = Some (c, f, x, p)"
        "worker_inv held (\<lambda>f x. tc_token x \<noteq> t \<or> p = Pending \<longrightarrow> sound f x)
          (?w\<lparr>wk_core := c, wk_live := btree_insert (wk_live ?w) t \<lparr>future = f, entry_context = x\<rparr>\<rparr>)"
        "p = Pending \<longrightarrow> states (ready (w_sched c)) t \<noteq> Some Running" "tc_token x = t"
        by (rule polled_entry [OF keepsD [OF kw] e]) (use 2(4) in auto)
      let ?w2 = "?w\<lparr>wk_core := c, wk_live := btree_insert (wk_live ?w) t \<lparr>future = f, entry_context = x\<rparr>\<rparr>"
      have "length (wk_live ?w2) = length (wk_live w)"
        using length_btree_update [OF worker_inv_btree [OF inv], of t] e by simp
      then have same: "same_setup w ?w2" "balanced w \<longrightarrow> balanced ?w2" by (simp_all add: same_setup_def balanced_def)
      have t2: "t \<in> live_tokens ?w2" by (simp add: live_tokens_def)
      have eval: "run_ready_loop ops wr (Suc n) w =
          (if counter_overflow (tc_progress x) then Some (?w2, Inl CounterExhausted)
           else case p of
             ReadyWith _ \<Rightarrow> (retire_task ops wr ?w2 t \<bind>
               (\<lambda>(w, r). case r of Inl f \<Rightarrow> Some (w, Inl f) | Inr _ \<Rightarrow> run_ready_loop ops wr n w))
           | Pending \<Rightarrow> run_ready_loop ops wr n ?w2)"
        using go 2(1) e poll(1,3) by (auto simp: verify_pending_def split: poll.split)
      show ?thesis
      proof (cases "counter_overflow (tc_progress x)")
        case True
        have "worker_inv held (\<lambda>_ _. True) ?w2" by (rule worker_inv_mono [OF poll(2)]) simp
        then show ?thesis using eval same True by (simp add: returns_def keeps_def)
      next
        case False
        show ?thesis
        proof (cases p)
          case Pending
          then have "keeps held sound w ?w2 None" using poll(2) same by (intro keepsI) simp_all
          from again [OF this] show ?thesis using eval False Pending by simp
        next
          case (ReadyWith u)
          obtain w3 r where r: "retire_with ops wr ?w2 t ConnectionEnded = Some (w3, r)" "r = Inr () \<or> r = Inl CounterExhausted"
            "worker_inv held (\<lambda>f x. tc_token x \<noteq> t \<or> p = Pending \<longrightarrow> sound f x) w3" "same_setup ?w2 w3"
            "r = Inr () \<longrightarrow> balanced ?w2 \<longrightarrow> balanced w3" "wk_live w3 = btree_remove (wk_live ?w2) t"
            by (rule retire_with_keeps [OF poll(2) t2, of wr ConnectionEnded])
          have "btree_get (wk_live w3) t = None"
            using r(6) btree_get_remove [OF worker_inv_btree [OF poll(2)], of t t] by simp
          then have "worker_inv held sound w3" by (intro worker_inv_mono [OF r(3)]) auto
          then have k3: "keeps held sound w w3 (failure_of r)"
            using r(2,4,5) same by (intro keepsI) (auto intro: same_setup_trans)
          have "returns held sound w (run_ready_loop ops wr n w3)" if "r = Inr ()"
            using again [of w3] k3 that by simp
          then show ?thesis using eval False ReadyWith r(1,2) k3 by (auto simp: retire_task_def returns_def)
        qed
      qed
    qed
  qed
qed

end

lemma dispatch_events_keeps:
  "worker_inv held good w \<Longrightarrow> \<exists>w'. dispatch_events w ts = Some w' \<and> keeps held good w w' None"
proof (induction ts arbitrary: w)
  case Nil
  then show ?case by (simp add: keeps_refl)
next
  case (Cons t ts)
  have again: "\<exists>w'. dispatch_events w1 ts = Some w' \<and> keeps held good w w' None" if "keeps held good w w1 None" for w1
    using Cons.IH [OF keepsD [OF that]] that by (blast intro: keeps_trans)
  let ?s = "w_sched (wk_core w)"
  obtain qs ws bs where ri: "ready_inv (ready ?s) qs ws bs" using inv_ready [OF Cons.prems] by (auto simp: ready_ok_def)
  note enq = enqueue_inv [OF ri, of t]
  obtain s where s: "io_ready ?s t = Some s" "sched_step (wk_core w) ((wk_core w)\<lparr>w_sched := s\<rparr>)"
  proof (cases "states (ready ?s) t = Some (Waiting Kernel)")
    case True
    then show ?thesis using that [of "?s\<lparr>ready := enqueued (ready ?s) qs t\<rparr>"] enq
      by (auto simp: io_ready_def sched_step_def core_step_def ready_ok_def)
  next
    case False
    then show ?thesis using that [of ?s] core_step_refl [OF inv_ready [OF Cons.prems]] by (simp add: io_ready_def sched_step_def)
  qed
  show ?case
    using again [OF keeps_listener(1) [OF Cons.prems]] again [OF keeps_core [OF Cons.prems s(2)]] again [OF keeps_refl [OF Cons.prems]]
      s(1) by auto
qed

lemma resume_keeps:
  assumes inv: "worker_inv held good w" and k: "k \<noteq> Kernel"
  shows "\<exists>w'. resume w tk k = Some w' \<and> keeps held good w w' None"
proof -
  obtain g b where g: "tk (wk_signals w) = (g, b)" by fastforce
  let ?w = "w\<lparr>wk_core := with_signals (wk_core w) g\<rparr>"
  have kw: "keeps held good w ?w None" by (rule keeps_core [OF inv sched_step_signals [OF inv_ready [OF inv]]])
  let ?s = "w_sched (wk_core ?w)"
  obtain qs ws bs where ri: "ready_inv (ready ?s) qs ws bs"
    using inv_ready [OF keepsD [OF kw]] by (auto simp: ready_ok_def)
  obtain r' qs' b' where r': "resume_head (ready ?s) k = Some (r', b')" "ready_inv r' qs' ws bs" "woken_from (ready ?s) r'"
    by (rule resume_head_inv [OF ri k])
  have "sched_step (wk_core ?w) ((wk_core ?w)\<lparr>w_sched := ?s\<lparr>ready := r'\<rparr>\<rparr>)"
    using r' resume_head_capacity [OF r'(1)] by (intro sched_step_sched) (auto simp: ready_ok_def woken_from_def)
  then have "keeps held good w (?w\<lparr>wk_core := (wk_core ?w)\<lparr>w_sched := ?s\<lparr>ready := r'\<rparr>\<rparr>\<rparr>) None"
    by (rule keeps_trans [OF kw keeps_core [OF keepsD [OF kw]]])
  then show ?thesis using kw g r'(1) by (cases b) (simp_all add: resume_def on_signals_def resume_credit_def)
qed

text \<open>What other threads do keeps the storage of the futures, \<open>Z\<close>, and moves the rest as its owners do.\<close>

definition shared_ok :: "Charge multiset \<Rightarrow> shared \<Rightarrow> bool" where
  "shared_ok Z sh = (case sh of (c, k, xs) \<Rightarrow> ready_ok (ready (w_sched c)) \<and> controls_ok k \<and>
     owns (w_mem c) (queued_charges (w_hand c) + mset xs + Z))"

definition shared_step :: "Charge multiset \<Rightarrow> shared \<Rightarrow> shared \<Rightarrow> bool" where
  "shared_step Z sh sh' \<longleftrightarrow> shared_ok Z sh' \<and> core_step (fst sh) (fst sh') \<and> cell_of (fst (snd sh')) = cell_of (fst (snd sh))"

lemma raise_wakes_simps [simp]:
  "w_mem (raise_wakes wr c ks) = w_mem c" "w_hand (raise_wakes wr c ks) = w_hand c"
  "ready (w_sched (raise_wakes wr c ks)) = ready (w_sched c)"
  by (simp_all add: raise_wakes_def with_signals_def)

lemma queued_charges_concat: "mset (concat (map (kind_charges \<circ> rec_kind) rs)) = sum_list (map record_charges rs)"
  by (induction rs) (simp_all add: record_charges_def)

lemma try_recv_queue:
  "try_recv h = (h', r, ks) \<Longrightarrow> chan_senders h' = chan_senders h \<and>
    queued_charges h = (case r of Inl _ \<Rightarrow> {#} | Inr x \<Rightarrow> record_charges x) + queued_charges h'"
  by (auto simp: try_recv_def queued_charges_def split: list.splits)

lemma ext_receive:
  assumes "shared_ok Z (c, k, xs)"
  shows "shared_step Z (c, k, xs) (external_exec wr ExtReceive (c, k, xs))"
proof -
  obtain h r ks where r: "try_recv (w_hand c) = (h, r, ks)" by (cases "try_recv (w_hand c)")
  show ?thesis using assms try_recv_queue [OF r] r
    by (cases r) (auto simp: shared_step_def shared_ok_def core_step_def record_charges_def ac_simps)
qed

lemma ext_copy:
  assumes "shared_ok Z (c, k, xs)"
  shows "shared_step Z (c, k, xs) (external_exec wr (ExtCopy bs) (c, k, xs))"
proof (cases "try_copy (w_mem c) bs")
  case (Some mr)
  obtain m r where mr: "mr = (m, r)" by fastforce
  show ?thesis
  proof (cases r)
    case (Inr got)
    have "owns m (add_mset (charge got) (queued_charges (w_hand c) + mset xs + Z))"
      using assms Some mr Inr by (intro owns_copy(1)) (auto simp: shared_ok_def try_copy_def)
    then show ?thesis using assms Some mr Inr by (simp add: shared_step_def shared_ok_def core_step_def)
  qed (use assms Some mr in \<open>simp add: shared_step_def shared_ok_def core_step_refl\<close>)
qed (use assms in \<open>simp add: shared_step_def shared_ok_def core_step_refl\<close>)

lemma mset_remove_nth: "n < length xs \<Longrightarrow> mset xs = add_mset (xs ! n) (mset (take n xs @ drop (Suc n) xs))"
  by (metis id_take_nth_drop mset.simps(2) mset_append union_mset_add_mset_right)

lemma ext_release:
  assumes "shared_ok Z (c, k, xs)"
  shows "shared_step Z (c, k, xs) (external_exec wr (ExtRelease n) (c, k, xs))"
proof (cases "n < length xs")
  case True
  let ?ys = "take n xs @ drop (Suc n) xs"
  have "owns (w_mem c) (mset [xs ! n] + (queued_charges (w_hand c) + mset ?ys + Z))"
    using assms mset_remove_nth [OF True] by (simp add: shared_ok_def ac_simps)
  from drop_charges_law [OF this, of wr] show ?thesis
    using True assms by (auto simp: shared_step_def shared_ok_def core_step_def ac_simps simp del: drop_charges.simps)
qed (use assms in \<open>simp add: shared_step_def shared_ok_def core_step_refl\<close>)

lemma ext_disconnect:
  assumes "shared_ok Z (c, k, xs)"
  shows "shared_step Z (c, k, xs) (external_exec wr ExtDisconnect (c, k, xs))"
proof -
  let ?c = "c\<lparr>w_hand := (w_hand c)\<lparr>chan_queue := [], chan_receiver := False\<rparr>\<rparr>"
  have empty: "queued_charges (w_hand ?c) = {#}" by (simp add: queued_charges_def)
  have "owns (w_mem ?c) (mset (concat (map (kind_charges \<circ> rec_kind) (chan_queue (w_hand c)))) + (mset xs + Z))"
    using assms by (simp add: shared_ok_def queued_charges_concat queued_charges_def ac_simps)
  from drop_charges_law [OF this, of wr] show ?thesis
    using assms empty by (auto simp: shared_step_def shared_ok_def core_step_def drop_records_def)
qed

lemma external_exec_keeps: "shared_ok Z sh \<Longrightarrow> shared_step Z sh (external_exec wr x sh)"
proof (cases sh)
  case (fields c k xs)
  assume ok: "shared_ok Z sh"
  show ?thesis
  proof (cases x)
    case ExtStop
    then show ?thesis using ok fields by (simp add: shared_step_def shared_ok_def core_step_def with_signals_def)
  next
    case (ExtClose i)
    obtain g k1 r where cl: "close wr (signals (w_sched c)) k i = (g, k1, r)" by (cases "close wr (signals (w_sched c)) k i") auto
    then show ?thesis using ok fields ExtClose close_fields [OF cl] close_ok [OF _ cl]
      by (auto simp: shared_step_def shared_ok_def core_step_def with_signals_def)
  qed (use ok fields ext_receive [of Z c k xs wr] ext_copy [of Z c k xs wr] ext_release [of Z c k xs wr] ext_disconnect [of Z c k xs wr] in
      \<open>simp_all del: external_exec.simps\<close>)
qed

lemma shared_step_trans: "shared_step Z a b \<Longrightarrow> shared_step Z b c \<Longrightarrow> shared_step Z a c"
  by (auto simp: shared_step_def intro: core_step_trans)

lemma externals_keep: "shared_ok Z sh \<Longrightarrow> shared_step Z sh (fold (external_exec wr) xs sh)"
proof (induction xs arbitrary: sh)
  case Nil
  then show ?case by (cases sh) (simp add: shared_step_def shared_ok_def core_step_refl)
next
  case (Cons x xs)
  note s = external_exec_keeps [OF Cons.prems, of wr x]
  then show ?case using Cons.IH [of "external_exec wr x sh"] by (auto simp: shared_step_def intro: shared_step_trans core_step_trans)
qed

lemma keeps_externals:
  assumes "worker_inv held good w"
    "fold (external_exec wr) xs (wk_core w, wk_controls w, wk_outside w) = (c, k, ys)"
  shows "keeps held good w (w\<lparr>wk_core := c, wk_controls := k, wk_outside := ys\<rparr>) f"
proof -
  let ?Z = "btree_sum (held \<circ> future) (wk_live w)"
  have "shared_ok ?Z (wk_core w, wk_controls w, wk_outside w)"
    using assms(1) by (simp add: shared_ok_def worker_inv_def worker_charges_def Let_def ac_simps)
  from externals_keep [OF this, of wr xs] have "core_step (wk_core w) c" "controls_ok k" "cell_of k = cell_of (wk_controls w)"
    "owns (w_mem c) (queued_charges (w_hand c) + mset ys + ?Z)"
    unfolding assms(2) by (simp_all add: shared_step_def shared_ok_def)
  then show ?thesis using assms(1)
    by (intro keepsI)
       (auto simp: worker_inv_def live_tokens_def worker_charges_def same_setup_def balanced_def core_step_def Let_def ac_simps)
qed

definition turn_ok ::
  "('f \<Rightarrow> Charge multiset) \<Rightarrow> ('f \<Rightarrow> TaskContext \<Rightarrow> bool) \<Rightarrow> 'f Worker \<Rightarrow> ('f Worker \<times> 'a \<times> (ReceiverFailure + StopCause) option) run \<Rightarrow> bool" where
  "turn_ok held good w m \<longleftrightarrow> (\<exists>w' a o'. m = Some (w', a, o') \<and>
     keeps held good w w' (case o' of None \<Rightarrow> None | Some r \<Rightarrow> failure_of r))"

lemma turn_ok_from: "keeps held good w w1 None \<Longrightarrow> turn_ok held good w1 m \<Longrightarrow> turn_ok held good w m"
  unfolding turn_ok_def by (blast intro: keeps_trans)

lemma turn_ok_then:
  assumes "returns held good w m" "\<And>w'. keeps held good w w' None \<Longrightarrow> turn_ok held good w' (k w')"
  shows "turn_ok held good w (m \<bind> (\<lambda>(w', r). case r of Inl f \<Rightarrow> Some (w', a, Some (Inl f)) | Inr _ \<Rightarrow> k w'))"
proof -
  obtain w' r where m: "m = Some (w', r)" "keeps held good w w' (failure_of r)" using assms(1) by (auto simp: returns_def)
  show ?thesis
  proof (cases r)
    case (Inl f)
    then show ?thesis using m by (simp add: turn_ok_def)
  next
    case (Inr x)
    then have "keeps held good w w' None" using m by simp
    with assms(2) [OF this] m Inr show ?thesis using turn_ok_from by auto
  qed
qed

context connection_tasks
begin

lemma retire_on_control_returns:
  assumes inv: "worker_inv held sound w"
  shows "returns held sound w (retire_on_control ops wr w)"
proof -
  let ?w = "w\<lparr>wk_core := with_signals (wk_core w) (fst (take_control (wk_signals w)))\<rparr>"
  have kw: "keeps held sound w ?w None" by (rule keeps_core [OF inv sched_step_signals [OF inv_ready [OF inv]]])
  have "returns held sound w (retire_requested ops wr ?w)"
    using retire_requested_returns [OF keepsD [OF kw]] kw unfolding returns_def by (blast intro: keeps_trans)
  then show ?thesis using kw by (auto simp: retire_on_control_def on_signals_def returns_def split_beta)
qed

lemma drive_wait_ok:
  assumes inv: "worker_inv held sound w"
  shows "turn_ok held sound w (drive_wait ops io w a)"
proof -
  obtain w1 a1 r where ac: "accept_ready ops io w a = Some (w1, a1, r)" "keeps held sound w w1 (failure_of r)"
    using accept_ready_returns [OF inv, of io a] unfolding returns_io_def by blast
  show ?thesis
  proof (cases r)
    case (Inl f)
    then show ?thesis using ac by (simp add: drive_wait_def turn_ok_def)
  next
    case (Inr u)
    then have k1: "keeps held sound w w1 None" using ac(2) by simp
    note inv1 = keepsD [OF k1]
    obtain a2 xs res where po: "io_poll io a1 (poll_timeout w1 (io_now io a1)) = (a2, xs, res)"
      by (cases "io_poll io a1 (poll_timeout w1 (io_now io a1))") auto
    obtain c k ys where ck: "fold (external_exec (io_wake io a2)) xs (wk_core w1, wk_controls w1, wk_outside w1) = (c, k, ys)"
      by (cases "fold (external_exec (io_wake io a2)) xs (wk_core w1, wk_controls w1, wk_outside w1)") auto
    let ?w = "w1\<lparr>wk_core := c, wk_controls := k, wk_outside := ys\<rparr>"
    have k2: "keeps held sound w ?w f" for f by (rule keeps_trans [OF k1 keeps_externals [OF inv1 ck]])
    show ?thesis
    proof (cases res)
      case res: (Inr ts)
      obtain w3 where "dispatch_events ?w ts = Some w3" "keeps held sound ?w w3 None"
        using dispatch_events_keeps [OF keepsD [OF k2]] by blast
      then show ?thesis using ac(1) Inr po ck res k2 by (auto simp: drive_wait_def turn_ok_def intro: keeps_trans)
    next
      case res: (Inl e)
      then show ?thesis using ac(1) Inr po ck k2 by (simp add: drive_wait_def turn_ok_def)
    qed
  qed
qed

lemma drive_turn_ok:
  assumes inv: "worker_inv held sound w"
  shows "turn_ok held sound w (drive_turn ops io w a)"
proof -
  obtain g f where gf: "take_failure (io_kind_of io) (wk_signals w) = (g, f)" by fastforce
  let ?w = "w\<lparr>wk_core := with_signals (wk_core w) g\<rparr>" and ?wr = "io_wake io a"
  have kw: "keeps held sound w ?w f'" for f' by (rule keeps_core [OF inv sched_step_signals [OF inv_ready [OF inv]]])
  have tail: "turn_ok held sound w' (case stop_cause w' of Some cause \<Rightarrow> Some (w', a, Some (Inr cause)) | None \<Rightarrow> drive_wait ops io w' a)"
    if "worker_inv held sound w'" for w'
    using drive_wait_ok [OF that, of io a] keeps_refl [OF that] by (cases "stop_cause w'") (simp_all add: turn_ok_def)
  have after_control: "turn_ok held sound w1 (do {
      w \<leftarrow> resume w1 take_queue_credit Queue;
      w \<leftarrow> resume w take_byte_credit Bytes;
      (w, r) \<leftarrow> run_ready ops ?wr w;
      (case r of Inl f \<Rightarrow> Some (w, a, Some (Inl f)) | Inr _ \<Rightarrow> do {
         (w, r) \<leftarrow> retire_requested ops ?wr w;
         (case r of Inl f \<Rightarrow> Some (w, a, Some (Inl f)) | Inr _ \<Rightarrow>
          (case stop_cause w of Some cause \<Rightarrow> Some (w, a, Some (Inr cause)) | None \<Rightarrow> drive_wait ops io w a))
       })
    })" if w1: "worker_inv held sound w1" for w1
  proof -
    obtain w2 where w2: "resume w1 take_queue_credit Queue = Some w2" "keeps held sound w1 w2 None"
      using resume_keeps [OF w1, of Queue take_queue_credit] by auto
    obtain w3 where w3: "resume w2 take_byte_credit Bytes = Some w3" "keeps held sound w2 w3 None"
      using resume_keeps [OF keepsD [OF w2(2)], of Bytes take_byte_credit] by auto
    have "turn_ok held sound w3 (run_ready ops ?wr w3 \<bind> (\<lambda>(w, r). case r of Inl f \<Rightarrow> Some (w, a, Some (Inl f)) | Inr _ \<Rightarrow> do {
         (w, r) \<leftarrow> retire_requested ops ?wr w;
         (case r of Inl f \<Rightarrow> Some (w, a, Some (Inl f)) | Inr _ \<Rightarrow>
          (case stop_cause w of Some cause \<Rightarrow> Some (w, a, Some (Inr cause)) | None \<Rightarrow> drive_wait ops io w a))
       }))"
      unfolding run_ready_def
      by (intro turn_ok_then run_ready_loop_returns retire_requested_returns tail)
         (use w3 in \<open>auto dest: keepsD\<close>)
    then show ?thesis using w2 w3 by (auto intro: turn_ok_from keeps_trans)
  qed
  show ?thesis
  proof (cases "f = None \<and> stop_cause ?w = None")
    case False
    then show ?thesis using gf kw
      by (cases f) (auto simp: drive_turn_def on_signals_def turn_ok_def Let_def)
  next
    case True
    have "turn_ok held sound ?w (retire_requested ops ?wr ?w \<bind> (\<lambda>(w, r). case r of Inl f \<Rightarrow> Some (w, a, Some (Inl f)) | Inr _ \<Rightarrow> do {
        (w, r) \<leftarrow> retire_on_control ops ?wr w;
        (case r of Inl f \<Rightarrow> Some (w, a, Some (Inl f)) | Inr _ \<Rightarrow> do {
          w \<leftarrow> resume w take_queue_credit Queue;
          w \<leftarrow> resume w take_byte_credit Bytes;
          (w, r) \<leftarrow> run_ready ops ?wr w;
          (case r of Inl f \<Rightarrow> Some (w, a, Some (Inl f)) | Inr _ \<Rightarrow> do {
             (w, r) \<leftarrow> retire_requested ops ?wr w;
             (case r of Inl f \<Rightarrow> Some (w, a, Some (Inl f)) | Inr _ \<Rightarrow>
              (case stop_cause w of Some cause \<Rightarrow> Some (w, a, Some (Inr cause)) | None \<Rightarrow> drive_wait ops io w a))
           })
        })
      }))"
      by (intro turn_ok_then retire_requested_returns retire_on_control_returns after_control)
         (use kw in \<open>auto dest: keepsD\<close>)
    then show ?thesis using True gf turn_ok_from [OF kw]
      by (simp add: drive_turn_def on_signals_def Let_def)
  qed
qed

text \<open>Whatever the operating system and the other threads do, a loop that ends has ended well.\<close>

lemma drive_ok:
  assumes inv: "worker_inv held sound w" and run: "drive ops io w a = Some y"
  shows "\<exists>w' a' r. y = Some (w', a', r) \<and> keeps held sound w w' (failure_of r)"
proof -
  let ?P = "\<lambda>os io w a y. os = ops \<longrightarrow> worker_inv held sound w \<longrightarrow>
    (\<exists>w' a' r. y = Some (w', a', r) \<and> keeps held sound w w' (failure_of r))"
  have "?P ops io w a y"
  proof (rule drive.raw_induct [where P = ?P, OF _ run], intro impI)
    fix dr os io w a y
    assume IH: "\<And>os io w a y. dr os io w a = Some y \<Longrightarrow> ?P os io w a y" and ok: "os = ops" "worker_inv held sound w"
      and body: "(case drive_turn os io w a of None \<Rightarrow> Some None | Some (w', a', None) \<Rightarrow> dr os io w' a'
          | Some (w', a', Some res) \<Rightarrow> Some (Some (w', a', res))) = Some y"
    obtain w1 a1 o' where t: "drive_turn ops io w a = Some (w1, a1, o')" "keeps held sound w w1 (case o' of None \<Rightarrow> None | Some r \<Rightarrow> failure_of r)"
      using drive_turn_ok [OF ok(2), of io a] unfolding turn_ok_def by blast
    show "\<exists>w' a' r. y = Some (w', a', r) \<and> keeps held sound w w' (failure_of r)"
    proof (cases o')
      case None
      then have "dr ops io w1 a1 = Some y" "keeps held sound w w1 None" using body t ok(1) by simp_all
      with IH [of ops io w1 a1 y] show ?thesis by (blast intro: keeps_trans dest: keepsD)
    next
      case (Some r)
      then show ?thesis using body t ok(1) by auto
    qed
  qed
  then show ?thesis using inv by blast
qed

end

end
