(* ===== verification/Connection_Future.thy ===== *)
theory Connection_Future
  imports Connection_Stream Task_Polls
begin

text \<open>
  The future of one connection (\<open>crates/phonowire-receiver/src/connection.rs\<close>), as the worker
  polls it: the asynchronous function suspended at one of its awaits, with the locals that live
  across it.  \<open>poll_conn\<close> resumes it at that await and runs until an operation is pending or the
  function returns; every completed await uses a step of the turn, so a poll ends.

  What \<open>read\<close> finds in a socket and what the clock shows are the parameter \<open>conn_source\<close>: the
  results of the successive calls of one connection.  A read copies at most as many bytes as the
  buffer holds.
\<close>

section \<open>State\<close>

record conn_source =
  cs_read :: "ConnectionId \<Rightarrow> nat \<Rightarrow> io_error + bytes"
  cs_clock :: "ConnectionId \<Rightarrow> nat \<Rightarrow> instant"

text \<open>Where the function goes on after a \<open>send\<close>: only \<open>ThenLoop\<close> looks at the session again.\<close>

datatype after_send = ThenRead | ThenReturn | ThenDecode bytes | ThenLoop bytes

datatype after_copy =
    CopyWire nat instant
  | CopyAudio nat instant Uuid SampleRate bytes
  | CopyPeerError nat instant "Uuid option" bytes

datatype await =
    Unpolled
  | Sending bool Record after_send
  | Reading
  | Copying bool bytes after_copy
  | Stepping bytes
  | Typing nat RawEnvelope bytes
  | Returned

record conn_future =
  cf_decoder :: Framer
  cf_session :: IncomingSession
  cf_reads :: nat
  cf_ticks :: nat
  cf_await :: await

definition start_conn :: "nat \<Rightarrow> IncomingProfile \<Rightarrow> TaskContext \<Rightarrow> conn_future" where
  "start_conn pc prof x =
     \<lparr>cf_decoder = RawDecoder_new (replicate pc 0), cf_session = with_profile prof, cf_reads = 0, cf_ticks = 0,
      cf_await = Unpolled\<rparr>"

section \<open>Between two awaits\<close>

definition fut_now :: "conn_source \<Rightarrow> conn_future \<Rightarrow> TaskContext \<Rightarrow> instant \<times> conn_future" where
  "fut_now src f x = (cs_clock src (tc_id x) (cf_ticks f), f\<lparr>cf_ticks := cf_ticks f + 1\<rparr>)"

definition fut_send_at ::
  "conn_future \<Rightarrow> TaskContext \<Rightarrow> nat \<Rightarrow> instant \<Rightarrow> RecordKind \<Rightarrow> after_send \<Rightarrow> conn_future \<times> TaskContext" where
  "fut_send_at f x offset at kind k =
     (f\<lparr>cf_await := Sending False \<lparr>connection = tc_id x, rec_offset = WireOffset offset, observed_at = at, rec_kind = kind\<rparr> k\<rparr>,
      send_start x)"

definition fut_send ::
  "conn_source \<Rightarrow> conn_future \<Rightarrow> TaskContext \<Rightarrow> nat \<Rightarrow> RecordKind \<Rightarrow> after_send \<Rightarrow> conn_future \<times> TaskContext" where
  "fut_send src f x offset kind k = (case fut_now src f x of (at, f) \<Rightarrow> fut_send_at f x offset at kind k)"

definition fut_end ::
  "conn_source \<Rightarrow> conn_future \<Rightarrow> TaskContext \<Rightarrow> nat \<Rightarrow> Uuid option \<Rightarrow> EndReason \<Rightarrow> conn_future \<times> TaskContext" where
  "fut_end src f x offset uuid reason = fut_send src f x offset (REnded uuid reason) ThenReturn"

definition fut_end_at ::
  "conn_future \<Rightarrow> TaskContext \<Rightarrow> nat \<Rightarrow> instant \<Rightarrow> Uuid option \<Rightarrow> EndReason \<Rightarrow> bytes \<Rightarrow> conn_future \<times> TaskContext" where
  "fut_end_at f x offset at uuid reason rest = fut_send_at f x offset at (REnded uuid reason) (ThenLoop rest)"

text \<open>The head of the loop of \<open>decode_chunk\<close>, and the way back to the next read.\<close>

definition enter_loop :: "bytes \<Rightarrow> await" where
  "enter_loop input = (if input = [] then Reading else Stepping input)"

definition resume_sent :: "conn_future \<Rightarrow> after_send \<Rightarrow> bool \<Rightarrow> conn_future" where
  "resume_sent f k ok =
     f\<lparr>cf_await :=
         (if \<not> ok then Returned
          else case k of
            ThenRead \<Rightarrow> Reading
          | ThenReturn \<Rightarrow> Returned
          | ThenDecode bs \<Rightarrow> enter_loop bs
          | ThenLoop rest \<Rightarrow> if identity (cf_session f) = None then Returned else enter_loop rest)\<rparr>"

definition resume_eof :: "conn_source \<Rightarrow> conn_future \<Rightarrow> TaskContext \<Rightarrow> (conn_future \<times> TaskContext) run" where
  "resume_eof src f x =
     (let uuid = identity (cf_session f) in
      case Framer_finish (cf_decoder f) of
        Inr _ \<Rightarrow>
          (case end_of_input (cf_session f) of
             (ses, Inr (EvEnded u r)) \<Rightarrow> Some (fut_end src (f\<lparr>cf_session := ses\<rparr>) x (tc_offset x) uuid CleanEof)
           | (ses, Inr _) \<Rightarrow> panic
           | (ses, Inl e) \<Rightarrow> Some (fut_end src (f\<lparr>cf_session := ses\<rparr>) x (tc_offset x) uuid (Policy e)))
      | Inl e \<Rightarrow> Some (fut_end src f x (tc_offset x) uuid (Truncated e)))"

definition resume_read ::
  "conn_source \<Rightarrow> conn_future \<Rightarrow> TaskContext \<Rightarrow> io_error + bytes \<Rightarrow> (conn_future \<times> TaskContext) run" where
  "resume_read src f x res =
     (case res of
        Inl e \<Rightarrow> Some (fut_end src f x (tc_offset x) (identity (cf_session f)) (Transport e))
      | Inr bs \<Rightarrow>
          if bs = [] then resume_eof src f x
          else
            (case fut_now src f x of (at, f) \<Rightarrow>
             (case observe_read (tc_progress x) (length bs) of
                (p, Inl _) \<Rightarrow>
                  Some (fut_end src f (x\<lparr>tc_progress := p\<rparr>) (p_consumed p) (identity (cf_session f)) OffsetExhausted)
              | (p, Inr start) \<Rightarrow> Some (f\<lparr>cf_await := Copying False bs (CopyWire start at)\<rparr>, x\<lparr>tc_progress := p\<rparr>))))"

definition resume_copied ::
  "conn_source \<Rightarrow> conn_future \<Rightarrow> TaskContext \<Rightarrow> bytes \<Rightarrow> after_copy \<Rightarrow> BudgetError + OwnedBytes \<Rightarrow> conn_future \<times> TaskContext" where
  "resume_copied src f x bs k res =
     (case k of
        CopyWire start at \<Rightarrow>
          (case res of
             Inr got \<Rightarrow> fut_send_at f x start at (RWire got) (ThenDecode bs)
           | Inl e \<Rightarrow> fut_end src f x start (identity (cf_session f)) (ResourceRefused e))
      | CopyAudio offset at uuid rate rest \<Rightarrow>
          (case res of
             Inr got \<Rightarrow> fut_send_at f x offset at (RAudio uuid rate got) (ThenLoop rest)
           | Inl e \<Rightarrow> fut_end_at f x offset at (Some uuid) (ResourceRefused e) rest)
      | CopyPeerError offset at uuid rest \<Rightarrow>
          (case res of
             Inr got \<Rightarrow> fut_end_at f x offset at uuid (EndPeerError got) rest
           | Inl e \<Rightarrow> fut_end_at f x offset at uuid (ResourceRefused e) rest))"

definition resume_observe ::
  "conn_source \<Rightarrow> conn_future \<Rightarrow> TaskContext \<Rightarrow> nat \<Rightarrow> IncomingEvent \<Rightarrow> bytes \<Rightarrow> conn_future \<times> TaskContext" where
  "resume_observe src f x offset event rest =
     (case fut_now src f x of (at, f) \<Rightarrow>
      (case event of
         EvStarted uuid \<Rightarrow> fut_send_at f x offset at (RStarted uuid) (ThenLoop rest)
       | EvDtmf uuid digit \<Rightarrow> fut_send_at f x offset at (RDtmf uuid digit) (ThenLoop rest)
       | EvAudio uuid rate p \<Rightarrow> (f\<lparr>cf_await := Copying False (audio_bytes_of p) (CopyAudio offset at uuid rate rest)\<rparr>, x)
       | EvEnded uuid reason \<Rightarrow>
           (case reason of
              Terminate \<Rightarrow> fut_end_at f x offset at uuid EndTerminate rest
            | PeerError p \<Rightarrow> (f\<lparr>cf_await := Copying False (opaque_bytes p) (CopyPeerError offset at uuid rest)\<rparr>, x)
            | EndOfInput \<Rightarrow> fut_end_at f x offset at uuid CleanEof rest)))"

definition resume_typed ::
  "conn_source \<Rightarrow> conn_future \<Rightarrow> TaskContext \<Rightarrow> nat \<Rightarrow> RawEnvelope \<Rightarrow> bytes \<Rightarrow> (conn_future \<times> TaskContext) run" where
  "resume_typed src f x offset raw rest =
     do {
       r \<leftarrow> typed raw;
       Some (case r of
           Inl e \<Rightarrow> fut_end src f x offset (identity (cf_session f)) (InvalidMessage e)
         | Inr m \<Rightarrow>
             (let uuid = identity (cf_session f) in
              case receive (cf_session f) m of
                (ses, Inl e) \<Rightarrow> fut_end src (f\<lparr>cf_session := ses\<rparr>) x offset uuid (Policy e)
              | (ses, Inr event) \<Rightarrow> resume_observe src (f\<lparr>cf_session := ses\<rparr>) x offset event rest))
     }"

definition resume_stepped ::
  "conn_source \<Rightarrow> conn_future \<Rightarrow> TaskContext \<Rightarrow> bytes \<Rightarrow> (conn_future \<times> TaskContext) run" where
  "resume_stepped src f x input =
     do {
       (d, rest, frame) \<leftarrow> RawDecoder_feed (cf_decoder f) input;
       let f = f\<lparr>cf_decoder := d\<rparr>;
       (p, r) \<leftarrow> consume (tc_progress x) (length input - length rest);
       let x = x\<lparr>tc_progress := p\<rparr>;
       Some (case r of
           Inl _ \<Rightarrow> fut_end src f x (tc_offset x) (identity (cf_session f)) OffsetExhausted
         | Inr offset \<Rightarrow>
             (case frame of
                Inr NeedInput \<Rightarrow> (f\<lparr>cf_await := Reading\<rparr>, x)
              | Inl e \<Rightarrow> fut_end src f x offset (identity (cf_session f)) (EndDecode e)
              | Inr (Frame raw) \<Rightarrow> (f\<lparr>cf_await := Typing offset raw rest\<rparr>, x)))
     }"

section \<open>Polling and dropping\<close>

text \<open>One await: whether it has completed, and the state up to the next one.\<close>

definition conn_resume ::
  "conn_source \<Rightarrow> io_error + unit \<Rightarrow> worker \<Rightarrow> conn_future \<Rightarrow> TaskContext
     \<Rightarrow> (worker \<times> conn_future \<times> TaskContext \<times> bool) run" where
  "conn_resume src wr w f x =
     (case cf_await f of
        Unpolled \<Rightarrow> (case fut_send src f x 0 (RConnected (tc_peer x)) ThenRead of (f, x) \<Rightarrow> Some (w, f, x, True))
      | Sending reg r k \<Rightarrow> do {
          (w, x, reg, pend, p) \<leftarrow> send_poll wr w x reg (Some r);
          (case p of
             Pending \<Rightarrow> do { r \<leftarrow> pend; Some (w, f\<lparr>cf_await := Sending reg r k\<rparr>, x, False) }
           | ReadyWith res \<Rightarrow> Some (w, resume_sent f k (\<not> isl res), x, True))
        }
      | Reading \<Rightarrow> do {
          let res = map_sum id (take READ_BYTES) (cs_read src (tc_id x) (cf_reads f));
          let f = (if tc_remaining x = 0 then f else f\<lparr>cf_reads := cf_reads f + 1\<rparr>);
          (w, x, p) \<leftarrow> read_poll wr w x res;
          (case p of
             Pending \<Rightarrow> Some (w, f, x, False)
           | ReadyWith res \<Rightarrow> do { (f, x) \<leftarrow> resume_read src f x res; Some (w, f, x, True) })
        }
      | Copying reg bs k \<Rightarrow> do {
          (w, x, reg, p) \<leftarrow> copy_poll wr w x bs reg;
          (case p of
             Pending \<Rightarrow> Some (w, f\<lparr>cf_await := Copying reg bs k\<rparr>, x, False)
           | ReadyWith res \<Rightarrow> (case resume_copied src f x bs k res of (f, x) \<Rightarrow> Some (w, f, x, True)))
        }
      | Stepping input \<Rightarrow> do {
          (w, x, p) \<leftarrow> step_poll wr w x;
          (case p of
             Pending \<Rightarrow> Some (w, f, x, False)
           | ReadyWith _ \<Rightarrow> do { (f, x) \<leftarrow> resume_stepped src f x input; Some (w, f, x, True) })
        }
      | Typing offset raw rest \<Rightarrow> do {
          (w, x, p) \<leftarrow> step_poll wr w x;
          (case p of
             Pending \<Rightarrow> Some (w, f, x, False)
           | ReadyWith _ \<Rightarrow> do { (f, x) \<leftarrow> resume_typed src f x offset raw rest; Some (w, f, x, True) })
        }
      | Returned \<Rightarrow> panic)"

text \<open>The steps left bound the awaits a poll can still complete.\<close>

definition awaits_left :: "conn_future \<Rightarrow> TaskContext \<Rightarrow> nat" where
  "awaits_left f x = 2 * tc_remaining x + (if cf_await f = Unpolled then 1 else 0)"

lemma permit_remaining:
  "permit wr w c = Some (w', c', ok) \<Longrightarrow> if ok then 0 < tc_remaining c \<and> c' = c\<lparr>tc_remaining := tc_remaining c - 1\<rparr> else c' = c"
  by (auto simp: permit_def split: if_splits bind_splits)

lemma step_poll_remaining:
  "step_poll wr w c = Some (w', c', ReadyWith u) \<Longrightarrow> tc_remaining c' < tc_remaining c"
  by (auto simp: step_poll_def dest!: permit_remaining split: bind_splits if_splits)

lemma read_poll_remaining:
  "read_poll wr w c res = Some (w', c', ReadyWith r) \<Longrightarrow> tc_remaining c' < tc_remaining c"
  by (auto simp: read_poll_def dest!: permit_remaining split: bind_splits if_splits sum.splits)

lemma copy_poll_remaining:
  "copy_poll wr w c bs reg = Some (w', c', reg', ReadyWith r) \<Longrightarrow> tc_remaining c' < tc_remaining c"
  by (auto simp: copy_poll_def Let_def dest!: permit_remaining split: bind_splits if_splits sum.splits BudgetError.splits)

lemma send_poll_remaining:
  "send_poll wr w c reg pend = Some (w', c', reg', pend', ReadyWith r) \<Longrightarrow> tc_remaining c' < tc_remaining c"
  by (auto simp: send_poll_def Let_def dest!: permit_remaining
      split: bind_splits if_splits sum.splits option.splits prod.splits SendFailure.splits)

text \<open>The code between two awaits changes no identity and uses no step.\<close>

definition resumed :: "TaskContext \<Rightarrow> conn_future \<Rightarrow> TaskContext \<Rightarrow> bool" where
  "resumed x f' x' \<longleftrightarrow> tc_remaining x' = tc_remaining x \<and> tc_id x' = tc_id x \<and> tc_peer x' = tc_peer x \<and>
     tc_token x' = tc_token x \<and> tc_retention x' = tc_retention x \<and> cf_await f' \<noteq> Unpolled"

lemmas fut_defs = fut_send_def fut_send_at_def fut_end_def fut_end_at_def fut_now_def send_start_def

lemma resumed_send [simp]:
  "resumed x (fst (fut_send src f y offset kind k)) (snd (fut_send src f y offset kind k)) \<longleftrightarrow> resumed x (f\<lparr>cf_await := Returned\<rparr>) y"
  "resumed x (fst (fut_send_at f y offset at kind k)) (snd (fut_send_at f y offset at kind k)) \<longleftrightarrow> resumed x (f\<lparr>cf_await := Returned\<rparr>) y"
  "resumed x (fst (fut_end src f y offset uuid reason)) (snd (fut_end src f y offset uuid reason)) \<longleftrightarrow> resumed x (f\<lparr>cf_await := Returned\<rparr>) y"
  "resumed x (fst (fut_end_at f y offset at uuid reason rest)) (snd (fut_end_at f y offset at uuid reason rest)) \<longleftrightarrow>
     resumed x (f\<lparr>cf_await := Returned\<rparr>) y"
  by (simp_all add: fut_defs resumed_def)

lemma resumed_progress [simp]: "resumed x f (y\<lparr>tc_progress := p\<rparr>) = resumed x f y"
  by (simp add: resumed_def)

lemma resumed_self [simp]: "resumed x f x \<longleftrightarrow> cf_await f \<noteq> Unpolled"
  by (simp add: resumed_def)

lemma resumed_sent: "cf_await (resume_sent f k ok) \<noteq> Unpolled"
  by (simp add: resume_sent_def enter_loop_def split: after_send.split)

lemma resumed_eof: "resume_eof src f x = Some y \<Longrightarrow> resumed x (fst y) (snd y)"
  by (auto simp: resume_eof_def Let_def split: sum.splits prod.splits IncomingEvent.splits)

lemma resumed_read: "resume_read src f x res = Some y \<Longrightarrow> resumed x (fst y) (snd y)"
  by (auto simp: resume_read_def dest: resumed_eof split: sum.splits prod.splits if_splits)

lemma resumed_copied: "resume_copied src f x bs k res = y \<Longrightarrow> resumed x (fst y) (snd y)"
  by (auto simp: resume_copied_def split: after_copy.split sum.split)

lemma resumed_observe: "resumed x (fst (resume_observe src f x offset ev rest)) (snd (resume_observe src f x offset ev rest))"
  by (simp add: resume_observe_def split: prod.split IncomingEvent.split SessionEnd.split)

lemma resumed_typed: "resume_typed src f x offset raw rest = Some y \<Longrightarrow> resumed x (fst y) (snd y)"
  by (auto simp: resume_typed_def Let_def resumed_observe split: bind_splits sum.splits prod.splits)

lemma resumed_stepped: "resume_stepped src f x input = Some y \<Longrightarrow> resumed x (fst y) (snd y)"
  by (auto simp: resume_stepped_def Let_def split: bind_splits sum.splits DecodeOutcome.splits)

lemma conn_resume_decreases:
  assumes "conn_resume src wr w f x = Some (w', f', x', True)"
  shows "awaits_left f' x' < awaits_left f x"
proof -
  have less: "awaits_left f' x' < awaits_left f x"
    if "tc_remaining y < tc_remaining x" "resumed y f' x'" for y
    using that by (simp add: awaits_left_def resumed_def)
  show ?thesis
  proof (cases "cf_await f")
    case Unpolled
    then show ?thesis using assms by (auto simp: conn_resume_def fut_defs awaits_left_def)
  next
    case (Sending reg r k)
    then show ?thesis using assms resumed_sent [of f k]
      by (auto simp: conn_resume_def intro!: less split: bind_splits poll.splits dest: send_poll_remaining)
  next
    case Reading
    then show ?thesis using assms
      by (auto simp: conn_resume_def Let_def intro!: less split: bind_splits poll.splits dest!: read_poll_remaining resumed_read)
  next
    case (Copying reg bs k)
    then show ?thesis using assms
      by (auto simp: conn_resume_def intro!: less split: bind_splits poll.splits prod.splits dest!: copy_poll_remaining resumed_copied)
  next
    case (Stepping input)
    then show ?thesis using assms
      by (auto simp: conn_resume_def intro!: less split: bind_splits poll.splits dest!: step_poll_remaining resumed_stepped)
  next
    case (Typing offset raw rest)
    then show ?thesis using assms
      by (auto simp: conn_resume_def intro!: less split: bind_splits poll.splits dest!: step_poll_remaining resumed_typed)
  qed (use assms in \<open>simp add: conn_resume_def\<close>)
qed

function poll_conn ::
  "conn_source \<Rightarrow> io_error + unit \<Rightarrow> worker \<Rightarrow> conn_future \<Rightarrow> TaskContext
     \<Rightarrow> (worker \<times> conn_future \<times> TaskContext \<times> unit poll) run" where
  "poll_conn src wr w f x =
     (case conn_resume src wr w f x of
        None \<Rightarrow> panic
      | Some (w', f', x', False) \<Rightarrow> Some (w', f', x', Pending)
      | Some (w', f', x', True) \<Rightarrow>
          if cf_await f' = Returned then Some (w', f', x', ReadyWith ()) else poll_conn src wr w' f' x')"
  by pat_completeness auto
termination
  by (relation "measure (\<lambda>(src, wr, w, f, x). awaits_left f x)") (auto dest: conn_resume_decreases)

text \<open>Dropping the future drops the record it has not handed off, then its request.\<close>

definition drop_conn :: "io_error + unit \<Rightarrow> worker \<Rightarrow> conn_future \<Rightarrow> TaskContext \<Rightarrow> worker run" where
  "drop_conn wr w f x =
     (case cf_await f of
        Sending reg r k \<Rightarrow> do { w \<leftarrow> drop_record wr w r; drop_request wr w x Queue reg }
      | Copying reg bs k \<Rightarrow> drop_request wr w x Bytes reg
      | _ \<Rightarrow> Some w)"

declare poll_conn.simps [simp del]

section \<open>What a suspended future satisfies\<close>

definition fut_held :: "conn_future \<Rightarrow> Charge multiset" where
  "fut_held f = (case cf_await f of Sending reg r k \<Rightarrow> record_charges r | _ \<Rightarrow> {#})"

text \<open>The bytes of the last read that the decoder has not been fed, and those not handed off.\<close>

fun undecoded :: "await \<Rightarrow> bytes" where
  "undecoded (Sending reg r (ThenDecode bs)) = bs"
| "undecoded (Sending reg r (ThenLoop bs)) = bs"
| "undecoded (Copying reg bs (CopyWire start at)) = bs"
| "undecoded (Copying reg bs (CopyAudio offset at uuid rate rest)) = rest"
| "undecoded (Copying reg bs (CopyPeerError offset at uuid rest)) = rest"
| "undecoded (Stepping bs) = bs"
| "undecoded (Typing offset raw rest) = rest"
| "undecoded a = []"

fun wire_due :: "await \<Rightarrow> nat" where
  "wire_due (Sending reg r k) = length (wire_part (rec_kind r))"
| "wire_due (Copying reg bs (CopyWire start at)) = length bs"
| "wire_due a = 0"

definition counters_ok :: "await \<Rightarrow> Progress \<Rightarrow> bool" where
  "counters_ok a p \<longleftrightarrow> p_read p \<le> U64_MAX \<and> records_queued p \<le> U64_MAX \<and>
     p_consumed p + length (undecoded a) \<le> p_read p \<and> wire_queued p + wire_due a \<le> p_read p"

definition fut_ok :: "conn_future \<Rightarrow> TaskContext \<Rightarrow> bool" where
  "fut_ok f x \<longleftrightarrow> (\<exists>cap. framer_ok accept_any cap (cf_decoder f)) \<and> counters_ok (cf_await f) (tc_progress x)"

lemma fut_ok_start: "fut_ok (start_conn pc prof x) (TaskContext_new i peer t k)"
  using framer_ok_new [of accept_any "replicate pc 0"]
  by (auto simp: fut_ok_def start_conn_def counters_ok_def TaskContext_new_def Progress_default_def)

lemma counters_ok_end:
  "counters_ok a p \<Longrightarrow> counters_ok (Sending reg \<lparr>connection = i, rec_offset = off, observed_at = at, rec_kind = REnded u e\<rparr> ThenReturn)
     (p\<lparr>pending_record := True\<rparr>)"
  by (simp add: counters_ok_def)

lemma enter_loop_simps [simp]: "undecoded (enter_loop bs) = bs" "wire_due (enter_loop bs) = 0"
  by (simp_all add: enter_loop_def)

text \<open>The state at the next await owns exactly \<open>Y\<close>.\<close>

definition suspended :: "Charge multiset \<Rightarrow> conn_future \<times> TaskContext \<Rightarrow> bool" where
  "suspended Y y \<longleftrightarrow> fut_ok (fst y) (snd y) \<and> fut_held (fst y) = Y"

definition lands :: "(conn_future \<times> TaskContext) run \<Rightarrow> bool" where
  "lands m \<longleftrightarrow> (case m of None \<Rightarrow> False | Some y \<Rightarrow> suspended {#} y)"

lemma lands_Some [simp]: "lands (Some y) = suspended {#} y"
  by (simp add: lands_def)

lemma suspended_end:
  assumes "framer_ok accept_any cap (cf_decoder f)" "counters_ok a (tc_progress x)" "\<forall>b. reason \<noteq> EndPeerError b"
  shows "suspended {#} (fut_end src f x offset uuid reason)"
  using assms by (cases reason) (auto simp: suspended_def fut_ok_def fut_defs fut_held_def record_charges_def intro: counters_ok_end)

lemma suspended_sent:
  assumes "fut_ok f x" "cf_await f = Sending reg r k" "p_read (tc_progress x') = p_read (tc_progress x)"
    "p_consumed (tc_progress x') = p_consumed (tc_progress x)" "records_queued (tc_progress x') \<le> U64_MAX"
    "wire_queued (tc_progress x') \<le> wire_queued (tc_progress x) + length (wire_part (rec_kind r))"
  shows "suspended {#} (resume_sent f k ok, x')"
  using assms
  by (auto simp: suspended_def fut_held_def fut_ok_def resume_sent_def counters_ok_def enter_loop_def split: after_send.split)

lemma end_of_input_ends: "end_of_input ses = (ses', Inr ev) \<Longrightarrow> \<exists>u r. ev = EvEnded u r"
  by (auto simp: end_of_input_def session_end_def split: if_splits)

lemma suspended_eof:
  assumes "framer_ok accept_any cap (cf_decoder f)" "counters_ok a (tc_progress x)"
  shows "lands (resume_eof src f x)"
proof -
  obtain ses r where s: "end_of_input (cf_session f) = (ses, r)" by fastforce
  show ?thesis
    using suspended_end [of cap f a x] suspended_end [of cap "f\<lparr>cf_session := ses\<rparr>" a x] assms s
    by (cases r) (auto simp: resume_eof_def Let_def dest!: end_of_input_ends split: sum.split)
qed

lemma observe_read_cases:
  assumes "p_read p \<le> U64_MAX" "length bs \<le> U64_MAX"
  obtains (over) "observe_read p (length bs) = (p\<lparr>counter_overflow := True\<rparr>, Inl CounterOverflow)" "U64_MAX < p_read p + length bs"
    | (counted) "observe_read p (length bs) = (p\<lparr>p_read := p_read p + length bs\<rparr>, Inr (p_read p))" "p_read p + length bs \<le> U64_MAX"
  using assms by (cases "p_read p + length bs \<le> U64_MAX")
    (auto simp: observe_read_def add_observation_def try_from_def checked_add_def)

lemma suspended_read:
  assumes ok: "fut_ok f x" "cf_await f = Reading" and len: "\<forall>bs. res = Inr bs \<longrightarrow> length bs \<le> U64_MAX"
  shows "lands (resume_read src f x res)"
proof -
  obtain cap where d: "framer_ok accept_any cap (cf_decoder f)" and c: "counters_ok Reading (tc_progress x)"
    using ok by (auto simp: fut_ok_def)
  show ?thesis
  proof (cases res)
    case (Inl e)
    then show ?thesis using suspended_end [OF d c] by (simp add: resume_read_def)
  next
    case (Inr bs)
    show ?thesis
    proof (cases "bs = []")
      case True
      then show ?thesis using suspended_eof [OF d c] Inr by (simp add: resume_read_def)
    next
      case False
      have "p_read (tc_progress x) \<le> U64_MAX" "length bs \<le> U64_MAX" using c len Inr by (auto simp: counters_ok_def)
      then show ?thesis
      proof (cases rule: observe_read_cases)
        case over
        have "counters_ok Reading (tc_progress (x\<lparr>tc_progress := (tc_progress x)\<lparr>counter_overflow := True\<rparr>\<rparr>))"
          using c by (simp add: counters_ok_def)
        from suspended_end [OF _ this, of cap "f\<lparr>cf_ticks := cf_ticks f + 1\<rparr>"] show ?thesis
          using d Inr False over by (simp add: resume_read_def fut_now_def)
      next
        case counted
        then show ?thesis using c d Inr False
          by (auto simp: resume_read_def fut_now_def suspended_def fut_ok_def counters_ok_def fut_held_def)
      qed
    qed
  qed
qed

lemma suspended_copied:
  assumes ok: "fut_ok f x" "cf_await f = Copying reg bs k" and x': "tc_progress x' = tc_progress x"
    and res: "case res of Inl e \<Rightarrow> True | Inr got \<Rightarrow> as_slice got = bs"
  shows "suspended (case res of Inl e \<Rightarrow> {#} | Inr got \<Rightarrow> {#charge got#}) (resume_copied src f x' bs k res)"
proof -
  obtain cap where d: "framer_ok accept_any cap (cf_decoder f)" and c: "counters_ok (Copying reg bs k) (tc_progress x')"
    using ok x' by (auto simp: fut_ok_def)
  show ?thesis
    using c d res suspended_end [OF d c]
    by (cases k; cases res)
       (auto simp: resume_copied_def fut_send_at_def fut_end_at_def send_start_def suspended_def fut_ok_def counters_ok_def
         fut_held_def record_charges_def)
qed

lemma suspended_observe:
  assumes "framer_ok accept_any cap (cf_decoder f)" "counters_ok (Typing offset raw rest) (tc_progress x)"
  shows "suspended {#} (resume_observe src f x offset ev rest)"
  using assms
  by (auto simp: resume_observe_def fut_now_def fut_send_at_def fut_end_at_def send_start_def suspended_def fut_ok_def
      counters_ok_def fut_held_def record_charges_def split: IncomingEvent.split SessionEnd.split)

lemma suspended_typed:
  assumes "fut_ok f x" "cf_await f = Typing offset raw rest" "tc_progress x' = tc_progress x"
  shows "lands (resume_typed src f x' offset raw rest)"
proof -
  obtain cap where d: "framer_ok accept_any cap (cf_decoder f)" and c: "counters_ok (Typing offset raw rest) (tc_progress x')"
    using assms by (auto simp: fut_ok_def)
  show ?thesis
    using suspended_end [OF _ c] suspended_observe [OF _ c] d
    by (auto simp: resume_typed_def typed_eq_policy Let_def split: sum.split prod.split)
qed

lemma suspended_stepped:
  assumes ok: "fut_ok f x" "cf_await f = Stepping input" and x': "tc_progress x' = tc_progress x"
  shows "lands (resume_stepped src f x' input)"
proof -
  let ?p = "tc_progress x'"
  obtain cap where d: "framer_ok accept_any cap (cf_decoder f)" and c: "counters_ok (Stepping input) ?p"
    using ok x' by (auto simp: fut_ok_def)
  define adv where "adv n = x'\<lparr>tc_progress := ?p\<lparr>p_consumed := p_consumed ?p + n\<rparr>\<rparr>" for n
  have used: "consume ?p (length input - n) = Some (tc_progress (adv (length input - n)), Inr (p_consumed ?p + (length input - n)))" for n
    unfolding adv_def by (subst consume_eval) (use c in \<open>auto simp: counters_ok_def\<close>)
  have eval: "resume_stepped src f x' input = Some (let n = length input - length rest in case frame of
        Inr NeedInput \<Rightarrow> (f\<lparr>cf_decoder := d', cf_await := Reading\<rparr>, adv n)
      | Inl e \<Rightarrow> fut_end src (f\<lparr>cf_decoder := d'\<rparr>) (adv n) (p_consumed ?p + n) (identity (cf_session f)) (EndDecode e)
      | Inr (Frame raw) \<Rightarrow> (f\<lparr>cf_decoder := d', cf_await := Typing (p_consumed ?p + n) raw rest\<rparr>, adv n))"
    if "RawDecoder_feed (cf_decoder f) input = Some (d', rest, frame)" for d' rest frame
    using that used [of "length rest"] by (simp add: resume_stepped_def adv_def Let_def split: sum.split DecodeOutcome.split)
  from d show ?thesis
  proof (cases rule: raw_stream.feed_cases [of cap _ input])
    case (need d')
    then show ?thesis using eval [OF need(1)] c by (auto simp: suspended_def fut_ok_def counters_ok_def fut_held_def adv_def)
  next
    case (frame d' rest m)
    then show ?thesis using eval [OF frame(1)] c by (auto simp: suspended_def fut_ok_def counters_ok_def fut_held_def adv_def)
  next
    case (error d' rest e)
    have "counters_ok Reading (tc_progress (adv (length input - length rest)))"
      using c by (auto simp: counters_ok_def adv_def)
    from suspended_end [OF _ this, of cap "f\<lparr>cf_decoder := d'\<rparr>" "EndDecode e"] show ?thesis
      using eval [OF error(1)] error(2) by (simp add: Let_def)
  qed
qed

section \<open>Laws of the future\<close>

lemma read_poll_law:
  assumes "ready_ok (ready (w_sched w))" "polled (w_sched w) (tc_token c)" "owns (w_mem w) (Y + queued_charges (w_hand w) + Z)"
  obtains (waits) w' c' where "read_poll wr w c res = Some (w', c', Pending)" "poll_kept w c w' c' Y Z False"
      "tc_progress c' = tc_progress c" "w_hand w' = w_hand w"
      "tc_remaining c = 0 \<or> (\<exists>e. res = Inl e \<and> (io_kind e = WouldBlock \<or> io_kind e = Interrupted))"
    | (reads) c' where "read_poll wr w c res = Some (w, c', ReadyWith res)" "poll_kept w c w c' Y Z True"
        "tc_progress c' = tc_progress c" "\<forall>e. res = Inl e \<longrightarrow> io_kind e \<noteq> WouldBlock \<and> io_kind e \<noteq> Interrupted" "0 < tc_remaining c"
proof (cases rule: permit_law [OF assms(1,2), of wr])
  case (1 w')
  then show ?thesis using waits [of w' c] assms(3) permit_remaining [of wr w c]
    by (auto simp: read_poll_def poll_kept_out sched_step_def permit_def split: if_splits)
next
  case 2
  let ?c = "c\<lparr>tc_remaining := tc_remaining c - 1\<rparr>"
  consider (arrived) "\<forall>e. res = Inl e \<longrightarrow> io_kind e \<noteq> WouldBlock \<and> io_kind e \<noteq> Interrupted"
    | (block) e where "res = Inl e" "io_kind e = WouldBlock" | (again) e where "res = Inl e" "io_kind e = Interrupted" "io_kind e \<noteq> WouldBlock"
    by blast
  then show ?thesis
  proof cases
    case arrived
    then show ?thesis using reads [of ?c] 2 assms
      by (cases res) (auto simp: read_poll_def poll_kept_def core_step_refl)
  next
    case block
    have turn: "polled (w_sched w) (tc_token ?c)" using assms(2) by simp
    obtain w' where "park_task w ?c Kernel = Some w'" "poll_kept w ?c w' ?c Y Z False" "sched_step w w'"
      by (rule parked_law [OF assms(1) turn assms(3)])
    then show ?thesis using waits [of w' ?c] block 2 poll_kept_fewer by (auto simp: read_poll_def sched_step_def)
  next
    case again
    obtain s b where s: "task_wake wr (w_sched w) (tc_token c) = Some (s, b)" "ready_ok (ready s)"
      "runnable (states (ready s) (tc_token c))" "dom (states (ready s)) = dom (states (ready (w_sched w)))"
      "ready_capacity (ready s) = ready_capacity (ready (w_sched w))"
      by (rule task_wake_law [OF assms(1,2)])
    have "poll_kept w c (w\<lparr>w_sched := s\<rparr>) ?c Y Z False"
      using s assms(3) not_running [OF s(3)] by (simp add: poll_kept_def core_step_sched)
    then show ?thesis using waits [of "w\<lparr>w_sched := s\<rparr>" ?c] again 2 s(1) by (auto simp: read_poll_def)
  qed
qed

text \<open>
  What holds after a poll or a part of it, for the rest \<open>Z\<close> of the storage: \<open>fin\<close> says whether the
  last operation completed.
\<close>

definition fut_kept ::
  "worker \<Rightarrow> TaskContext \<Rightarrow> worker \<Rightarrow> conn_future \<Rightarrow> TaskContext \<Rightarrow> Charge multiset \<Rightarrow> bool \<Rightarrow> bool" where
  "fut_kept w x w' f' x' Z fin \<longleftrightarrow>
     fut_ok f' x' \<and> core_step w w' \<and> owns (w_mem w') (fut_held f' + queued_charges (w_hand w') + Z) \<and>
     capacity (budget (w_mem w')) = capacity (budget (w_mem w)) \<and>
     tc_id x' = tc_id x \<and> tc_peer x' = tc_peer x \<and> tc_token x' = tc_token x \<and> tc_retention x' = tc_retention x \<and>
     (if fin then polled (w_sched w') (tc_token x) else states (ready (w_sched w')) (tc_token x) \<noteq> Some Running)"

lemma fut_kept_resumed:
  assumes "poll_kept w x w' x1 Y Z True" "suspended Y (f', x')" "resumed x1 f' x'"
  shows "fut_kept w x w' f' x' Z True"
  using assms by (simp add: fut_kept_def poll_kept_def suspended_def resumed_def)

lemma fut_kept_pending:
  assumes "poll_kept w x w' x' Y Z False" "fut_ok f' x'" "fut_held f' = Y"
  shows "fut_kept w x w' f' x' Z False"
  using assms by (simp add: fut_kept_def poll_kept_def)

lemma fut_kept_trans:
  "fut_kept w x w1 f1 x1 Z True \<Longrightarrow> fut_kept w1 x1 w' f' x' Z fin \<Longrightarrow> fut_kept w x w' f' x' Z fin"
  by (auto simp: fut_kept_def intro: core_step_trans)

definition resumes ::
  "worker \<Rightarrow> TaskContext \<Rightarrow> Charge multiset \<Rightarrow> (worker \<times> conn_future \<times> TaskContext \<times> bool) run \<Rightarrow> bool" where
  "resumes w x Z m \<longleftrightarrow> (\<exists>w' f' x' fin. m = Some (w', f', x', fin) \<and> fut_kept w x w' f' x' Z fin \<and>
     (cf_await f' = Returned \<longrightarrow> fin))"

lemma resumes_lands:
  assumes "poll_kept w x w' x1 {#} Z True" "lands m" "\<And>y. m = Some y \<Longrightarrow> resumed x1 (fst y) (snd y)"
  shows "resumes w x Z (m \<bind> (\<lambda>(f', x'). Some (w', f', x', True)))"
proof -
  obtain f' x' where m: "m = Some (f', x')" "suspended {#} (f', x')" using assms(2) by (auto simp: lands_def split: option.splits)
  then show ?thesis using fut_kept_resumed [OF assms(1) m(2)] assms(3) [OF m(1)] by (auto simp: resumes_def)
qed

lemma resumes_waits:
  assumes "poll_kept w x w' x' Y Z False" "fut_ok f' x'" "fut_held f' = Y" "cf_await f' \<noteq> Returned"
  shows "resumes w x Z (Some (w', f', x', False))"
  using fut_kept_pending [OF assms(1-3)] assms(4) by (auto simp: resumes_def)

lemma fut_ok_progress: "tc_progress x' = tc_progress x \<Longrightarrow> fut_ok f x' = fut_ok f x"
  by (simp add: fut_ok_def)

lemma resume_sending:
  assumes ok: "ready_ok (ready (w_sched w))" "polled (w_sched w) (tc_token x)" "owns (w_mem w) (fut_held f + queued_charges (w_hand w) + Z)"
    and f: "fut_ok f x" "cf_await f = Sending reg r k"
  shows "resumes w x Z (conn_resume src wr w f x)"
proof -
  let ?n = "length (wire_part (rec_kind r))" and ?p = "tc_progress x"
  have c: "counters_ok (Sending reg r k) ?p" using f by (simp add: fut_ok_def)
  have held: "fut_held f = record_charges r" using f(2) by (simp add: fut_held_def)
  have len: "wire_len (rec_kind r) = Some ?n" using c by (intro wire_len_eval) (simp add: counters_ok_def)
  have fits: "wire_queued ?p + ?n \<le> U64_MAX" "records_queued ?p \<le> U64_MAX" using c by (simp_all add: counters_ok_def)
  have completed: "resumes w x Z (Some (w', resume_sent f k b, x', True))"
    if "poll_kept w x w' x' {#} Z True" "p_read (tc_progress x') = p_read ?p" "p_consumed (tc_progress x') = p_consumed ?p"
      "records_queued (tc_progress x') \<le> U64_MAX" "wire_queued (tc_progress x') \<le> wire_queued ?p + ?n" for w' x' b
    using fut_kept_resumed [OF that(1) suspended_sent [OF f that(2-5)]] resumed_sent [of f k b] by (auto simp: resumes_def)
  have m: "owns (w_mem w) (record_charges r + queued_charges (w_hand w) + Z)" using ok(3) held by simp
  show ?thesis
  proof (cases rule: send_poll_law [OF ok(1,2) m fits(2) len fits(1), of wr reg])
    case (1 w' c' reg')
    have "fut_ok (f\<lparr>cf_await := Sending reg' r k\<rparr>) c'" using f 1(3) by (cases k) (simp_all add: fut_ok_def counters_ok_def)
    from resumes_waits [OF 1(2) this] show ?thesis using 1(1) f(2) by (simp add: conn_resume_def fut_held_def)
  next
    case (2 w' c')
    from completed [OF 2(2)] show ?thesis using 2 f(2) by (simp add: conn_resume_def sent_progress_def)
  next
    case (3 w' c')
    from completed [OF 3(2)] show ?thesis using 3 f(2) fits by (simp add: conn_resume_def)
  next
    case (4 w' c')
    from completed [OF 4(2)] show ?thesis using 4 f(2) fits by (simp add: conn_resume_def)
  qed
qed

lemma resume_reading:
  assumes ok: "ready_ok (ready (w_sched w))" "polled (w_sched w) (tc_token x)" "owns (w_mem w) (fut_held f + queued_charges (w_hand w) + Z)"
    and f: "fut_ok f x" "cf_await f = Reading"
  shows "resumes w x Z (conn_resume src wr w f x)"
proof -
  let ?res = "map_sum id (take READ_BYTES) (cs_read src (tc_id x) (cf_reads f))"
  define g where "g = (if tc_remaining x = 0 then f else f\<lparr>cf_reads := cf_reads f + 1\<rparr>)"
  have g: "cf_await g = Reading" "fut_held g = {#}" "fut_held f = {#}" "\<And>y. tc_progress y = tc_progress x \<Longrightarrow> fut_ok g y"
    using f by (auto simp: g_def fut_held_def fut_ok_def)
  have m: "owns (w_mem w) ({#} + queued_charges (w_hand w) + Z)" using ok(3) g by simp
  have len: "\<forall>bs. ?res = Inr bs \<longrightarrow> length bs \<le> U64_MAX"
    by (cases "cs_read src (tc_id x) (cf_reads f)") (auto simp: READ_BYTES_def U64_MAX_def)
  show ?thesis
  proof (cases rule: read_poll_law [OF ok(1,2) m, of wr ?res])
    case (1 w' c')
    from resumes_waits [OF 1(2) g(4) [OF 1(3)] g(2)] show ?thesis
      using 1(1) f(2) g(1) by (simp add: conn_resume_def g_def [symmetric])
  next
    case (2 c')
    have "resumes w x Z (resume_read src g c' ?res \<bind> (\<lambda>(f', x'). Some (w, f', x', True)))"
      using resumes_lands [OF 2(2) suspended_read [OF g(4) [OF 2(3)] g(1) len]] resumed_read by blast
    then show ?thesis using 2(1) f(2) by (simp add: conn_resume_def g_def [symmetric])
  qed
qed

lemma resume_copying:
  assumes ok: "ready_ok (ready (w_sched w))" "polled (w_sched w) (tc_token x)" "owns (w_mem w) (fut_held f + queued_charges (w_hand w) + Z)"
    and f: "fut_ok f x" "cf_await f = Copying reg bs k"
  shows "resumes w x Z (conn_resume src wr w f x)"
proof -
  have m: "owns (w_mem w) ({#} + queued_charges (w_hand w) + Z)" using ok(3) f(2) by (simp add: fut_held_def)
  have completed: "resumes w x Z (case resume_copied src f x' bs k res of (f', x') \<Rightarrow> Some (w', f', x', True))"
    if "poll_kept w x w' x' (case res of Inl e \<Rightarrow> {#} | Inr got \<Rightarrow> {#charge got#}) Z True" "tc_progress x' = tc_progress x"
      "case res of Inl e \<Rightarrow> True | Inr got \<Rightarrow> as_slice got = bs" for w' x' res
  proof -
    obtain f' y where r: "resume_copied src f x' bs k res = (f', y)" by fastforce
    show ?thesis using fut_kept_resumed [OF that(1)] suspended_copied [OF f that(2,3), of src] resumed_copied [OF r] r
      by (auto simp: resumes_def)
  qed
  show ?thesis
  proof (cases rule: copy_poll_law [OF ok(1,2) m, of wr bs reg])
    case (1 w' c' reg')
    have "fut_ok (f\<lparr>cf_await := Copying reg' bs k\<rparr>) c'" using f 1(3) by (cases k) (simp_all add: fut_ok_def counters_ok_def)
    from resumes_waits [OF 1(2) this] show ?thesis using 1(1) f(2) by (simp add: conn_resume_def fut_held_def)
  next
    case (2 w' c')
    then show ?thesis using completed [of w' c' "Inl (TooLarge (length bs) (capacity (budget (w_mem w))))"] f(2)
      by (simp add: conn_resume_def)
  next
    case (3 w' c' o')
    then show ?thesis using completed [of w' c' "Inr o'"] f(2) by (simp add: conn_resume_def as_slice_def)
  qed
qed

lemma resume_stepping:
  assumes ok: "ready_ok (ready (w_sched w))" "polled (w_sched w) (tc_token x)" "owns (w_mem w) (fut_held f + queued_charges (w_hand w) + Z)"
    and f: "fut_ok f x" "cf_await f = Stepping bs \<or> cf_await f = Typing offset raw rest"
  shows "resumes w x Z (conn_resume src wr w f x)"
proof -
  have held: "fut_held f = {#}" using f(2) by (auto simp: fut_held_def)
  then have m: "owns (w_mem w) ({#} + queued_charges (w_hand w) + Z)" using ok(3) by simp
  show ?thesis
  proof (cases rule: step_poll_law [OF ok(1,2) m, of wr])
    case (1 w')
    have "cf_await f \<noteq> Returned" using f(2) by auto
    from resumes_waits [OF 1(2) f(1) held this] show ?thesis using 1(1) f(2) by (auto simp: conn_resume_def)
  next
    case (2 c')
    from f(2) show ?thesis
    proof
      assume a: "cf_await f = Stepping bs"
      from resumes_lands [OF 2(2) suspended_stepped [OF f(1) a 2(3)] resumed_stepped] show ?thesis
        using 2(1) a by (simp add: conn_resume_def)
    next
      assume a: "cf_await f = Typing offset raw rest"
      from resumes_lands [OF 2(2) suspended_typed [OF f(1) a 2(3)] resumed_typed] show ?thesis
        using 2(1) a by (simp add: conn_resume_def)
    qed
  qed
qed

lemma conn_resume_law:
  assumes ok: "ready_ok (ready (w_sched w))" "polled (w_sched w) (tc_token x)" "owns (w_mem w) (fut_held f + queued_charges (w_hand w) + Z)"
    and f: "fut_ok f x" "cf_await f \<noteq> Returned"
  shows "resumes w x Z (conn_resume src wr w f x)"
proof (cases "cf_await f")
  case Unpolled
  then show ?thesis using ok f(1)
    by (auto simp: resumes_def conn_resume_def fut_defs fut_kept_def fut_ok_def counters_ok_def fut_held_def record_charges_def core_step_refl)
qed (use resume_sending [OF ok f(1)] resume_reading [OF ok f(1)] resume_copying [OF ok f(1)] resume_stepping [OF ok f(1)] f(2) in blast)+

text \<open>A poll ends without a panic and keeps everything the worker relies on.\<close>

lemma poll_conn_law:
  assumes "ready_ok (ready (w_sched w))" "polled (w_sched w) (tc_token x)" "owns (w_mem w) (fut_held f + queued_charges (w_hand w) + Z)"
    and "fut_ok f x" "cf_await f \<noteq> Returned"
  shows "\<exists>w' f' x' p. poll_conn src wr w f x = Some (w', f', x', p) \<and> fut_kept w x w' f' x' Z (p \<noteq> Pending) \<and>
    (cf_await f' = Returned \<longleftrightarrow> p \<noteq> Pending)"
  using assms
proof (induction src wr w f x rule: poll_conn.induct)
  case (1 src wr w f x)
  obtain w1 f1 x1 fin where r: "conn_resume src wr w f x = Some (w1, f1, x1, fin)" "fut_kept w x w1 f1 x1 Z fin"
    "cf_await f1 = Returned \<longrightarrow> fin" using conn_resume_law [OF 1(2-6)] unfolding resumes_def by blast
  show ?case
  proof (cases "fin \<and> cf_await f1 \<noteq> Returned")
    case True
    note k = r(2) [unfolded fut_kept_def]
    obtain w' f' x' p where "poll_conn src wr w1 f1 x1 = Some (w', f', x', p)" "fut_kept w1 x1 w' f' x' Z (p \<noteq> Pending)"
      "cf_await f' = Returned \<longleftrightarrow> p \<noteq> Pending"
      using "1.IH" [OF r(1) refl refl refl] True k by (auto simp: core_step_def)
    then show ?thesis using r(1,2) True fut_kept_trans by (auto simp: poll_conn.simps [of src wr w])
  next
    case False
    then show ?thesis using r by (cases fin) (auto simp: poll_conn.simps [of src wr w])
  qed
qed

lemma drop_conn_law:
  assumes "ready_ok (ready (w_sched w))" "owns (w_mem w) (fut_held f + queued_charges (w_hand w) + Z)"
  shows "\<exists>w'. drop_conn wr w f x = Some w' \<and> core_step w w' \<and> owns (w_mem w') (queued_charges (w_hand w') + Z)"
proof -
  have request: "\<exists>w'. drop_request wr w1 x k reg = Some w' \<and> core_step w w' \<and> owns (w_mem w') (queued_charges (w_hand w') + Z)"
    if "core_step w w1" "owns (w_mem w1) (queued_charges (w_hand w1) + Z)" "k \<noteq> Kernel" for w1 k reg
  proof (rule drop_request_law [of w1 k wr x reg])
    fix w' assume "drop_request wr w1 x k reg = Some w'" "sched_step w1 w'"
    then show ?thesis using that by (auto simp: sched_step_def intro: core_step_trans)
  qed (use that in \<open>simp_all add: core_step_def\<close>)
  note refl = core_step_refl [OF assms(1)]
  show ?thesis
  proof (cases "cf_await f")
    case (Sending reg r k)
    have "owns (w_mem w) (record_charges r + (queued_charges (w_hand w) + Z))"
      using assms(2) Sending by (simp add: fut_held_def add.assoc)
    from drop_record_law [OF assms(1) this, of wr] obtain w1 where "drop_record wr w r = Some w1" "core_step w w1"
      "owns (w_mem w1) (queued_charges (w_hand w) + Z)" "w_hand w1 = w_hand w" by blast
    then show ?thesis using Sending request [of w1 Queue reg] by (simp add: drop_conn_def)
  next
    case (Copying reg bs k)
    then show ?thesis using request [of w Bytes reg] refl assms(2) by (simp add: drop_conn_def fut_held_def)
  qed (use refl assms(2) in \<open>auto simp: drop_conn_def fut_held_def\<close>)
qed

end
