(* ===== verification/Connection_Tasks.thy ===== *)
theory Connection_Tasks
  imports Driver_Invariant Connection_Future
begin

text \<open>
  The futures of \<open>connection.rs\<close> as the tasks of the worker: \<open>conn_tasks\<close> is what the driver calls,
  and its interpretation of \<open>connection_tasks\<close> discharges everything the driver relies on.
\<close>

definition conn_tasks :: "conn_source \<Rightarrow> conn_future task_ops" where
  "conn_tasks src = \<lparr>start_task = start_conn, poll_task = poll_conn src, drop_task = drop_conn\<rparr>"

definition fut_pollable :: "conn_future \<Rightarrow> TaskContext \<Rightarrow> bool" where
  "fut_pollable f x \<longleftrightarrow> fut_ok f x \<and> cf_await f \<noteq> Returned"

lemma fut_ok_progress_ok: "fut_ok f x \<Longrightarrow> progress_ok (tc_progress x)"
  by (simp add: fut_ok_def counters_ok_def progress_ok_def)

interpretation conn_tasks: connection_tasks "conn_tasks src" fut_pollable fut_held for src
proof
  fix pc prof i peer t k x
  show "fut_pollable (start_task (conn_tasks src) pc prof (TaskContext_new i peer t k)) (TaskContext_new i peer t k)"
    by (simp add: conn_tasks_def fut_pollable_def fut_ok_start) (simp add: start_conn_def)
  show "fut_held (start_task (conn_tasks src) pc prof x) = {#}"
    by (simp add: conn_tasks_def start_conn_def fut_held_def)
next
  fix f x Z wr n and c :: worker
  assume f: "fut_pollable f x" and ok: "ready_ok (ready (w_sched c))" "polled (w_sched c) (tc_token x)"
    "owns (w_mem c) (fut_held f + queued_charges (w_hand c) + Z)"
  let ?x = "reset_turn x n"
  have "fut_ok f ?x" "cf_await f \<noteq> Returned" "polled (w_sched c) (tc_token ?x)"
    using f ok(2) by (simp_all add: fut_pollable_def fut_ok_def reset_turn_def)
  from poll_conn_law [OF ok(1) this(3) ok(3) this(1,2), of src wr] obtain c' f' x' p where
    p: "poll_conn src wr c f ?x = Some (c', f', x', p)" "fut_kept c ?x c' f' x' Z (p \<noteq> Pending)"
      "cf_await f' = Returned \<longleftrightarrow> p \<noteq> Pending" by blast
  then show "\<exists>c' f' x' p. poll_task (conn_tasks src) wr c f ?x = Some (c', f', x', p) \<and> core_step c c' \<and>
      owns (w_mem c') (fut_held f' + queued_charges (w_hand c') + Z) \<and> tc_token x' = tc_token x \<and> tc_id x' = tc_id x \<and>
      progress_ok (tc_progress x') \<and>
      (p = Pending \<longrightarrow> fut_pollable f' x' \<and> states (ready (w_sched c')) (tc_token x) \<noteq> Some Running)"
    by (auto simp: conn_tasks_def fut_kept_def reset_turn_def fut_pollable_def intro: fut_ok_progress_ok)
next
  fix f Z wr x and c :: worker
  assume "ready_ok (ready (w_sched c))" "owns (w_mem c) (fut_held f + queued_charges (w_hand c) + Z)"
  then show "\<exists>c'. drop_task (conn_tasks src) wr c f x = Some c' \<and> core_step c c' \<and> owns (w_mem c') (queued_charges (w_hand c') + Z)"
    using drop_conn_law by (simp add: conn_tasks_def)
qed

end
