(* ===== verification/Receiver_Run.thy ===== *)
theory Receiver_Run
  imports Connection_Tasks
begin

text \<open>
  Whole runs of a receiver: from a successful \<open>bind_with_profile\<close> to the summary that \<open>run_with\<close>
  returns.  The properties combine the worker invariant with the end of a run, for the connection
  futures of \<open>connection.rs\<close>.
\<close>

section \<open>From binding to the first turn\<close>

lemma bind_facts:
  assumes "bind_with_profile b nb la n l m prof = (n', Inr r)"
  shows "max READ_BYTES (payload_capacity l) \<le> capacity (budget m)" "rc_limits r = l" "rc_profile r = prof" "rc_instance r = n"
    "n' = n + 1" "n' \<le> U64_MAX" "rc_controls r = ConnectionControls_new n n" "w_mem (rc_core r) = m"
    "chan_senders (w_hand (rc_core r)) = 1" "chan_queue (w_hand (rc_core r)) = []" "signals (w_sched (rc_core r)) = Signals_new"
  using assms by (auto simp: bind_with_profile_def Let_def checked_add_def channel_def Scheduler_new_def
      split: if_splits sum.splits)

lemma start_inv:
  assumes "rc_controls r = ConnectionControls_new n n" "rc_instance r = n" "chan_senders (w_hand c) = 1" "chan_queue (w_hand c) = []"
    "w_sched c = Scheduler_new (max_connections (rc_limits r)) g" "owns (w_mem c) (mset xs)"
  shows "worker_inv held good (Worker_new r xs c)" "balanced (Worker_new r xs c)"
proof -
  show "balanced (Worker_new r xs c)" by (simp add: balanced_def Worker_new_def RunSummary_default_def)
  show "worker_inv held good (Worker_new r xs c)"
    using assms ready_ok_new [of "max_connections (rc_limits r)" g] controls_ok_new [of n n]
    by (simp add: worker_inv_def Worker_new_def live_tokens_def raw_balanced_def RunSummary_default_def worker_charges_def
        queued_charges_def Let_def)
       (simp add: Scheduler_new_def ConnectionControls_new_def cell_of_def fun_eq_iff)
qed

section \<open>The end of a run\<close>

definition final_summary :: "ReceiverError + RunSummary \<Rightarrow> RunSummary" where
  "final_summary res = (case res of Inl e \<Rightarrow> re_summary e | Inr s \<Rightarrow> s)"

text \<open>What holds of every run that has ended.\<close>

definition accounted :: "'f Worker \<Rightarrow> RunSummary \<Rightarrow> bool" where
  "accounted w s \<longleftrightarrow>
     raw_bytes_read s = raw_bytes_handed_off s + undelivered_raw_bytes s \<and>
     (counters_complete s \<longrightarrow> accepted s = ended s + abandoned s) \<and>
     live_at_stop s \<le> max_connections (wk_limits w) \<and>
     retained_output_bytes s = budget_used (budget (w_mem (wk_core w))) \<and>
     owns (w_mem (wk_core w)) (queued_charges (w_hand (wk_core w)) + mset (wk_outside w))"

definition released :: "'f Worker \<Rightarrow> bool" where
  "released w \<longleftrightarrow> wk_live w = [] \<and> dom (states (ready (w_sched (wk_core w)))) = {} \<and>
     stopping (wk_controls w) \<and> entries (wk_controls w) = [] \<and> None \<notin> set (cells (wk_controls w))"

lemma no_open_cells: "controls_ok c \<Longrightarrow> None \<notin> set (cells (stop_all c))"
  using stop_all_fields [of c] by (auto simp: in_set_conv_nth controls_ok_def stop_all_def)

lemma leave_run_simps [simp]:
  "released (leave_run w) = released w" "accounted (leave_run w) s = accounted w s" "wk_limits (leave_run w) = wk_limits w"
  "chan_senders (w_hand (wk_core (leave_run w))) = chan_senders (w_hand (wk_core w)) - 1"
  "subscriber (budget_state (budget (w_mem (wk_core (leave_run w))))) = None"
  using owns_subscriber [where m = "w_mem (wk_core w)" and k = None]
  by (simp_all add: leave_run_def released_def accounted_def with_signals_def drop_subscription_def budget_used_def Let_def)
     (simp_all add: drop_sender_def)

context connection_tasks
begin

lemma run_finish_ok:
  assumes inv: "worker_inv held good w" and bal: "result \<noteq> Inl CounterExhausted \<Longrightarrow> balanced w"
  shows "\<exists>w' res. run_finish ops wr w result = Some (Some (w', res)) \<and> released w' \<and> accounted w' (final_summary res) \<and>
    chan_senders (w_hand (wk_core w')) = 1 \<and> wk_limits w' = wk_limits w \<and>
    (case res of Inr s \<Rightarrow> (\<exists>cause. result = Inr cause \<and> stopped_by s = Some cause)
     | Inl e \<Rightarrow> result = Inl (re_failure e) \<or> re_failure e = CounterExhausted)"
proof -
  let ?s = "(if result = Inl CounterExhausted then (wk_summary w)\<lparr>counters_complete := False\<rparr> else wk_summary w)\<lparr>
      live_at_stop := length (wk_live w)\<rparr>"
  let ?w = "w\<lparr>wk_summary := ?s\<rparr>"
  have inv1: "worker_inv held good ?w" using inv_raw [OF inv] by (intro worker_inv_summary [OF inv]) (simp add: raw_balanced_def)
  have bal1: "balanced ?w" using bal by (auto simp: balanced_def)
  obtain w1 r where r: "retire_all ops wr ?w ReceiverStopped = Some (Some (w1, r))" "worker_inv held good w1" "same_setup ?w w1"
    "wk_live w1 = []" "balanced w1" "r = Inr () \<or> r = Inl CounterExhausted" "live_at_stop (wk_summary w1) = length (wk_live w)"
  proof -
    obtain w1 r where "retire_all_loop ops wr ?w ReceiverStopped None = Some (Some (w1, r))" "worker_inv held good w1" "same_setup ?w w1"
      "wk_live w1 = []" "balanced ?w \<longrightarrow> balanced w1" "r = Inr () \<or> r = Inl CounterExhausted \<or> (\<exists>f. None = Some f \<and> r = Inl f)"
      using retire_all_returns [OF _ inv1, of ReceiverStopped wr None] by blast
    then show ?thesis using bal1 by (intro that [of w1 r]) (auto simp: retire_all_def same_setup_def)
  qed
  let ?w2 = "w1\<lparr>wk_controls := stop_all (wk_controls w1),
      wk_summary := (wk_summary w1)\<lparr>retained_output_bytes := budget_used (budget (w_mem (wk_core w1)))\<rparr>\<rparr>"
  note i = r(2) [unfolded worker_inv_def Let_def]
  have rel: "released ?w2" using i r(4) no_open_cells by (auto simp: released_def live_tokens_def stop_all_def)
  have acc: "accounted ?w2 (wk_summary ?w2)"
    using i r(3-5,7) inv by (simp add: accounted_def raw_balanced_def balanced_def same_setup_def worker_inv_def worker_charges_def Let_def)
  have rel': "released (?w2\<lparr>wk_summary := s\<rparr>)" for s using rel by (simp add: released_def)
  have acc': "accounted (?w2\<lparr>wk_summary := s\<rparr>) ((wk_summary ?w2)\<lparr>stopped_by := c\<rparr>)" for s c using acc by (simp add: accounted_def)
  have senders: "chan_senders (w_hand (wk_core w1)) = 1" using i r(4) by simp
  have lim: "wk_limits w1 = wk_limits w" using r(3) by (simp add: same_setup_def)
  show ?thesis
  proof (cases "\<exists>cause. result = Inr cause \<and> r = Inr ()")
    case True
    then obtain cause where c: "result = Inr cause" "r = Inr ()" by blast
    let ?w3 = "?w2\<lparr>wk_summary := (wk_summary ?w2)\<lparr>stopped_by := Some cause\<rparr>\<rparr>"
    have "run_finish ops wr w result = Some (Some (?w3, Inr (wk_summary ?w3)))"
      using r(1) c by (simp add: run_finish_def yields_def)
    then show ?thesis using rel' acc' [of "wk_summary ?w3" "Some cause"] senders lim c
      by (intro exI [of _ ?w3] exI [of _ "Inr (wk_summary ?w3)"]) (simp add: final_summary_def)
  next
    case False
    define f where "f = (case result of Inl f \<Rightarrow> f | Inr _ \<Rightarrow> CounterExhausted)"
    have "run_finish ops wr w result = Some (Some (?w2, Inl \<lparr>re_failure = f, re_summary = wk_summary ?w2\<rparr>))"
      using r(1,6) False by (cases result) (auto simp: run_finish_def yields_def f_def Let_def)
    then show ?thesis using rel acc senders lim
      by (intro exI [of _ ?w2] exI [of _ "Inl \<lparr>re_failure = f, re_summary = wk_summary ?w2\<rparr>"])
         (cases result; simp add: final_summary_def f_def)
  qed
qed

lemma run_with_ok:
  assumes b: "bind_with_profile b nb la n l m prof = (n', Inr r)" and sub: "subscriber (budget_state (budget m)) = None"
    and m: "owns m (mset xs)"
  shows "case run_with ops io (Inr ()) (Inr ()) (Inr ()) r xs a of
      None \<Rightarrow> True
    | Some None \<Rightarrow> False
    | Some (Some (w, res)) \<Rightarrow>
        released w \<and> wk_limits w = l \<and> accounted w (final_summary res) \<and> chan_senders (w_hand (wk_core w)) = 0 \<and>
        subscriber (budget_state (budget (w_mem (wk_core w)))) = None"
proof -
  note f = bind_facts [OF b]
  let ?g = "attach Signals_new"
  let ?c = "(rc_core r)\<lparr>w_mem := m\<lparr>budget := (budget m)\<lparr>budget_state := (budget_state (budget m))\<lparr>subscriber := Some (signal_waker SigBytes)\<rparr>\<rparr>\<rparr>,
      w_sched := Scheduler_new (max_connections l) ?g\<rparr>"
  let ?w = "Worker_new r xs ?c :: 'f Worker"
  have eval: "run_with ops io (Inr ()) (Inr ()) (Inr ()) r xs a =
      and_then (drive ops io ?w a) (\<lambda>(w, a, result).
        and_then (run_finish ops (io_wake io a) w result) (\<lambda>(w, res). yields (leave_run w, res)))"
    using f(2,8,11) sub by (simp add: run_with_def with_signals_def subscribe_def Let_def Scheduler_new_def)
  have start: "worker_inv held sound ?w" "balanced ?w"
    using start_inv [of r n ?c ?g xs] f m owns_subscriber [where m = m and k = "Some (signal_waker SigBytes)" and X = "mset xs"] by simp_all
  have lim: "wk_limits ?w = l" using f(2) by (simp add: Worker_new_def)
  show ?thesis
  proof (cases "drive ops io ?w a")
    case None
    then show ?thesis using eval by (simp add: and_then_def)
  next
    case (Some y)
    from drive_ok [OF start(1) Some] obtain w a' result
      where d: "y = Some (w, a', result)" "keeps held sound ?w w (failure_of result)" by (elim exE conjE)
    have inv: "worker_inv held (good_after sound (failure_of result)) w" using d(2) by (simp add: keeps_def)
    have "result \<noteq> Inl CounterExhausted \<Longrightarrow> balanced w"
      using d(2) start(2) by (cases result) (auto simp: keeps_def)
    then obtain w' res where w': "run_finish ops (io_wake io a') w result = Some (Some (w', res))" "released w'"
      "accounted w' (final_summary res)" "chan_senders (w_hand (wk_core w')) = 1" "wk_limits w' = wk_limits w"
      using run_finish_ok [OF inv] by blast
    have "wk_limits w' = l" using w'(5) d(2) lim by (simp add: keeps_def same_setup_def)
    moreover have "run_with ops io (Inr ()) (Inr ()) (Inr ()) r xs a = Some (Some (leave_run w', res))"
      unfolding eval Some d(1) by (simp add: w'(1) yields_def)
    ultimately show ?thesis using w'(2-4) by simp
  qed
qed

text \<open>A raised stop ends the loop at once and the run with its cause or an exhausted counter.\<close>

lemma stopped_run:
  assumes inv: "worker_inv held sound w" and "balanced w" "stop_cause w = Some cause" "failure (wk_signals w) = None"
  shows "\<exists>w1 w' res. drive ops io w a = Some (Some (w1, a, Inr cause)) \<and> wk_live w1 = wk_live w \<and>
    run_finish ops wr w1 (Inr cause) = Some (Some (w', res)) \<and> wk_live w' = [] \<and>
    (case res of Inr s \<Rightarrow> stopped_by s = Some cause | Inl e \<Rightarrow> re_failure e = CounterExhausted)"
proof -
  let ?w = "w\<lparr>wk_core := with_signals (wk_core w) ((wk_signals w)\<lparr>failure := None\<rparr>)\<rparr>"
  have k: "keeps held sound w ?w None" by (rule keeps_core [OF inv sched_step_signals [OF inv_ready [OF inv]]])
  have "stop_cause ?w = Some cause"
    using assms(3) by (simp add: stop_cause_def with_signals_def stop_requested_def signal_disconnected_def split: if_splits)
  then have "drive_turn ops io w a = Some (?w, a, Some (Inr cause))"
    using assms(4) by (simp add: drive_turn_def on_signals_def take_failure_def)
  then have "drive ops io w a = Some (Some (?w, a, Inr cause))" by (simp add: drive.simps)
  moreover obtain w' res where "run_finish ops wr ?w (Inr cause) = Some (Some (w', res))" "released w'"
    "case res of Inr s \<Rightarrow> (\<exists>c. (Inr cause :: ReceiverFailure + StopCause) = Inr c \<and> stopped_by s = Some c)
     | Inl e \<Rightarrow> Inr cause = Inl (re_failure e) \<or> re_failure e = CounterExhausted"
    using run_finish_ok [OF keepsD [OF k], of "Inr cause" wr] k assms(2) by (auto simp: keeps_def)
  ultimately show ?thesis
    by (intro exI [of _ ?w] exI [of _ w'] exI [of _ res]) (auto simp: released_def split: sum.splits)
qed

end

section \<open>Properties\<close>


text \<open>
  C35: A stop request or the loss of the consumer ends the run: the next turn returns that cause
  at once, without accepting or polling anything more, and the end of the run, which retires
  every live connection, always returns with that cause or with an exhausted counter.
\<close>

theorem stop_ends_run:
  assumes "worker_inv fut_held fut_pollable w" "balanced w"
    and "stop_cause w = Some cause" "failure (wk_signals w) = None"
  shows "\<exists>w1 w' res. drive (conn_tasks src) io w a = Some (Some (w1, a, Inr cause)) \<and> wk_live w1 = wk_live w \<and>
    run_finish (conn_tasks src) wr w1 (Inr cause) = Some (Some (w', res)) \<and> wk_live w' = [] \<and>
    (case res of Inr s \<Rightarrow> stopped_by s = Some cause | Inl e \<Rightarrow> re_failure e = CounterExhausted)"
  using assms by (rule conn_tasks.stopped_run)


section \<open>Witnesses\<close>

text \<open>Peers that hang up after one frame, and an operating system with one peer that then reports a stop.\<close>

definition demo_source :: conn_source where
  "demo_source = \<lparr>cs_read = (\<lambda>i n. Inr [0, 0, 0]), cs_clock = (\<lambda>i n. n)\<rparr>"

definition demo_os :: "nat AcceptIo" where
  "demo_os =
     \<lparr>io_accept = (\<lambda>n. (n + 1, if n = 0 then Inr ''peer'' else Inl \<lparr>io_kind = WouldBlock, raw_os_error = Some EAGAIN\<rparr>)),
      io_register = (\<lambda>n t. (n, Inr ())), io_now = (\<lambda>n. n), io_poll = (\<lambda>n d. (n + 1, [ExtStop], Inr [])),
      io_wake = (\<lambda>n. Inr ()), io_kind_of = (\<lambda>c. OtherKind)\<rparr>"

definition demo_limits :: Limits where
  "demo_limits = \<lparr>max_connections = 2, queue_slots = 1, payload_capacity = 16, turn_steps = 8, fixed_buffer_capacity = 8224\<rparr>"

definition demo_memory :: memory where
  "demo_memory = mem (accounts_init 4096)"

definition demo_receiver :: Receiver where
  "demo_receiver = projr (snd (bind_with_profile (Inr ()) (Inr ()) (Inr ''local'') 1 demo_limits demo_memory PCM_8_KHZ))"

lemma demo_bind:
  "bind_with_profile (Inr ()) (Inr ()) (Inr ''local'') 1 demo_limits demo_memory PCM_8_KHZ = (2, Inr demo_receiver)"
  "subscriber (budget_state (budget demo_memory)) = None" "owns demo_memory (mset [])"
  using owns_init [of 4096]
  by (simp_all add: demo_receiver_def bind_with_profile_def demo_limits_def demo_memory_def accounts_init_def
      ByteBudget_new_def READ_BYTES_def checked_add_def U64_MAX_def USIZE_MAX_def)


text \<open>A worker at its start, with the stop signal raised.\<close>

definition stopped_worker :: "conn_future Worker" where
  "stopped_worker =
     Worker_new demo_receiver [] ((rc_core demo_receiver)\<lparr>w_sched := Scheduler_new 2 (Signals_new\<lparr>sig_stop := True\<rparr>)\<rparr>)"

lemma stopped_worker_ok:
  "worker_inv fut_held fut_pollable stopped_worker" "balanced stopped_worker"
  unfolding stopped_worker_def
  by (rule start_inv [where n = 1 and g = "Signals_new\<lparr>sig_stop := True\<rparr>"];
      use bind_facts [OF demo_bind(1)] demo_bind(3) in \<open>simp add: demo_limits_def numeral_2_eq_2\<close>)+

theorem stop_ends_run_witness:
  "\<exists>w1 w' res. drive (conn_tasks demo_source) demo_os stopped_worker 0 = Some (Some (w1, 0, Inr StopRequested)) \<and>
     run_finish (conn_tasks demo_source) (Inr ()) w1 (Inr StopRequested) = Some (Some (w', res)) \<and> wk_live w' = []"
proof -
  have "stop_cause stopped_worker = Some StopRequested" "failure (wk_signals stopped_worker) = None"
    by (simp_all add: stop_cause_def stopped_worker_def Worker_new_def Scheduler_new_def Signals_new_def stop_requested_def
        signal_disconnected_def)
  from stop_ends_run [OF stopped_worker_ok this, of demo_source demo_os 0 "Inr ()"] show ?thesis by blast
qed

definition full_os :: "nat AcceptIo" where
  "full_os = demo_os\<lparr>io_accept := (\<lambda>n. (n + 1, Inl \<lparr>io_kind = TooManyFiles, raw_os_error = Some EMFILE\<rparr>))\<rparr>"


end
