(* ===== verification/Future_Refinement.thy ===== *)
theory Future_Refinement
  imports Connection_Future "HOL-Library.Sublist"
begin

text \<open>
  The polled future refines the sequential task.  \<open>future_rest\<close> is what the sequential function of
  \<open>Connection_Task\<close> still does from an await point; resuming the future at an await never changes
  it, so that what the future has handed off after any number of polls, in whatever states of the
  worker, is what the sequential task hands off on the reads completed so far.
\<close>

section \<open>The rest of the task\<close>

definition seq_env :: "conn_source \<Rightarrow> nat \<Rightarrow> TaskContext \<Rightarrow> (nat \<Rightarrow> bool) \<Rightarrow> conn_env" where
  "seq_env src cap x acc =
     \<lparr>ce_id = tc_id x, ce_peer = tc_peer x, ce_retention = tc_retention x, ce_capacity = cap,
      ce_clock = cs_clock src (tc_id x), ce_accepts = acc\<rparr>"

definition seq_state :: "conn_future \<Rightarrow> TaskContext \<Rightarrow> Record list \<Rightarrow> conn" where
  "seq_state f x sent =
     \<lparr>cn_decoder = cf_decoder f, cn_session = cf_session f, cn_progress = tc_progress x, cn_sent = sent,
      cn_ticks = cf_ticks f\<rparr>"

definition decode_rest :: "conn_env \<Rightarrow> conn \<Rightarrow> bytes \<Rightarrow> read_result list \<Rightarrow> (conn \<times> bool) effect" where
  "decode_rest env s input rs =
     and_then (decode_chunk env s input) (\<lambda>(s, go). if go then receive_loop env s rs else yields (s, True))"

definition after_rest :: "conn_env \<Rightarrow> after_send \<Rightarrow> read_result list \<Rightarrow> conn \<times> bool \<Rightarrow> (conn \<times> bool) effect" where
  "after_rest env k rs r =
     (case r of (s, ok) \<Rightarrow>
      if \<not> ok then yields (s, True)
      else case k of
        ThenRead \<Rightarrow> receive_loop env s rs
      | ThenReturn \<Rightarrow> yields (s, True)
      | ThenDecode bs \<Rightarrow> decode_rest env s bs rs
      | ThenLoop bs \<Rightarrow> if identity (cn_session s) = None then yields (s, True) else decode_rest env s bs rs)"

definition send_rest ::
  "conn_env \<Rightarrow> conn \<Rightarrow> nat \<Rightarrow> instant \<Rightarrow> RecordKind \<Rightarrow> after_send \<Rightarrow> read_result list \<Rightarrow> (conn \<times> bool) effect" where
  "send_rest env s offset at kind k rs = and_then (Some (send_at env s offset at kind)) (after_rest env k rs)"

definition copy_rest ::
  "conn_env \<Rightarrow> conn \<Rightarrow> bytes \<Rightarrow> after_copy \<Rightarrow> BudgetError + OwnedBytes \<Rightarrow> read_result list \<Rightarrow> (conn \<times> bool) effect" where
  "copy_rest env s bs k res rs =
     (case k of
        CopyWire start at \<Rightarrow>
          (case res of
             Inr got \<Rightarrow> send_rest env s start at (RWire got) (ThenDecode bs) rs
           | Inl e \<Rightarrow> and_then (Some (conn_end env s start (identity (cn_session s)) (ResourceRefused e))) (after_rest env ThenReturn rs))
      | CopyAudio offset at uuid rate rest \<Rightarrow>
          (case res of
             Inr got \<Rightarrow> send_rest env s offset at (RAudio uuid rate got) (ThenLoop rest) rs
           | Inl e \<Rightarrow> send_rest env s offset at (REnded (Some uuid) (ResourceRefused e)) (ThenLoop rest) rs)
      | CopyPeerError offset at uuid rest \<Rightarrow>
          (case res of
             Inr got \<Rightarrow> send_rest env s offset at (REnded uuid (EndPeerError got)) (ThenLoop rest) rs
           | Inl e \<Rightarrow> send_rest env s offset at (REnded uuid (ResourceRefused e)) (ThenLoop rest) rs))"

definition frame_rest :: "conn_env \<Rightarrow> conn \<Rightarrow> nat \<Rightarrow> RawEnvelope \<Rightarrow> bytes \<Rightarrow> read_result list \<Rightarrow> (conn \<times> bool) effect" where
  "frame_rest env s offset raw rest rs =
     and_then (Some (handle_frame env s offset raw)) (\<lambda>(s, go). if go then decode_rest env s rest rs else yields (s, True))"

definition future_rest ::
  "conn_env \<Rightarrow> conn_future \<Rightarrow> TaskContext \<Rightarrow> Record list \<Rightarrow> read_result list \<Rightarrow> (conn \<times> bool) effect" where
  "future_rest env f x sent rs =
     (let s = seq_state f x sent in
      case cf_await f of
        Unpolled \<Rightarrow> and_then (Some (conn_send env s 0 (RConnected (ce_peer env)))) (after_rest env ThenRead rs)
      | Sending reg r k \<Rightarrow> send_rest env s (offset_get (rec_offset r)) (observed_at r) (rec_kind r) k rs
      | Reading \<Rightarrow> receive_loop env s rs
      | Copying reg bs k \<Rightarrow> copy_rest env s bs k (conn_copy env bs) rs
      | Stepping input \<Rightarrow> decode_rest env s input rs
      | Typing offset raw rest \<Rightarrow> frame_rest env s offset raw rest rs
      | Returned \<Rightarrow> yields (s, True))"

text \<open>The reads that completed among the first \<open>n\<close> calls.\<close>

fun read_done :: "io_error + bytes \<Rightarrow> read_result list" where
  "read_done (Inl e) = (if io_kind e = WouldBlock \<or> io_kind e = Interrupted then [] else [ReadErr e])"
| "read_done (Inr bs) = [ReadBytes (take READ_BYTES bs)]"

definition completed_reads :: "conn_source \<Rightarrow> ConnectionId \<Rightarrow> nat \<Rightarrow> read_result list" where
  "completed_reads src i n = concat (map (\<lambda>k. read_done (cs_read src i k)) [0..<n])"

section \<open>Sending\<close>

lemma send_at_pending [simp]:
  "send_at env (s\<lparr>cn_progress := (cn_progress s)\<lparr>pending_record := True\<rparr>\<rparr>) offset at kind = send_at env s offset at kind"
  by (simp add: send_at_def Let_def split: option.split)

lemma seq_state_simps [simp]:
  "cn_decoder (seq_state f x sent) = cf_decoder f" "cn_session (seq_state f x sent) = cf_session f"
  "cn_progress (seq_state f x sent) = tc_progress x" "cn_sent (seq_state f x sent) = sent" "cn_ticks (seq_state f x sent) = cf_ticks f"
  "seq_state (f\<lparr>cf_await := a\<rparr>) x sent = seq_state f x sent"
  "seq_state (f\<lparr>cf_reads := n\<rparr>) x sent = seq_state f x sent"
  "seq_state (f\<lparr>cf_ticks := m\<rparr>) x sent = (seq_state f x sent)\<lparr>cn_ticks := m\<rparr>"
  "seq_state (f\<lparr>cf_session := ses\<rparr>) x sent = (seq_state f x sent)\<lparr>cn_session := ses\<rparr>"
  "seq_state (f\<lparr>cf_decoder := d\<rparr>) x sent = (seq_state f x sent)\<lparr>cn_decoder := d\<rparr>"
  "seq_state f (x\<lparr>tc_progress := p\<rparr>) sent = (seq_state f x sent)\<lparr>cn_progress := p\<rparr>"
  by (simp_all add: seq_state_def)

lemma rest_send_at:
  assumes "fut_send_at f x offset at kind k = (f', x')"
  shows "future_rest env f' x' sent rs = send_rest env (seq_state f x sent) offset at kind k rs"
  using assms send_at_pending [of env "seq_state f x sent" offset at kind]
  by (auto simp: fut_send_at_def send_start_def future_rest_def send_rest_def)

lemma rest_send:
  assumes "fut_send src f x offset kind k = (f', x')" "ce_clock env = cs_clock src (tc_id x)"
  shows "future_rest env f' x' sent rs =
    and_then (Some (conn_send env (seq_state f x sent) offset kind)) (after_rest env k rs)"
  using assms(1) rest_send_at [of "f\<lparr>cf_ticks := cf_ticks f + 1\<rparr>" x offset "cs_clock src (tc_id x) (cf_ticks f)" kind k f' x' env sent rs]
  by (simp add: fut_send_def fut_now_def conn_send_def conn_now_def send_rest_def assms(2))

lemma rest_end:
  assumes "fut_end src f x offset uuid reason = (f', x')" "ce_clock env = cs_clock src (tc_id x)"
  shows "future_rest env f' x' sent rs =
    and_then (Some (conn_end env (seq_state f x sent) offset uuid reason)) (\<lambda>(s, _). yields (s, True))"
proof -
  have "after_rest env ThenReturn rs = (\<lambda>(s, _). yields (s, True))" by (auto simp: after_rest_def fun_eq_iff)
  then show ?thesis using rest_send [OF assms(1) [unfolded fut_end_def] assms(2), of sent rs] by (simp add: conn_end_def)
qed

section \<open>Between two awaits\<close>

lemma and_then_assoc: "and_then (and_then m f) g = and_then m (\<lambda>x. and_then (f x) g)"
  by (simp add: and_then_def split: option.split)

lemma and_then_run [simp]:
  "and_then (Some None) g = Some None"
  "and_then (Some (m \<bind> f)) g = and_then (Some m) (\<lambda>x. and_then (Some (f x)) g)"
  "and_then (Some (map_option h m)) g = and_then (Some m) (g \<circ> h)"
  by (simp_all add: and_then_def split: option.split)

lemma and_then_cong: "(\<And>x. f x = g x) \<Longrightarrow> and_then m f = and_then m g"
  by (simp add: and_then_def split: option.split)

text \<open>Ending the task ignores whether the last record was accepted.\<close>

lemma rest_return: "after_rest env ThenReturn rs = (\<lambda>(s, _). yields (s, True))"
  by (auto simp: after_rest_def fun_eq_iff)

lemma rest_stop:
  "and_then (Some (stop_with m)) (\<lambda>(s, go). if go then g s else yields (s, True)) = and_then (Some m) (\<lambda>(s, _). yields (s, True))"
  by (auto simp: stop_with_def intro!: and_then_cong)

lemma rest_loop:
  "after_rest env (ThenLoop rest) rs =
     (\<lambda>(s, ok). if ok \<and> identity (cn_session s) \<noteq> None then decode_rest env s rest rs else yields (s, True))"
  by (auto simp: after_rest_def fun_eq_iff)

lemma decode_rest_Nil: "decode_rest env s [] rs = receive_loop env s rs"
  by (simp add: decode_rest_def decode_chunk.simps [of env s "[]"])

lemma rest_sent: "future_rest env (resume_sent f k ok) x sent rs = after_rest env k rs (seq_state f x sent, ok)"
  by (auto simp: resume_sent_def after_rest_def future_rest_def enter_loop_def decode_rest_Nil Let_def split: after_send.split)

lemma rest_copied:
  assumes "resume_copied src f x bs k res = (f', x')" "ce_clock env = cs_clock src (tc_id x)"
  shows "future_rest env f' x' sent rs = copy_rest env (seq_state f x sent) bs k res rs"
  using assms
  by (cases k; cases res)
     (auto simp: resume_copied_def copy_rest_def fut_end_at_def rest_return dest!: rest_send_at rest_end)

lemma rest_observe:
  assumes "resume_observe src f x offset ev rest = (f', x')" "ce_clock env = cs_clock src (tc_id x)"
  shows "future_rest env f' x' sent rs =
    and_then (Some (observe env (seq_state f x sent) offset ev)) (after_rest env (ThenLoop rest) rs)"
proof -
  have copies: "future_rest env (g\<lparr>cf_await := Copying False bs k\<rparr>) y sent rs = copy_rest env (seq_state g y sent) bs k (conn_copy env bs) rs" for g y bs k
    by (simp add: future_rest_def)
  show ?thesis
  proof (cases ev)
    case (EvEnded uuid reason)
    then show ?thesis using assms copies
      by (cases reason)
         (auto simp: resume_observe_def fut_now_def fut_end_at_def observe_def conn_now_def end_at_def copy_rest_def send_rest_def
           dest!: rest_send_at split: sum.split)
  qed (use assms copies in
      \<open>auto simp: resume_observe_def fut_now_def observe_def conn_now_def end_at_def copy_rest_def send_rest_def
         dest!: rest_send_at split: sum.split\<close>)
qed

lemma rest_typed:
  assumes "resume_typed src f x offset raw rest = Some (f', x')" "ce_clock env = cs_clock src (tc_id x)"
  shows "future_rest env f' x' sent rs = frame_rest env (seq_state f x sent) offset raw rest rs"
proof -
  obtain r where r: "typed raw = Some r" using assms(1) by (auto simp: resume_typed_def split: bind_splits)
  show ?thesis
  proof (cases r)
    case (Inl e)
    then show ?thesis using assms r by (auto simp: resume_typed_def frame_rest_def handle_frame_def rest_stop dest: rest_end)
  next
    case (Inr m)
    obtain ses res where rec: "receive (cf_session f) m = (ses, res)" by fastforce
    show ?thesis
    proof (cases res)
      case e: (Inl e)
      then show ?thesis using assms r Inr rec
        by (auto simp: resume_typed_def frame_rest_def handle_frame_def rest_stop dest: rest_end)
    next
      case e: (Inr event)
      then have "resume_observe src (f\<lparr>cf_session := ses\<rparr>) x offset event rest = (f', x')" using assms(1) r Inr rec by (simp add: resume_typed_def)
      from rest_observe [OF this assms(2)] show ?thesis using r Inr rec e
        by (auto simp: frame_rest_def handle_frame_def rest_loop intro!: and_then_cong)
    qed
  qed
qed

lemma rest_stepped:
  assumes "resume_stepped src f x input = Some (f', x')" "ce_clock env = cs_clock src (tc_id x)" "input \<noteq> []"
  shows "future_rest env f' x' sent rs = decode_rest env (seq_state f x sent) input rs"
proof -
  let ?s = "seq_state f x sent"
  obtain d rest frame p r where r: "RawDecoder_feed (cf_decoder f) input = Some (d, rest, frame)"
    "consume (tc_progress x) (length input - length rest) = Some (p, r)"
    using assms(1) by (auto simp: resume_stepped_def Let_def split: bind_splits)
  have unfold: "decode_rest env ?s input rs =
      and_then (Some (chunk_pass env ?s input)) (\<lambda>(s, q). case q of
        Inl go \<Rightarrow> if go then receive_loop env s rs else yields (s, True) | Inr left_over \<Rightarrow> decode_rest env s left_over rs)"
    using assms(3) by (simp add: decode_rest_def decode_chunk.simps [of env ?s input] and_then_def split: option.split sum.split)
  let ?f = "f\<lparr>cf_decoder := d\<rparr>" and ?x = "x\<lparr>tc_progress := p\<rparr>"
  have ended: "future_rest env f' x' sent rs = and_then (Some (conn_end env (seq_state ?f ?x sent) offset uuid reason)) (\<lambda>(s, _). yields (s, True))"
    if "fut_end src ?f ?x offset uuid reason = (f', x')" for offset uuid reason
    using rest_end [OF that] assms(2) by simp
  have pass: "chunk_pass env ?s input = (case r of
      Inl _ \<Rightarrow> map_option (\<lambda>(s, _). (s, Inl False)) (conn_end env (seq_state ?f ?x sent) (p_consumed p) (identity (cf_session f)) OffsetExhausted)
    | Inr offset \<Rightarrow> (case frame of
        Inr NeedInput \<Rightarrow> Some (seq_state ?f ?x sent, Inl True)
      | Inl e \<Rightarrow> map_option (\<lambda>(s, _). (s, Inl False)) (conn_end env (seq_state ?f ?x sent) offset (identity (cf_session f)) (EndDecode e))
      | Inr (Frame raw) \<Rightarrow> map_option (\<lambda>(s, go). (s, if go then Inr rest else Inl False)) (handle_frame env (seq_state ?f ?x sent) offset raw)))"
    using r by (auto simp: chunk_pass_def conn_offset_def Let_def map_conv_bind_option split: sum.split DecodeOutcome.split intro!: Option.bind_cong)
  have step: "(f', x') = (case r of
      Inl _ \<Rightarrow> fut_end src ?f ?x (p_consumed p) (identity (cf_session f)) OffsetExhausted
    | Inr offset \<Rightarrow> (case frame of
        Inr NeedInput \<Rightarrow> (?f\<lparr>cf_await := Reading\<rparr>, ?x)
      | Inl e \<Rightarrow> fut_end src ?f ?x offset (identity (cf_session f)) (EndDecode e)
      | Inr (Frame raw) \<Rightarrow> (?f\<lparr>cf_await := Typing offset raw rest\<rparr>, ?x)))"
    using assms(1) r by (auto simp: resume_stepped_def tc_offset_def Let_def split: sum.splits DecodeOutcome.splits)
  show ?thesis
  proof (cases "\<exists>offset e. r = Inr offset \<and> frame = Inr e")
    case True
    then obtain offset e where c: "r = Inr offset" "frame = Inr e" by blast
    then show ?thesis using step unfold pass
      by (cases e) (auto simp: future_rest_def frame_rest_def intro!: and_then_cong)
  next
    case False
    then consider u where "r = Inl u" | offset e where "r = Inr offset" "frame = Inl e" by (metis sum.exhaust)
    then show ?thesis
    proof cases
      case 1
      from ended [of "p_consumed p" "identity (cf_session f)" OffsetExhausted] show ?thesis
        using 1 step unfold pass by (auto intro!: and_then_cong)
    next
      case 2
      from ended [of offset "identity (cf_session f)" "EndDecode e"] show ?thesis
        using 2 step unfold pass by (auto intro!: and_then_cong)
    qed
  qed
qed

lemma rest_eof:
  assumes "resume_eof src f x = Some (f', x')" "ce_clock env = cs_clock src (tc_id x)"
  shows "future_rest env f' x' sent rs = and_then (Some (conn_eof env (seq_state f x sent))) (\<lambda>(s, _). yields (s, True))"
proof -
  obtain ses r where r: "end_of_input (cf_session f) = (ses, r)" by fastforce
  show ?thesis using assms r
    by (auto simp: resume_eof_def conn_eof_def conn_offset_def tc_offset_def Let_def dest!: rest_end
        split: sum.splits IncomingEvent.splits)
qed

lemma rest_read:
  assumes "resume_read src f x res = Some (f', x')" "ce_clock env = cs_clock src (tc_id x)"
  shows "future_rest env f' x' sent rs =
    receive_loop env (seq_state f x sent) ((case res of Inl e \<Rightarrow> ReadErr e | Inr bs \<Rightarrow> ReadBytes bs) # rs)"
proof (cases res)
  case (Inl e)
  then have "fut_end src f x (tc_offset x) (identity (cf_session f)) (Transport e) = (f', x')"
    using assms(1) by (simp add: resume_read_def)
  from rest_end [OF this assms(2)] show ?thesis using Inl by (simp add: conn_offset_def tc_offset_def)
next
  case (Inr bs)
  show ?thesis
  proof (cases "bs = []")
    case True
    then have "resume_eof src f x = Some (f', x')" using assms(1) Inr by (simp add: resume_read_def)
    from rest_eof [OF this assms(2)] show ?thesis using Inr True by simp
  next
    case False
    let ?f = "f\<lparr>cf_ticks := cf_ticks f + 1\<rparr>"
    obtain p q where pq: "observe_read (tc_progress x) (length bs) = (p, q)" by fastforce
    show ?thesis
    proof (cases q)
      case over: (Inl u)
      then have "fut_end src ?f (x\<lparr>tc_progress := p\<rparr>) (p_consumed p) (identity (cf_session f)) OffsetExhausted = (f', x')"
        using assms(1) Inr False pq by (simp add: resume_read_def fut_now_def)
      from rest_end [OF this] assms(2) show ?thesis using Inr False pq over
        by (simp add: conn_chunk_def conn_now_def rest_stop)
    next
      case start: (Inr start)
      let ?k = "CopyWire start (cs_clock src (tc_id x) (cf_ticks f))"
      have "f' = ?f\<lparr>cf_await := Copying False bs ?k\<rparr>" "x' = x\<lparr>tc_progress := p\<rparr>"
        using assms(1) Inr False pq start by (auto simp: resume_read_def fut_now_def)
      then show ?thesis using Inr False pq start assms(2)
        by (auto simp: future_rest_def copy_rest_def conn_chunk_def conn_now_def rest_stop rest_return send_rest_def after_rest_def
            decode_rest_def and_then_assoc Let_def intro!: and_then_cong split: sum.split)
    qed
  qed
qed

section \<open>One await\<close>

text \<open>What the record of a send in flight says of its sender.\<close>

definition await_ok :: "conn_future \<Rightarrow> TaskContext \<Rightarrow> bool" where
  "await_ok f x = (case cf_await f of
       Sending reg r k \<Rightarrow> connection r = tc_id x \<and> pending_record (tc_progress x)
     | Stepping bs \<Rightarrow> bs \<noteq> []
     | _ \<Rightarrow> True)"

lemma await_ok_fut [simp]:
  "await_ok (fst (fut_send src f x offset kind k)) (snd (fut_send src f x offset kind k))"
  "await_ok (fst (fut_send_at f x offset at kind k)) (snd (fut_send_at f x offset at kind k))"
  "await_ok (fst (fut_end src f x offset uuid reason)) (snd (fut_end src f x offset uuid reason))"
  "await_ok (fst (fut_end_at f x offset at uuid reason rest)) (snd (fut_end_at f x offset at uuid reason rest))"
  by (simp_all add: await_ok_def fut_defs)

lemma await_ok_sent: "await_ok (resume_sent f k ok) x"
  by (simp add: await_ok_def resume_sent_def enter_loop_def split: after_send.split)

lemma await_ok_eof: "resume_eof src f x = Some y \<Longrightarrow> await_ok (fst y) (snd y)"
  by (auto simp: resume_eof_def Let_def split: sum.splits prod.splits IncomingEvent.splits)

lemma await_ok_plain [simp]:
  "await_ok (f\<lparr>cf_await := Copying reg bs k\<rparr>) x" "await_ok (f\<lparr>cf_await := Typing offset raw rest\<rparr>) x" "await_ok (f\<lparr>cf_await := Reading\<rparr>) x"
  by (simp_all add: await_ok_def)

lemma await_ok_read: "resume_read src f x res = Some y \<Longrightarrow> await_ok (fst y) (snd y)"
  by (auto simp: resume_read_def dest: await_ok_eof split: sum.splits prod.splits if_splits)

lemma await_ok_copied: "resume_copied src f x bs k res = y \<Longrightarrow> await_ok (fst y) (snd y)"
  by (auto simp: resume_copied_def split: after_copy.split sum.split)

lemma await_ok_observe: "await_ok (fst (resume_observe src f x offset ev rest)) (snd (resume_observe src f x offset ev rest))"
  by (simp add: resume_observe_def split: prod.split IncomingEvent.split SessionEnd.split)

lemma await_ok_typed: "resume_typed src f x offset raw rest = Some y \<Longrightarrow> await_ok (fst y) (snd y)"
  by (auto simp: resume_typed_def Let_def await_ok_observe split: bind_splits sum.splits prod.splits)

lemma await_ok_stepped: "resume_stepped src f x input = Some y \<Longrightarrow> await_ok (fst y) (snd y)"
  by (auto simp: resume_stepped_def Let_def split: bind_splits sum.splits DecodeOutcome.splits)


text \<open>
  One future has come from another: the sequential rest of the first, on the reads completed in
  between, is the sequential rest of the second, for every consumer that accepts what was handed
  off, and that was gone where the future found it gone.
\<close>

definition same_conn :: "TaskContext \<Rightarrow> TaskContext \<Rightarrow> bool" where
  "same_conn x x' \<longleftrightarrow> tc_id x' = tc_id x \<and> tc_peer x' = tc_peer x \<and> tc_retention x' = tc_retention x"

definition consumer :: "Record list \<Rightarrow> bool \<Rightarrow> (nat \<Rightarrow> bool) \<Rightarrow> bool" where
  "consumer sent gone acc \<longleftrightarrow> (\<forall>n < length sent. acc n) \<and> (gone \<longrightarrow> \<not> acc (length sent))"

definition advances ::
  "conn_source \<Rightarrow> nat \<Rightarrow> conn_future \<Rightarrow> TaskContext \<Rightarrow> Record list \<Rightarrow> conn_future \<Rightarrow> TaskContext \<Rightarrow> Record list \<Rightarrow> bool \<Rightarrow> bool" where
  "advances src cap f x sent f' x' sent' gone \<longleftrightarrow>
     same_conn x x' \<and> prefix sent sent' \<and> await_ok f' x' \<and> (gone \<longrightarrow> cf_await f' = Returned) \<and>
     (\<exists>new. completed_reads src (tc_id x) (cf_reads f') = completed_reads src (tc_id x) (cf_reads f) @ new \<and>
        (\<forall>acc rs. consumer sent' gone acc \<longrightarrow>
           future_rest (seq_env src cap x acc) f x sent (new @ rs) = future_rest (seq_env src cap x acc) f' x' sent' rs))"

lemma seq_env_same: "same_conn x x' \<Longrightarrow> seq_env src cap x' acc = seq_env src cap x acc"
  by (simp add: same_conn_def seq_env_def)

lemma seq_env_simps [simp]:
  "ce_id (seq_env src cap x acc) = tc_id x" "ce_peer (seq_env src cap x acc) = tc_peer x" "ce_retention (seq_env src cap x acc) = tc_retention x"
  "ce_capacity (seq_env src cap x acc) = cap" "ce_clock (seq_env src cap x acc) = cs_clock src (tc_id x)" "ce_accepts (seq_env src cap x acc) = acc"
  by (simp_all add: seq_env_def)

lemma consumer_earlier: "prefix sent sent' \<Longrightarrow> consumer sent' gone acc \<Longrightarrow> consumer sent False acc"
  by (auto simp: consumer_def prefix_def)

lemma advances_trans:
  assumes "advances src cap f x sent f1 x1 sent1 False" "advances src cap f1 x1 sent1 f' x' sent' gone"
  shows "advances src cap f x sent f' x' sent' gone"
proof -
  have ids: "tc_id x1 = tc_id x" "same_conn x x1" "prefix sent1 sent'" using assms by (simp_all add: advances_def same_conn_def)
  obtain new1 where n1: "completed_reads src (tc_id x) (cf_reads f1) = completed_reads src (tc_id x) (cf_reads f) @ new1"
    "\<And>acc rs. consumer sent1 False acc \<Longrightarrow> future_rest (seq_env src cap x acc) f x sent (new1 @ rs) = future_rest (seq_env src cap x acc) f1 x1 sent1 rs"
    using assms(1) unfolding advances_def by blast
  obtain new2 where n2: "completed_reads src (tc_id x) (cf_reads f') = completed_reads src (tc_id x) (cf_reads f1) @ new2"
    "\<And>acc rs. consumer sent' gone acc \<Longrightarrow> future_rest (seq_env src cap x acc) f1 x1 sent1 (new2 @ rs) = future_rest (seq_env src cap x acc) f' x' sent' rs"
    using assms(2) seq_env_same [OF ids(2)] ids(1) unfolding advances_def by metis
  have "future_rest (seq_env src cap x acc) f x sent ((new1 @ new2) @ rs) = future_rest (seq_env src cap x acc) f' x' sent' rs"
    if "consumer sent' gone acc" for acc rs
    using n1(2) [OF consumer_earlier [OF ids(3) that], of "new2 @ rs"] n2(2) [OF that] by simp
  moreover have "completed_reads src (tc_id x) (cf_reads f') = completed_reads src (tc_id x) (cf_reads f) @ (new1 @ new2)"
    using n1(1) n2(1) by simp
  moreover have "same_conn x x'" "prefix sent sent'" using assms by (auto simp: advances_def same_conn_def intro: prefix_order.trans)
  ultimately show ?thesis using assms(2) unfolding advances_def by blast
qed

lemma future_rest_progress: "tc_progress x' = tc_progress x \<Longrightarrow> future_rest env f x' sent rs = future_rest env f x sent rs"
  by (simp add: future_rest_def seq_state_def)

text \<open>An operation that is pending changes nothing but its registration.\<close>

lemma advances_waits:
  assumes "poll_kept w x w' x' Y Z fin" "tc_progress x' = tc_progress x" "await_ok f' x'"
    and "\<And>env rs. future_rest env f' x sent rs = future_rest env f x sent rs"
    and "completed_reads src (tc_id x) (cf_reads f') = completed_reads src (tc_id x) (cf_reads f)"
  shows "advances src cap f x sent f' x' sent False"
  unfolding advances_def using assms future_rest_progress [OF assms(2)]
  by (simp add: same_conn_def poll_kept_def)

lemma advances_resumed:
  assumes "poll_kept w x w' x1 Y Z fin" "resumed x1 f' x'" "await_ok f' x'"
    and "completed_reads src (tc_id x) (cf_reads f') = completed_reads src (tc_id x) (cf_reads f) @ new"
    and "\<And>acc rs. future_rest (seq_env src cap x acc) f x sent (new @ rs) = future_rest (seq_env src cap x acc) f' x' sent rs"
  shows "advances src cap f x sent f' x' sent False"
  unfolding advances_def using assms by (auto simp: same_conn_def poll_kept_def resumed_def)

lemma completed_reads_Suc: "completed_reads src i (Suc n) = completed_reads src i n @ read_done (cs_read src i n)"
  by (simp add: completed_reads_def)


text \<open>Only a read advances the count of reads.\<close>

lemma reads_fut [simp]:
  "cf_reads (fst (fut_send src f x offset kind k)) = cf_reads f" "cf_reads (fst (fut_send_at f x offset at kind k)) = cf_reads f"
  "cf_reads (fst (fut_end src f x offset uuid reason)) = cf_reads f" "cf_reads (fst (fut_end_at f x offset at uuid reason rest)) = cf_reads f"
  by (simp_all add: fut_defs)

lemma resume_eof_reads: "resume_eof src f x = Some y \<Longrightarrow> cf_reads (fst y) = cf_reads f"
  by (auto simp: resume_eof_def Let_def split: sum.splits prod.splits IncomingEvent.splits)

lemma resume_read_reads: "resume_read src f x res = Some (f', x') \<Longrightarrow> cf_reads f' = cf_reads f"
  by (auto simp: resume_read_def fut_now_def fut_defs dest: resume_eof_reads split: sum.splits prod.splits if_splits)

lemma resume_copied_reads: "cf_reads (fst (resume_copied src f x bs k res)) = cf_reads f"
  by (simp add: resume_copied_def split: after_copy.split sum.split)

lemma resume_observe_reads: "cf_reads (fst (resume_observe src f x offset ev rest)) = cf_reads f"
  by (simp add: resume_observe_def fut_now_def split: IncomingEvent.split SessionEnd.split)

lemma resume_typed_reads: "resume_typed src f x offset raw rest = Some y \<Longrightarrow> cf_reads (fst y) = cf_reads f"
  by (auto simp: resume_typed_def Let_def resume_observe_reads split: bind_splits sum.splits prod.splits)

lemma resume_stepped_reads: "resume_stepped src f x input = Some y \<Longrightarrow> cf_reads (fst y) = cf_reads f"
  by (auto simp: resume_stepped_def Let_def split: bind_splits sum.splits DecodeOutcome.splits)

text \<open>What one await adds to the channel, and that it is a part of the sequential task.\<close>

definition hands_off ::
  "conn_source \<Rightarrow> nat \<Rightarrow> worker \<Rightarrow> conn_future \<Rightarrow> TaskContext \<Rightarrow> Record list \<Rightarrow> worker \<Rightarrow> conn_future \<Rightarrow> TaskContext \<Rightarrow> bool" where
  "hands_off src cap w f x sent w' f' x' \<longleftrightarrow>
     (\<exists>new gone. chan_queue (w_hand w') = chan_queue (w_hand w) @ new \<and> advances src cap f x sent f' x' (sent @ new) gone)"

lemma hands_off_quiet:
  "w_hand w' = w_hand w \<Longrightarrow> advances src cap f x sent f' x' sent gone \<Longrightarrow> hands_off src cap w f x sent w' f' x'"
  unfolding hands_off_def by (intro exI [of _ "[]"] exI [of _ gone]) simp

lemma hands_off_sending:
  assumes ok: "ready_ok (ready (w_sched w))" "polled (w_sched w) (tc_token x)" "owns (w_mem w) (fut_held f + queued_charges (w_hand w) + Z)"
    and f: "fut_ok f x" "await_ok f x" "cf_await f = Sending reg r k"
    and r: "conn_resume src wr w f x = Some (w', f', x', fin)"
  shows "hands_off src cap w f x sent w' f' x'"
proof -
  let ?n = "length (wire_part (rec_kind r))" and ?p = "tc_progress x" and ?k = "rec_kind r"
  have c: "counters_ok (Sending reg r k) ?p" using f by (simp add: fut_ok_def)
  have held: "fut_held f = record_charges r" using f(3) by (simp add: fut_held_def)
  have len: "wire_len ?k = Some ?n" using c by (intro wire_len_eval) (simp add: counters_ok_def)
  have fits: "wire_queued ?p + ?n \<le> U64_MAX" "records_queued ?p \<le> U64_MAX" using c by (simp_all add: counters_ok_def)
  have m: "owns (w_mem w) (record_charges r + queued_charges (w_hand w) + Z)" using ok(3) held by simp
  have pend: "connection r = tc_id x" "?p\<lparr>pending_record := True\<rparr> = ?p" using f(2,3) by (simp_all add: await_ok_def)
  let ?env = "seq_env src cap x" and ?send = "\<lambda>acc. send_at (seq_env src cap x acc) (seq_state f x sent) (offset_get (rec_offset r)) (observed_at r) ?k"
  have rest: "future_rest (?env acc) f x sent rs = and_then (Some (?send acc)) (after_rest (?env acc) k rs)" for acc rs
    using f(3) by (simp add: future_rest_def send_rest_def)
  have completed: "advances src cap f x sent (resume_sent f k b) x1 (sent @ new) gone"
    if "poll_kept w x w1 x1 Y Z True" "\<not> b \<longrightarrow> resume_sent f k b = f\<lparr>cf_await := Returned\<rparr>" "gone \<longrightarrow> \<not> b"
      "\<And>acc. consumer (sent @ new) gone acc \<Longrightarrow> ?send acc = Some (seq_state f x1 (sent @ new), b)" for w1 x1 Y b new gone
    unfolding advances_def
  proof (intro conjI exI allI impI)
    show "completed_reads src (tc_id x) (cf_reads (resume_sent f k b)) = completed_reads src (tc_id x) (cf_reads f) @ []"
      by (simp add: resume_sent_def)
    show "future_rest (?env acc) f x sent ([] @ rs) = future_rest (?env acc) (resume_sent f k b) x1 (sent @ new) rs"
      if "consumer (sent @ new) gone acc" for acc rs
      using rest \<open>consumer (sent @ new) gone acc \<Longrightarrow> _\<close> that by (simp add: rest_sent)
  qed (use that in \<open>simp_all add: same_conn_def poll_kept_def await_ok_sent\<close>)
  show ?thesis
  proof (cases rule: send_poll_law [OF ok(1,2) m fits(2) len fits(1), of wr reg])
    case (1 w1 c' reg')
    then have eq: "w' = w1" "f' = f\<lparr>cf_await := Sending reg' r k\<rparr>" "x' = c'" using r f(3) by (simp_all add: conn_resume_def)
    have "await_ok f' x'" using 1(2,3) f(2,3) eq by (simp add: await_ok_def poll_kept_def)
    moreover have "future_rest env f' x sent rs = future_rest env f x sent rs" for env rs using f(3) eq by (simp add: future_rest_def)
    ultimately have "advances src cap f x sent f' x' sent False" using advances_waits [OF 1(2,3)] eq by simp
    then show ?thesis using 1(4) eq by (intro hands_off_quiet) simp_all
  next
    case (2 w1 c')
    then have eq: "w' = w1" "f' = resume_sent f k True" "x' = c'" using r f(3) by (simp_all add: conn_resume_def)
    have rec: "\<lparr>connection = tc_id x, rec_offset = WireOffset (offset_get (rec_offset r)), observed_at = observed_at r, rec_kind = ?k\<rparr> = r"
      using pend(1) by (cases r, cases "rec_offset r") simp
    have "?send acc = Some (seq_state f c' (sent @ [r]), True)" if "consumer (sent @ [r]) False acc" for acc
      using that 2(4,5) len fits pend(2) rec
      by (simp add: send_at_def Let_def consumer_def checked_add_def note_sent_def sent_progress_def seq_state_def)
    from completed [OF 2(2) _ _ this] show ?thesis using 2(3) eq unfolding hands_off_def by auto
  next
    case (3 w1 c')
    then have eq: "w' = w1" "f' = resume_sent f k False" "x' = c'" using r f(3) by (simp_all add: conn_resume_def)
    have "?send acc = Some (seq_state f c' (sent @ []), False)" if "consumer (sent @ []) True acc" for acc
      using that 3(3,5) pend(2) by (simp add: send_at_def Let_def consumer_def checked_add_def seq_state_def)
    from completed [OF 3(2) _ _ this] show ?thesis using 3(4) eq by (intro hands_off_quiet) (auto simp: resume_sent_def)
  next
    case (4 w1 c')
    then have eq: "w' = w1" "f' = resume_sent f k False" "x' = c'" using r f(3) by (simp_all add: conn_resume_def)
    have "?send acc = Some (seq_state f c' (sent @ []), False)" if "consumer (sent @ []) False acc" for acc
      using that 4(3,5) pend(2) by (simp add: send_at_def Let_def consumer_def checked_add_def seq_state_def)
    from completed [OF 4(2) _ _ this] show ?thesis using 4(4) eq by (intro hands_off_quiet) (auto simp: resume_sent_def)
  qed
qed


lemma hands_off_reading:
  assumes ok: "ready_ok (ready (w_sched w))" "polled (w_sched w) (tc_token x)" "owns (w_mem w) (fut_held f + queued_charges (w_hand w) + Z)"
    and f: "cf_await f = Reading"
    and r: "conn_resume src wr w f x = Some (w', f', x', fin)"
  shows "hands_off src cap w f x sent w' f' x'"
proof -
  let ?got = "cs_read src (tc_id x) (cf_reads f)" and ?i = "tc_id x"
  let ?res = "map_sum id (take READ_BYTES) ?got"
  define g where "g = (if tc_remaining x = 0 then f else f\<lparr>cf_reads := cf_reads f + 1\<rparr>)"
  have m: "owns (w_mem w) ({#} + queued_charges (w_hand w) + Z)" using ok(3) f by (simp add: fut_held_def)
  have g: "cf_await g = Reading" "future_rest env g x sent rs = future_rest env f x sent rs" for env rs
    using f by (auto simp: g_def future_rest_def)
  show ?thesis
  proof (cases rule: read_poll_law [OF ok(1,2) m, of wr ?res])
    case (1 w1 c')
    then have eq: "w' = w1" "f' = g" "x' = c'" using r f by (simp_all add: conn_resume_def g_def [symmetric])
    have "read_done ?got = []" if "tc_remaining x \<noteq> 0" using 1(5) that by (cases ?got) auto
    then have "completed_reads src ?i (cf_reads g) = completed_reads src ?i (cf_reads f)"
      by (auto simp: g_def completed_reads_Suc)
    moreover have "await_ok g c'" using g(1) by (simp add: await_ok_def)
    ultimately have "advances src cap f x sent f' x' sent False" using advances_waits [OF 1(2,3)] eq g(2) by simp
    then show ?thesis using 1(4) eq by (intro hands_off_quiet) simp_all
  next
    case (2 c')
    then have eq: "w' = w" "resume_read src g c' ?res = Some (f', x')"
      using r f by (auto simp: conn_resume_def g_def split: bind_splits)
    let ?item = "case ?res of Inl e \<Rightarrow> ReadErr e | Inr bs \<Rightarrow> ReadBytes bs"
    have id: "tc_id c' = tc_id x" "cf_reads g = Suc (cf_reads f)" using 2(2,5) by (simp_all add: poll_kept_def g_def)
    have reads: "completed_reads src ?i (cf_reads g) = completed_reads src ?i (cf_reads f) @ [?item]"
      using 2(4) id(2) by (cases ?got) (auto simp: completed_reads_Suc)
    have "future_rest (seq_env src cap x acc) f x sent ([?item] @ rs) = future_rest (seq_env src cap x acc) f' x' sent rs" for acc rs
    proof -
      have "receive_loop env (seq_state g c' sent) = receive_loop env (seq_state f x sent)" for env
        using 2(3) by (simp add: g_def seq_state_def)
      then show ?thesis using rest_read [OF eq(2), of "seq_env src cap x acc" sent rs] id(1) f by (simp add: future_rest_def)
    qed
    moreover have "cf_reads f' = cf_reads g" using resume_read_reads [OF eq(2)] .
    ultimately have "advances src cap f x sent f' x' sent False"
      using advances_resumed [OF 2(2) resumed_read [OF eq(2), simplified] await_ok_read [OF eq(2), simplified], of src f "[?item]"] reads by simp
    then show ?thesis using eq by (intro hands_off_quiet) simp_all
  qed
qed


lemma hands_off_copying:
  assumes ok: "ready_ok (ready (w_sched w))" "polled (w_sched w) (tc_token x)" "owns (w_mem w) (fut_held f + queued_charges (w_hand w) + Z)"
    and f: "cf_await f = Copying reg bs k" and cap: "capacity (budget (w_mem w)) = cap"
    and r: "conn_resume src wr w f x = Some (w', f', x', fin)"
  shows "hands_off src cap w f x sent w' f' x'"
proof -
  have m: "owns (w_mem w) ({#} + queued_charges (w_hand w) + Z)" using ok(3) f by (simp add: fut_held_def)
  have completed: "advances src cap f x sent f' x' sent False"
    if kept: "poll_kept w x w1 c' Y Z True" "tc_progress c' = tc_progress x" and res: "resume_copied src f c' bs k res = (f', x')"
      "\<And>acc. res = conn_copy (seq_env src cap x acc) bs" for w1 c' Y res
  proof -
    have "tc_id c' = tc_id x" using kept(1) by (simp add: poll_kept_def)
    moreover have "seq_state f c' sent = seq_state f x sent" using kept(2) by (simp add: seq_state_def)
    ultimately have "future_rest (seq_env src cap x acc) f x sent ([] @ rs) = future_rest (seq_env src cap x acc) f' x' sent rs" for acc rs
      using rest_copied [OF res(1), of "seq_env src cap x acc" sent rs] f res(2) [of acc] by (simp add: future_rest_def)
    moreover have "completed_reads src (tc_id x) (cf_reads f') = completed_reads src (tc_id x) (cf_reads f) @ []"
      using resume_copied_reads [of src f c' bs k res] res(1) by simp
    ultimately show ?thesis
      using advances_resumed [OF kept(1) resumed_copied [OF res(1), simplified] await_ok_copied [OF res(1), simplified]] by blast
  qed
  show ?thesis
  proof (cases rule: copy_poll_law [OF ok(1,2) m, of wr bs reg])
    case (1 w1 c' reg')
    then have eq: "w' = w1" "f' = f\<lparr>cf_await := Copying reg' bs k\<rparr>" "x' = c'" using r f by (simp_all add: conn_resume_def)
    then have "future_rest env f' x sent rs = future_rest env f x sent rs" for env rs using f by (simp add: future_rest_def)
    then have "advances src cap f x sent f' x' sent False" using advances_waits [OF 1(2,3)] eq by simp
    then show ?thesis using 1(4) eq by (intro hands_off_quiet) simp_all
  next
    case (2 w1 c')
    then have "w' = w1" "resume_copied src f c' bs k (Inl (TooLarge (length bs) cap)) = (f', x')"
      using r f cap by (auto simp: conn_resume_def split: prod.splits)
    then show ?thesis using completed [OF 2(2,3)] 2(4,5) cap by (intro hands_off_quiet) (auto simp: conn_copy_def)
  next
    case (3 w1 c' o')
    then have eq: "w' = w1" "resume_copied src f c' bs k (Inr o') = (f', x')"
      using r f by (auto simp: conn_resume_def split: prod.splits)
    have "Inr o' = conn_copy (seq_env src cap x acc) bs" for acc using 3(2,5,6) cap by (simp add: conn_copy_def poll_kept_def)
    from completed [OF 3(2,3) eq(2) this] show ?thesis using 3(4) eq by (intro hands_off_quiet) simp_all
  qed
qed

lemma step_poll_hand: "step_poll wr w c = Some (w', c', p) \<Longrightarrow> w_hand w' = w_hand w"
  by (auto simp: step_poll_def permit_def split: bind_splits if_splits)

lemma hands_off_stepping:
  assumes ok: "ready_ok (ready (w_sched w))" "polled (w_sched w) (tc_token x)" "owns (w_mem w) (fut_held f + queued_charges (w_hand w) + Z)"
    and f: "await_ok f x" "cf_await f = Stepping bs \<or> cf_await f = Typing offset raw rest"
    and r: "conn_resume src wr w f x = Some (w', f', x', fin)"
  shows "hands_off src cap w f x sent w' f' x'"
proof -
  have m: "owns (w_mem w) ({#} + queued_charges (w_hand w) + Z)" using ok(3) f(2) by (auto simp: fut_held_def)
  show ?thesis
  proof (cases rule: step_poll_law [OF ok(1,2) m, of wr])
    case (1 w1)
    then have eq: "w' = w1" "f' = f" "x' = x" using r f(2) by (auto simp: conn_resume_def)
    have "advances src cap f x sent f' x' sent False" using advances_waits [OF 1(2) refl f(1)] eq by simp
    then show ?thesis using step_poll_hand [OF 1(1)] eq by (intro hands_off_quiet) simp_all
  next
    case (2 c')
    have id: "tc_id c' = tc_id x" "seq_state f c' sent = seq_state f x sent" using 2(2,3) by (simp_all add: poll_kept_def seq_state_def)
    from f(2) have "w' = w \<and> advances src cap f x sent f' x' sent False"
    proof
      assume a: "cf_await f = Stepping bs"
      then have eq: "w' = w" "resume_stepped src f c' bs = Some (f', x')" "bs \<noteq> []"
        using r 2(1) f(1) by (auto simp: conn_resume_def await_ok_def split: bind_splits)
      have "future_rest (seq_env src cap x acc) f x sent ([] @ rs) = future_rest (seq_env src cap x acc) f' x' sent rs" for acc rs
        using rest_stepped [OF eq(2) _ eq(3), of "seq_env src cap x acc" sent rs] id a by (simp add: future_rest_def)
      then show ?thesis
        using advances_resumed [OF 2(2) resumed_stepped [OF eq(2), simplified] await_ok_stepped [OF eq(2), simplified], of src f "[]"]
          resume_stepped_reads [OF eq(2)] eq(1) by simp
    next
      assume a: "cf_await f = Typing offset raw rest"
      then have eq: "w' = w" "resume_typed src f c' offset raw rest = Some (f', x')"
        using r 2(1) by (auto simp: conn_resume_def split: bind_splits)
      have "future_rest (seq_env src cap x acc) f x sent ([] @ rs) = future_rest (seq_env src cap x acc) f' x' sent rs" for acc rs
        using rest_typed [OF eq(2), of "seq_env src cap x acc" sent rs] id a by (simp add: future_rest_def)
      then show ?thesis
        using advances_resumed [OF 2(2) resumed_typed [OF eq(2), simplified] await_ok_typed [OF eq(2), simplified], of src f "[]"]
          resume_typed_reads [OF eq(2)] eq(1) by simp
    qed
    then show ?thesis by (auto intro: hands_off_quiet)
  qed
qed

lemma hands_off_resume:
  assumes ok: "ready_ok (ready (w_sched w))" "polled (w_sched w) (tc_token x)" "owns (w_mem w) (fut_held f + queued_charges (w_hand w) + Z)"
    and f: "fut_ok f x" "await_ok f x" "cf_await f \<noteq> Returned" and cap: "capacity (budget (w_mem w)) = cap"
    and r: "conn_resume src wr w f x = Some (w', f', x', fin)"
  shows "hands_off src cap w f x sent w' f' x'"
proof (cases "cf_await f")
  case Unpolled
  then have eq: "w' = w" "fut_send src f x 0 (RConnected (tc_peer x)) ThenRead = (f', x')"
    using r by (auto simp: conn_resume_def split: prod.splits)
  have "future_rest (seq_env src cap x acc) f x sent rs = future_rest (seq_env src cap x acc) f' x' sent rs" for acc rs
    using rest_send [OF eq(2), of "seq_env src cap x acc" sent rs] Unpolled by (simp add: future_rest_def)
  moreover have "same_conn x x'" "await_ok f' x'" "cf_reads f' = cf_reads f"
    using eq(2) await_ok_fut(1) [of src f x 0 "RConnected (tc_peer x)" ThenRead] by (auto simp: same_conn_def fut_defs)
  ultimately have "advances src cap f x sent f' x' sent False" by (simp add: advances_def)
  then show ?thesis using eq by (intro hands_off_quiet) simp_all
next
  case (Stepping bs)
  then show ?thesis using hands_off_stepping [OF ok f(2) _ r, of bs] by blast
next
  case (Typing offset raw rest)
  then show ?thesis using hands_off_stepping [OF ok f(2) _ r, of _ offset raw rest] by blast
qed (use hands_off_sending [OF ok f(1,2) _ r] hands_off_reading [OF ok _ r] hands_off_copying [OF ok _ cap r] f(3) in blast)+


section \<open>One poll and many\<close>

lemma hands_off_trans:
  assumes "hands_off src cap w f x sent w1 f1 x1" "cf_await f1 \<noteq> Returned"
    "\<And>s. hands_off src cap w1 f1 x1 s w' f' x'"
  shows "hands_off src cap w f x sent w' f' x'"
proof -
  obtain new gone where a: "chan_queue (w_hand w1) = chan_queue (w_hand w) @ new" "advances src cap f x sent f1 x1 (sent @ new) gone"
    using assms(1) by (auto simp: hands_off_def)
  have "advances src cap f x sent f1 x1 (sent @ new) False" using a(2) assms(2) by (cases gone) (auto simp: advances_def)
  moreover obtain new' gone' where "chan_queue (w_hand w') = chan_queue (w_hand w1) @ new'" "advances src cap f1 x1 (sent @ new) f' x' ((sent @ new) @ new') gone'"
    using assms(3) [of "sent @ new"] by (auto simp: hands_off_def)
  ultimately show ?thesis using advances_trans a(1) unfolding hands_off_def
    by (intro exI [of _ "new @ new'"] exI [of _ gone']) (metis append.assoc)
qed

lemma hands_off_await: "hands_off src cap w f x sent w' f' x' \<Longrightarrow> await_ok f' x'"
  by (auto simp: hands_off_def advances_def)

lemma poll_conn_hands_off:
  assumes "ready_ok (ready (w_sched w))" "polled (w_sched w) (tc_token x)" "owns (w_mem w) (fut_held f + queued_charges (w_hand w) + Z)"
    and "fut_ok f x" "await_ok f x" "cf_await f \<noteq> Returned" "capacity (budget (w_mem w)) = cap"
    and "poll_conn src wr w f x = Some (w', f', x', p)"
  shows "hands_off src cap w f x sent w' f' x'"
  using assms
proof (induction src wr w f x arbitrary: sent rule: poll_conn.induct)
  case (1 src wr w f x)
  obtain w1 f1 x1 fin where r: "conn_resume src wr w f x = Some (w1, f1, x1, fin)" "fut_kept w x w1 f1 x1 Z fin"
    "cf_await f1 = Returned \<longrightarrow> fin" using conn_resume_law [OF 1(2-5) 1(7)] unfolding resumes_def by blast
  have step: "hands_off src cap w f x sent w1 f1 x1" for sent using hands_off_resume [OF 1(2-8) r(1)] .
  show ?case
  proof (cases "fin \<and> cf_await f1 \<noteq> Returned")
    case True
    note k = r(2) [unfolded fut_kept_def]
    have "poll_conn src wr w1 f1 x1 = Some (w', f', x', p)" using 1(9) r(1) True by (simp add: poll_conn.simps [of src wr w])
    then have "hands_off src cap w1 f1 x1 s w' f' x'" for s
      using "1.IH" [OF r(1) refl refl refl] True k hands_off_await [OF step] 1(8) by (auto simp: core_step_def)
    then show ?thesis using hands_off_trans [OF step] True by blast
  next
    case False
    then have "(w', f', x') = (w1, f1, x1)" using 1(9) r(1) by (cases fin) (auto simp: poll_conn.simps [of src wr w])
    then show ?thesis using step by simp
  qed
qed

text \<open>
  The life of one future: started with its context, then polled, each time with a fresh turn and in
  any state of the worker that owns what the future holds.  Between two polls the worker, the other
  tasks and the other threads may have done anything.  \<open>sent\<close> is what its polls put in the channel.
\<close>

inductive conn_life ::
  "conn_source \<Rightarrow> nat \<Rightarrow> IncomingProfile \<Rightarrow> nat \<Rightarrow> conn_future \<Rightarrow> TaskContext \<Rightarrow> Record list \<Rightarrow> bool"
  for src pc prof cap where
  life_start: "conn_life src pc prof cap (start_conn pc prof (TaskContext_new i peer t k)) (TaskContext_new i peer t k) []"
| life_poll: "\<lbrakk>conn_life src pc prof cap f x sent; cf_await f \<noteq> Returned;
    ready_ok (ready (w_sched w)); polled (w_sched w) (tc_token x); owns (w_mem w) (fut_held f + queued_charges (w_hand w) + Z);
    capacity (budget (w_mem w)) = cap; poll_conn src wr w f (reset_turn x n) = Some (w', f', x', p)\<rbrakk>
  \<Longrightarrow> conn_life src pc prof cap f' x' (sent @ drop (length (chan_queue (w_hand w))) (chan_queue (w_hand w')))"

text \<open>The sequential task on the reads completed so far has the future's sequential rest to go.\<close>

definition life_matches ::
  "conn_source \<Rightarrow> nat \<Rightarrow> IncomingProfile \<Rightarrow> nat \<Rightarrow> conn_future \<Rightarrow> TaskContext \<Rightarrow> Record list \<Rightarrow> bool \<Rightarrow> bool" where
  "life_matches src pc prof cap f x sent gone \<longleftrightarrow> fut_ok f x \<and> await_ok f x \<and> (gone \<longrightarrow> cf_await f = Returned) \<and>
     (\<forall>acc rs. consumer sent gone acc \<longrightarrow>
        receive_from (seq_env src cap x acc) pc prof (completed_reads src (tc_id x) (cf_reads f) @ rs) =
        future_rest (seq_env src cap x acc) f x sent rs)"

lemma life_matches_start:
  "life_matches src pc prof cap (start_conn pc prof (TaskContext_new i peer t k)) (TaskContext_new i peer t k) [] False"
proof -
  let ?x = "TaskContext_new i peer t k"
  let ?f = "start_conn pc prof ?x"
  have new: "seq_state ?f ?x [] = conn_new pc prof" by (simp add: seq_state_def start_conn_def conn_new_def TaskContext_new_def)
  have "after_rest env ThenRead rs = (\<lambda>(s, ok). if \<not> ok then yields (s, True) else receive_loop env s rs)" for env rs
    by (auto simp: after_rest_def fun_eq_iff)
  then have "receive_from env pc prof rs = future_rest env ?f ?x [] rs" for env rs
    using new by (simp add: receive_from_def future_rest_def start_conn_def)
  moreover have "completed_reads src i (cf_reads ?f) = []" by (simp add: completed_reads_def start_conn_def)
  ultimately show ?thesis
    by (simp add: life_matches_def fut_ok_start) (simp add: await_ok_def start_conn_def TaskContext_new_def)
qed

lemma life_matches_advance:
  assumes "life_matches src pc prof cap f x sent False" "advances src cap f x sent f' x' sent' gone" "fut_ok f' x'"
  shows "life_matches src pc prof cap f' x' sent' gone"
proof -
  have ids: "same_conn x x'" "prefix sent sent'" "tc_id x' = tc_id x" using assms(2) by (simp_all add: advances_def same_conn_def)
  obtain new where new: "completed_reads src (tc_id x) (cf_reads f') = completed_reads src (tc_id x) (cf_reads f) @ new"
    "\<And>acc rs. consumer sent' gone acc \<Longrightarrow> future_rest (seq_env src cap x acc) f x sent (new @ rs) = future_rest (seq_env src cap x acc) f' x' sent' rs"
    using assms(2) unfolding advances_def by blast
  show ?thesis
    using assms consumer_earlier [OF ids(2)] new seq_env_same [OF ids(1)] ids(3)
    by (auto simp: life_matches_def advances_def)
qed

lemma turn_simps:
  "tc_id (reset_turn x n) = tc_id x" "tc_token (reset_turn x n) = tc_token x" "fut_ok f (reset_turn x n) = fut_ok f x"
  "await_ok f (reset_turn x n) = await_ok f x" "seq_env src cap (reset_turn x n) acc = seq_env src cap x acc"
  "future_rest env f (reset_turn x n) sent rs = future_rest env f x sent rs"
  by (simp_all add: reset_turn_def fut_ok_def await_ok_def seq_env_def future_rest_def seq_state_def cong: await.case_cong)

lemma life_matches_turn: "life_matches src pc prof cap f (reset_turn x n) sent gone = life_matches src pc prof cap f x sent gone"
  by (simp add: life_matches_def turn_simps)

lemma conn_life_matches: "conn_life src pc prof cap f x sent \<Longrightarrow> \<exists>gone. life_matches src pc prof cap f x sent gone"
proof (induction rule: conn_life.induct)
  case (life_start i peer t k)
  then show ?case using life_matches_start by blast
next
  case (life_poll f x sent w Z wr n w' f' x' p)
  let ?x = "reset_turn x n"
  have m: "life_matches src pc prof cap f x sent False" using life_poll by (auto simp: life_matches_def)
  have fresh: "fut_ok f ?x" "await_ok f ?x" "polled (w_sched w) (tc_token ?x)" "life_matches src pc prof cap f ?x sent False"
    using m life_poll(4) by (simp_all add: life_matches_turn) (simp_all add: life_matches_def turn_simps)
  have "hands_off src cap w f ?x sent w' f' x'"
    using poll_conn_hands_off [OF life_poll(3) fresh(3) life_poll(5) fresh(1,2) life_poll(2) life_poll(6,7)] .
  then obtain new gone where a: "chan_queue (w_hand w') = chan_queue (w_hand w) @ new" "advances src cap f ?x sent f' x' (sent @ new) gone"
    by (auto simp: hands_off_def)
  have "fut_ok f' x'"
    using poll_conn_law [OF life_poll(3) fresh(3) life_poll(5) fresh(1) life_poll(2), of src wr] life_poll(7) by (auto simp: fut_kept_def)
  from life_matches_advance [OF fresh(4) a(2) this] show ?case using a(1) by auto
qed


section \<open>What the sequential task hands off\<close>

text \<open>Records are only ever appended, each accepted by the consumer.\<close>

definition grows :: "conn_env \<Rightarrow> conn \<Rightarrow> conn \<Rightarrow> bool" where
  "grows env s s' \<longleftrightarrow> (\<exists>new. cn_sent s' = cn_sent s @ new \<and> (\<forall>n < length new. ce_accepts env (length (cn_sent s) + n)))"

definition grows_to :: "conn_env \<Rightarrow> conn \<Rightarrow> (conn \<times> 'r) run \<Rightarrow> bool" where
  "grows_to env s m \<longleftrightarrow> (\<forall>s' r. m = Some (s', r) \<longrightarrow> grows env s s')"

lemma grows_refl: "cn_sent s' = cn_sent s \<Longrightarrow> grows env s s'"
  by (simp add: grows_def)

lemma grows_trans:
  assumes "grows env a b" "grows env b c"
  shows "grows env a c"
proof -
  obtain xs ys where xs: "cn_sent b = cn_sent a @ xs" "\<forall>n < length xs. ce_accepts env (length (cn_sent a) + n)"
    and ys: "cn_sent c = cn_sent b @ ys" "\<forall>n < length ys. ce_accepts env (length (cn_sent b) + n)"
    using assms by (auto simp: grows_def)
  have "ce_accepts env (length (cn_sent a) + n)" if "n < length (xs @ ys)" for n
    using xs ys(2) [rule_format, of "n - length xs"] that by (cases "n < length xs") auto
  then show ?thesis unfolding grows_def using xs(1) ys(1) by (intro exI [of _ "xs @ ys"]) auto
qed

lemma grows_to_from: "cn_sent s1 = cn_sent s \<Longrightarrow> grows_to env s1 m = grows_to env s m"
  by (simp add: grows_to_def grows_def)

lemma grows_updates [simp]:
  "grows_to env (s\<lparr>cn_ticks := t\<rparr>) m = grows_to env s m" "grows_to env (s\<lparr>cn_progress := p\<rparr>) m = grows_to env s m"
  "grows_to env (s\<lparr>cn_session := ses\<rparr>) m = grows_to env s m" "grows_to env (s\<lparr>cn_decoder := d\<rparr>) m = grows_to env s m"
  by (rule grows_to_from, simp)+

lemma grows_send_at: "grows_to env s (send_at env s offset at kind)"
  by (auto simp: grows_to_def send_at_def Let_def grows_def split: option.splits if_splits bind_splits)

lemma grows_send: "grows_to env s (conn_send env s offset kind)"
  using grows_send_at [of env "s\<lparr>cn_ticks := cn_ticks s + 1\<rparr>"] by (simp add: conn_send_def conn_now_def)

lemma grows_end: "grows_to env s (conn_end env s offset uuid reason)" "grows_to env s (end_at env s offset at uuid reason)"
  by (simp_all add: conn_end_def grows_send end_at_def grows_send_at)

lemma grows_stop: "grows_to env s m \<Longrightarrow> grows_to env s (stop_with m)"
  by (auto simp: grows_to_def stop_with_def)

lemma grows_map: "grows_to env s m \<Longrightarrow> grows_to env s (m \<bind> (\<lambda>(s', r). Some (s', h s' r)))"
  by (auto simp: grows_to_def split: bind_splits)

lemma grows_panic [simp]: "grows_to env s None"
  by (simp add: grows_to_def)

lemma grows_observe: "grows_to env s (observe env s offset ev)"
proof -
  let ?s = "s\<lparr>cn_ticks := cn_ticks s + 1\<rparr>"
  have "grows_to env ?s (observe env s offset ev)"
    by (auto simp: observe_def conn_now_def split: IncomingEvent.split SessionEnd.split sum.split
        intro: grows_send_at grows_end(2) simp del: grows_updates)
  then show ?thesis by simp
qed

lemma grows_frame: "grows_to env s (handle_frame env s offset raw)"
proof -
  have "grows_to env s (conn_end env (s\<lparr>cn_session := ses\<rparr>) offset uuid reason)" for ses uuid reason
    using grows_end(1) [of env "s\<lparr>cn_session := ses\<rparr>"] by simp
  moreover have "grows_to env s (observe env (s\<lparr>cn_session := ses\<rparr>) offset ev)" for ses ev
    using grows_observe [of env "s\<lparr>cn_session := ses\<rparr>"] by simp
  ultimately show ?thesis using grows_end(1) [of env s]
    by (cases "typed raw") (auto simp: handle_frame_def Let_def intro!: grows_stop grows_map split: sum.split prod.split)
qed


lemma grows_pass: "grows_to env s (chunk_pass env s input)"
proof -
  have ended: "grows_to env s (conn_end env (s\<lparr>cn_decoder := d, cn_progress := p\<rparr>) offset uuid reason)" for d p offset uuid reason
    using grows_end(1) [of env "s\<lparr>cn_decoder := d, cn_progress := p\<rparr>"] by simp
  have framed: "grows_to env s (handle_frame env (s\<lparr>cn_decoder := d, cn_progress := p\<rparr>) offset raw)" for d p offset raw
    using grows_frame [of env "s\<lparr>cn_decoder := d, cn_progress := p\<rparr>"] by simp
  have kept: "grows_to env s (Some (s\<lparr>cn_decoder := d, cn_progress := p\<rparr>, r))" for d p r
    by (simp add: grows_to_def grows_refl)
  show ?thesis
  proof (cases "RawDecoder_feed (cn_decoder s) input")
    case (Some y)
    obtain d rest frame where y: "y = (d, rest, frame)" by (cases y)
    then show ?thesis using Some ended framed kept
      by (cases "consume (cn_progress s) (length input - length rest)")
         (auto simp: chunk_pass_def Let_def intro!: grows_map split: sum.split DecodeOutcome.split)
  qed (simp add: chunk_pass_def)
qed

definition grows_eff :: "conn_env \<Rightarrow> conn \<Rightarrow> (conn \<times> 'r) effect \<Rightarrow> bool" where
  "grows_eff env s m \<longleftrightarrow> (\<forall>s' r. m = Some (Some (s', r)) \<longrightarrow> grows env s s')"

lemma grows_eff_simps [simp]:
  "grows_eff env s (Some m) = grows_to env s m" "grows_eff env s (yields (s', b)) = grows env s s'" "grows_eff env s None"
  by (auto simp: grows_eff_def grows_to_def yields_def)

lemma grows_then:
  assumes "grows_eff env s m" "\<And>s' r. grows_eff env s' (g (s', r))"
  shows "grows_eff env s (and_then m g)"
  using assms by (fastforce simp: grows_eff_def and_then_def intro: grows_trans split: option.splits)

lemma grows_chunk: "grows_eff env s (decode_chunk env s input)"
proof -
  let ?P = "\<lambda>env s input (m :: (conn \<times> bool) option). grows_to env s m"
  have "?P env s input m" if run: "decode_chunk env s input = Some m" for m
  proof (rule decode_chunk.raw_induct [where P = ?P, OF _ run])
    fix dec env s input m
    assume IH: "\<And>env s input m. dec env s input = Some m \<Longrightarrow> grows_to env s m"
      and step: "(if input = [] then Some (Some (s, True))
        else case chunk_pass env s input of
          None \<Rightarrow> Some None
        | Some (s', Inl res) \<Rightarrow> Some (Some (s', res))
        | Some (s', Inr rest) \<Rightarrow> dec env s' rest) = Some m"
    show "grows_to env s m"
    proof (cases "input = [] \<or> chunk_pass env s input = None")
      case False
      then obtain s1 q where q: "chunk_pass env s input = Some (s1, q)" by fastforce
      then have "grows env s s1" using grows_pass [of env s input] by (simp add: grows_to_def)
      then show ?thesis using step q False IH by (cases q) (auto simp: grows_to_def intro: grows_trans)
    qed (use step in \<open>auto simp: grows_to_def grows_refl split: if_splits\<close>)
  qed
  then show ?thesis by (cases "decode_chunk env s input") simp_all
qed

lemma grows_eof: "grows_to env s (conn_eof env s)"
proof -
  have "grows_to env s (conn_end env (s\<lparr>cn_session := ses\<rparr>) offset uuid reason)" for ses offset uuid reason
    using grows_end(1) [of env "s\<lparr>cn_session := ses\<rparr>"] by simp
  then show ?thesis using grows_end(1) [of env s]
    by (auto simp: conn_eof_def Let_def split: sum.split prod.split IncomingEvent.split)
qed

lemma grows_eff_updates [simp]:
  "grows_eff env (s\<lparr>cn_ticks := t\<rparr>) m = grows_eff env s m" "grows_eff env (s\<lparr>cn_progress := p\<rparr>) m = grows_eff env s m"
  by (simp_all add: grows_eff_def grows_def)

lemma grows_read: "grows_eff env s (conn_chunk env s bs)"
proof -
  obtain p q where pq: "observe_read (cn_progress s) (length bs) = (p, q)" by fastforce
  let ?s = "s\<lparr>cn_ticks := cn_ticks s + 1, cn_progress := p\<rparr>"
  have "grows_to env ?s (conn_end env ?s offset uuid reason)" for offset uuid reason by (rule grows_end)
  moreover have "grows_eff env ?s (and_then (Some (send_at env ?s offset at kind))
      (\<lambda>(s, ok). if \<not> ok then yields (s, False) else decode_chunk env s bs))" for offset at kind
    by (rule grows_then) (use grows_send_at [of env ?s] in \<open>auto simp: grows_refl grows_chunk simp del: grows_updates\<close>)
  ultimately show ?thesis using pq
    by (auto simp: conn_chunk_def conn_now_def Let_def intro!: grows_stop split: sum.split)
qed

lemma grows_loop: "grows_eff env s (receive_loop env s rs)"
proof (induction env s rs rule: receive_loop.induct)
  case (3 env s bs rs)
  then show ?case by (auto simp: grows_refl grows_eof grows_read intro!: grows_then)
qed (auto simp: grows_refl grows_end intro!: grows_then)


lemma grows_decode_rest: "grows_eff env s (decode_rest env s input rs)"
  unfolding decode_rest_def by (rule grows_then [OF grows_chunk]) (auto simp: grows_refl grows_loop)

lemma grows_after: "grows_eff env s (after_rest env k rs (s, ok))"
  by (auto simp: after_rest_def grows_refl grows_loop grows_decode_rest split: after_send.split)

lemma grows_send_rest: "grows_eff env s (send_rest env s offset at kind k rs)"
  unfolding send_rest_def by (rule grows_then) (simp_all add: grows_send_at grows_after)

lemma grows_future: "grows_eff env (seq_state f x sent) (future_rest env f x sent rs)"
proof (cases "cf_await f")
  case (Copying reg bs k)
  have "grows_eff env s (and_then (Some (conn_end env s offset uuid reason)) (after_rest env ThenReturn rs))" for s offset uuid reason
    by (rule grows_then) (simp_all add: grows_end grows_after)
  then show ?thesis using Copying
    by (simp add: future_rest_def copy_rest_def Let_def grows_send_rest split: after_copy.split sum.split)
next
  case (Typing offset raw rest)
  have "grows_eff env s (frame_rest env s offset raw rest rs)" for s
    unfolding frame_rest_def by (rule grows_then) (auto simp: grows_frame grows_refl grows_decode_rest)
  then show ?thesis using Typing by (simp add: future_rest_def)
next
  case Unpolled
  have "grows_eff env s (and_then (Some (conn_send env s 0 kind)) (after_rest env ThenRead rs))" for s kind
    by (rule grows_then) (simp_all add: grows_send grows_after)
  then show ?thesis using Unpolled by (simp add: future_rest_def)
qed (simp_all add: future_rest_def grows_send_rest grows_loop grows_decode_rest grows_refl)

section \<open>Properties\<close>

text \<open>
  C9: However a connection's future is polled, in whatever states of the worker and with whatever turns,
  what its polls have put in the channel is exactly what the sequential task hands off on the reads
  completed so far, to a consumer that accepts that many records.  So the channel obeys the record
  protocol at every moment, its transport bytes being a prefix of the bytes read; and when the
  future has returned or waits for its next read, its decoder, session, counters and clock are those
  of the sequential task.
\<close>

theorem future_refines_task:
  assumes "conn_life src pc prof cap f x sent" "pc \<le> cap"
  shows "\<exists>s fin st lo. receive_from (seq_env src cap x (\<lambda>n. n < length sent)) pc prof (completed_reads src (tc_id x) (cf_reads f)) =
      Some (Some (s, fin)) \<and> cn_sent s = sent \<and>
    stream_run (tc_id x) (accepts prof) (AwaitingConnection, 0, 0) sent = Some (st, lo, wire_queued (cn_progress s)) \<and>
    prefix (transport s) (read_bytes (completed_reads src (tc_id x) (cf_reads f))) \<and>
    (cf_await f = Returned \<longrightarrow> s = seq_state f x sent \<and> fin) \<and>
    (cf_await f = Reading \<longrightarrow> s = seq_state f x sent \<and> \<not> fin)"
proof -
  let ?env = "seq_env src cap x (\<lambda>n. n < length sent)" and ?reads = "completed_reads src (tc_id x) (cf_reads f)"
  obtain gone where "life_matches src pc prof cap f x sent gone" using conn_life_matches [OF assms(1)] by blast
  then have rest: "receive_from ?env pc prof ?reads = future_rest ?env f x sent []"
    unfolding life_matches_def consumer_def by (metis append_Nil2 order_less_irrefl)
  obtain s fin st lo where s: "receive_from ?env pc prof ?reads = Some (Some (s, fin))"
    "stream_run (tc_id x) (accepts prof) (AwaitingConnection, 0, 0) (cn_sent s) = Some (st, lo, wire_queued (cn_progress s))"
    "prefix (transport s) (read_bytes ?reads)"
    using receive_from_protocol [of pc ?env prof ?reads] assms(2) by auto
  have "grows ?env (seq_state f x sent) s" using grows_future [of ?env f x sent "[]"] s(1) rest by (simp add: grows_eff_def)
  then have "cn_sent s = sent" by (fastforce simp: grows_def)
  moreover have "cf_await f = Returned \<Longrightarrow> s = seq_state f x sent \<and> fin" "cf_await f = Reading \<Longrightarrow> s = seq_state f x sent \<and> \<not> fin"
    using s(1) rest by (auto simp: future_rest_def yields_def)
  ultimately show ?thesis using s by blast
qed

definition demo_calls :: conn_source where
  "demo_calls = \<lparr>cs_read = (\<lambda>i n. Inr [0, 0, 0]), cs_clock = (\<lambda>i n. n)\<rparr>"

lemma demo_life:
  "\<exists>w' f' x' p. poll_conn demo_calls (Inr ()) demo_worker (start_conn 4 PCM_8_KHZ demo_task) demo_task = Some (w', f', x', p) \<and>
     conn_life demo_calls 4 PCM_8_KHZ 4 f' x' (chan_queue (w_hand w'))"
proof -
  let ?x = "TaskContext_new (ConnectionId 1 2) ''peer'' 2 0"
  let ?f = "start_conn 4 PCM_8_KHZ ?x"
  have task: "demo_task = reset_turn ?x 8" "start_conn 4 PCM_8_KHZ demo_task = ?f" by (simp_all add: demo_task_def start_conn_def)
  have f: "fut_ok ?f demo_task" "cf_await ?f \<noteq> Returned" "fut_held ?f = {#}"
    unfolding task(1) turn_simps by (rule fut_ok_start) (simp_all add: start_conn_def fut_held_def)
  have m: "owns (w_mem demo_worker) (fut_held ?f + queued_charges (w_hand demo_worker) + {#})" "chan_queue (w_hand demo_worker) = []"
    "capacity (budget (w_mem demo_worker)) = 4"
    using owns_init [of 4] f(3)
    by (simp_all add: demo_worker_def channel_def queued_charges_def USIZE_MAX_def accounts_init_def ByteBudget_new_def)
  obtain w' f' x' p where p: "poll_conn demo_calls (Inr ()) demo_worker ?f demo_task = Some (w', f', x', p)"
    using poll_conn_law [OF demo_worker_ok(1,2) m(1) f(1,2), of demo_calls "Inr ()"] by blast
  have turn: "polled (w_sched demo_worker) (tc_token ?x)" using demo_worker_ok(2) unfolding task(1) turn_simps .
  from life_poll [OF life_start f(2) demo_worker_ok(1) turn m(1,3) p [unfolded task(1)]] show ?thesis
    using p task m(2) by auto
qed

theorem future_refines_task_witness:
  "\<exists>w' f' x' p s fin st lo.
     poll_conn demo_calls (Inr ()) demo_worker (start_conn 4 PCM_8_KHZ demo_task) demo_task = Some (w', f', x', p) \<and>
     conn_life demo_calls 4 PCM_8_KHZ 4 f' x' (chan_queue (w_hand w')) \<and> (4 :: nat) \<le> 4 \<and>
     receive_from (seq_env demo_calls 4 x' (\<lambda>n. n < length (chan_queue (w_hand w')))) 4 PCM_8_KHZ
       (completed_reads demo_calls (tc_id x') (cf_reads f')) = Some (Some (s, fin)) \<and> cn_sent s = chan_queue (w_hand w') \<and>
     stream_run (tc_id x') (accepts PCM_8_KHZ) (AwaitingConnection, 0, 0) (chan_queue (w_hand w')) = Some (st, lo, wire_queued (cn_progress s))"
proof -
  obtain w' f' x' p where p: "poll_conn demo_calls (Inr ()) demo_worker (start_conn 4 PCM_8_KHZ demo_task) demo_task = Some (w', f', x', p)"
    "conn_life demo_calls 4 PCM_8_KHZ 4 f' x' (chan_queue (w_hand w'))"
    using demo_life by blast
  from future_refines_task [OF p(2) order_refl] p show ?thesis by blast
qed

end
