(* ===== verification/Limited_File.thy ===== *)
theory Limited_File
  imports Wave_Recording
begin

text \<open>
  The size-capped files of the capture application (\<open>LimitedFile\<close> in
  \<open>apps/phonowire-capture/src/main.rs\<close>) over the standard library's \<open>File\<close>.

  A file is its bytes and a position.  What the operating system does at each call is a script:
  an entry is the error the call returns, or the number of bytes it is willing to take; an empty
  script is a system that does all it is asked.  Any sequence of short writes, interruptions and
  failures is such a script, and a script is finite because a write is not interrupted for ever.
  The theory discharges the writer contract of the recorder for these files and states what a
  recording on them holds.
\<close>

section \<open>Files\<close>

datatype os_step = Fails io_error | Takes nat

record disk_file =
  f_data :: bytes
  f_pos :: nat
  f_script :: "os_step list"

text \<open>One system call: its error, or how many of \<open>n\<close> bytes it takes.\<close>

definition os_call :: "disk_file \<Rightarrow> nat \<Rightarrow> disk_file \<times> (io_error + nat)" where
  "os_call f n =
     (case f_script f of
        [] \<Rightarrow> (f, Inr n)
      | Fails e # rest \<Rightarrow> (f\<lparr>f_script := rest\<rparr>, Inl e)
      | Takes m # rest \<Rightarrow> (f\<lparr>f_script := rest\<rparr>, Inr (min m n)))"

definition stream_position :: "disk_file \<Rightarrow> disk_file \<times> (io_error + nat)" where
  "stream_position f = (case os_call f 0 of (f', Inl e) \<Rightarrow> (f', Inl e) | (f', Inr _) \<Rightarrow> (f', Inr (f_pos f')))"

definition file_write :: "disk_file \<Rightarrow> bytes \<Rightarrow> disk_file \<times> (io_error + nat)" where
  "file_write f bs =
     (case os_call f (length bs) of
        (f', Inl e) \<Rightarrow> (f', Inl e)
      | (f', Inr n) \<Rightarrow>
          (f'\<lparr>f_data := take (f_pos f') (f_data f' @ replicate (f_pos f' - length (f_data f')) 0) @
                        take n bs @ drop (f_pos f' + n) (f_data f'),
              f_pos := f_pos f' + n\<rparr>, Inr n))"

datatype SeekFrom = SeekStart nat | SeekEnd int | SeekCurrent int

text \<open>A target before the start of the file is an error; one past the end is allowed.\<close>

definition file_seek :: "disk_file \<Rightarrow> SeekFrom \<Rightarrow> disk_file \<times> (io_error + nat)" where
  "file_seek f p =
     (case os_call f 0 of
        (f', Inl e) \<Rightarrow> (f', Inl e)
      | (f', Inr _) \<Rightarrow>
          (let t = (case p of
                      SeekStart n \<Rightarrow> int n
                    | SeekEnd d \<Rightarrow> int (length (f_data f')) + d
                    | SeekCurrent d \<Rightarrow> int (f_pos f') + d)
           in if t < 0 then (f', Inl error_other) else (f'\<lparr>f_pos := nat t\<rparr>, Inr (nat t))))"

definition file_flush :: "disk_file \<Rightarrow> disk_file \<times> (io_error + unit)" where
  "file_flush f = (case os_call f 0 of (f', Inl e) \<Rightarrow> (f', Inl e) | (f', Inr _) \<Rightarrow> (f', Inr ()))"

section \<open>Limited files\<close>

record LimitedFile =
  lf_file :: disk_file
  lf_cap :: nat

text \<open>The file a successful exclusive creation opens.\<close>

definition LimitedFile_opened :: "nat \<Rightarrow> os_step list \<Rightarrow> LimitedFile" where
  "LimitedFile_opened cap script =
     \<lparr>lf_file = \<lparr>f_data = [], f_pos = 0, f_script = script\<rparr>, lf_cap = cap\<rparr>"

definition LimitedFile_write :: "LimitedFile \<Rightarrow> bytes \<Rightarrow> LimitedFile \<times> (io_error + nat)" where
  "LimitedFile_write l b =
     (case stream_position (lf_file l) of
        (f, Inl e) \<Rightarrow> (l\<lparr>lf_file := f\<rparr>, Inl e)
      | (f, Inr p) \<Rightarrow>
          (case try_from U64_MAX (length b) of
             None \<Rightarrow> (l\<lparr>lf_file := f\<rparr>, Inl error_other)
           | Some n \<Rightarrow>
               if (case checked_add U64_MAX p n of None \<Rightarrow> True | Some e \<Rightarrow> e > lf_cap l)
               then (l\<lparr>lf_file := f\<rparr>, Inl error_other)
               else (case file_write f b of (f', r) \<Rightarrow> (l\<lparr>lf_file := f'\<rparr>, r))))"

definition LimitedFile_flush :: "LimitedFile \<Rightarrow> LimitedFile \<times> (io_error + unit)" where
  "LimitedFile_flush l = (case file_flush (lf_file l) of (f, r) \<Rightarrow> (l\<lparr>lf_file := f\<rparr>, r))"

definition LimitedFile_seek :: "LimitedFile \<Rightarrow> SeekFrom \<Rightarrow> LimitedFile \<times> (io_error + nat)" where
  "LimitedFile_seek l p = (case file_seek (lf_file l) p of (f, r) \<Rightarrow> (l\<lparr>lf_file := f\<rparr>, r))"

text \<open>The recorder's only seek: \<open>seek(SeekFrom::Start(0)).map(|_| ())\<close>.\<close>

definition LimitedFile_rewind :: "LimitedFile \<Rightarrow> LimitedFile \<times> (io_error + unit)" where
  "LimitedFile_rewind l =
     (case LimitedFile_seek l (SeekStart 0) of (l', Inl e) \<Rightarrow> (l', Inl e) | (l', Inr _) \<Rightarrow> (l', Inr ()))"

definition limited_sink :: "LimitedFile sink" where
  "limited_sink =
     \<lparr>out_write = LimitedFile_write, out_rewind = LimitedFile_rewind, out_flush = LimitedFile_flush\<rparr>"

definition limited_outputs :: "(LimitedFile, LimitedFile, LimitedFile) outputs" where
  "limited_outputs = \<lparr>wire_out = limited_sink, wave_out = limited_sink, events_out = limited_sink\<rparr>"

text \<open>What is before the position and what is after it.\<close>

definition lf_content :: "LimitedFile \<Rightarrow> bytes" where
  "lf_content l = take (f_pos (lf_file l)) (f_data (lf_file l))"

definition lf_beyond :: "LimitedFile \<Rightarrow> bytes" where
  "lf_beyond l = drop (f_pos (lf_file l)) (f_data (lf_file l))"

definition lf_patience :: "LimitedFile \<Rightarrow> nat" where
  "lf_patience l = length (f_script (lf_file l))"

definition lf_ok :: "LimitedFile \<Rightarrow> bool" where
  "lf_ok l \<longleftrightarrow> f_pos (lf_file l) \<le> length (f_data (lf_file l)) \<and> length (f_data (lf_file l)) \<le> lf_cap l"

lemma os_call_cases:
  obtains (err) e s where "os_call f n = (f\<lparr>f_script := s\<rparr>, Inl e)" "length s < length (f_script f)"
  | (ok) m s where "os_call f n = (f\<lparr>f_script := s\<rparr>, Inr m)" "m \<le> n" "length s \<le> length (f_script f)"
proof (cases "f_script f")
  case Nil
  then have "os_call f n = (f\<lparr>f_script := []\<rparr>, Inr n)" by (simp add: os_call_def)
  then show ?thesis using ok by simp
next
  case (Cons st rest)
  then show ?thesis using err ok by (cases st) (auto simp: os_call_def)
qed

lemma stream_position_cases:
  obtains (err) e s where "stream_position f = (f\<lparr>f_script := s\<rparr>, Inl e)" "length s < length (f_script f)"
  | (ok) s where "stream_position f = (f\<lparr>f_script := s\<rparr>, Inr (f_pos f))" "length s \<le> length (f_script f)"
  by (rule os_call_cases [of f 0]) (use err ok in \<open>auto simp: stream_position_def\<close>)

lemma file_write_cases:
  assumes "f_pos f \<le> length (f_data f)"
  obtains (err) e s where "file_write f bs = (f\<lparr>f_script := s\<rparr>, Inl e)" "length s < length (f_script f)"
  | (ok) m s where "m \<le> length bs" "length s \<le> length (f_script f)"
      "file_write f bs =
         (f\<lparr>f_script := s, f_data := take (f_pos f) (f_data f) @ take m bs @ drop (f_pos f + m) (f_data f),
            f_pos := f_pos f + m\<rparr>, Inr m)"
  by (rule os_call_cases [of f "length bs"]) (use assms err ok in \<open>auto simp: file_write_def\<close>)

text \<open>
  A write through the cap fails without changing the data, or takes a prefix that fits the cap.
\<close>

lemma LimitedFile_write_cases:
  assumes "lf_ok l"
  obtains (err) e s where "LimitedFile_write l bs = (l\<lparr>lf_file := (lf_file l)\<lparr>f_script := s\<rparr>\<rparr>, Inl e)"
      "length s \<le> lf_patience l" "io_kind e = Interrupted \<Longrightarrow> length s < lf_patience l"
  | (ok) m s where "m \<le> length bs" "length s \<le> lf_patience l" "f_pos (lf_file l) + length bs \<le> lf_cap l"
      "LimitedFile_write l bs =
         (l\<lparr>lf_file := (lf_file l)\<lparr>f_script := s,
              f_data := take (f_pos (lf_file l)) (f_data (lf_file l)) @ take m bs @
                        drop (f_pos (lf_file l) + m) (f_data (lf_file l)),
              f_pos := f_pos (lf_file l) + m\<rparr>\<rparr>, Inr m)"
proof (cases "lf_file l" rule: stream_position_cases)
  case (err e s)
  then show ?thesis using that(1) [of s e] by (simp add: LimitedFile_write_def lf_patience_def)
next
  case (ok s)
  let ?f = "(lf_file l)\<lparr>f_script := s\<rparr>"
  have other: "io_kind error_other \<noteq> Interrupted" by (simp add: error_other_def)
  show ?thesis
  proof (cases "length bs \<le> U64_MAX \<and> f_pos (lf_file l) + length bs \<le> U64_MAX \<and>
      f_pos (lf_file l) + length bs \<le> lf_cap l")
    case False
    then have "LimitedFile_write l bs = (l\<lparr>lf_file := ?f\<rparr>, Inl error_other)"
      using ok by (auto simp: LimitedFile_write_def try_from_def checked_add_def)
    then show ?thesis using that(1) ok other by (simp add: lf_patience_def)
  next
    case True
    then have w: "LimitedFile_write l bs = (case file_write ?f bs of (f', r) \<Rightarrow> (l\<lparr>lf_file := f'\<rparr>, r))"
      using ok by (auto simp: LimitedFile_write_def try_from_def checked_add_def)
    have pos: "f_pos ?f \<le> length (f_data ?f)" using assms by (simp add: lf_ok_def)
    show ?thesis
    proof (rule file_write_cases [OF pos, of bs])
      fix e s' assume "file_write ?f bs = (?f\<lparr>f_script := s'\<rparr>, Inl e)" "length s' < length (f_script ?f)"
      then show ?thesis using that(1) [of s' e] w ok(2) by (simp add: lf_patience_def)
    next
      fix m s' assume "m \<le> length bs" "length s' \<le> length (f_script ?f)"
        "file_write ?f bs = (?f\<lparr>f_script := s', f_data := take (f_pos ?f) (f_data ?f) @ take m bs @ drop (f_pos ?f + m) (f_data ?f),
            f_pos := f_pos ?f + m\<rparr>, Inr m)"
      then show ?thesis using that(2) [of m s'] w ok(2) True by (simp add: lf_patience_def)
    qed
  qed
qed

lemma LimitedFile_flush_same:
  assumes "LimitedFile_flush l = (l', r)"
  shows "lf_content l' = lf_content l \<and> lf_beyond l' = lf_beyond l \<and> (lf_ok l \<longrightarrow> lf_ok l') \<and> lf_cap l' = lf_cap l"
  by (rule os_call_cases [of "lf_file l" 0])
     (use assms in \<open>auto simp: LimitedFile_flush_def file_flush_def lf_content_def lf_beyond_def lf_ok_def\<close>)

lemma LimitedFile_rewind_ok:
  assumes "lf_ok l" "LimitedFile_rewind l = (l', Inr u)"
  shows "lf_content l' = [] \<and> lf_beyond l' = lf_content l @ lf_beyond l \<and> lf_ok l'"
  by (rule os_call_cases [of "lf_file l" 0])
     (use assms in \<open>auto simp: LimitedFile_rewind_def LimitedFile_seek_def file_seek_def lf_content_def lf_beyond_def lf_ok_def\<close>)

lemma LimitedFile_rewind_ok':
  assumes "lf_ok l"
  shows "lf_ok (fst (LimitedFile_rewind l)) \<and> lf_cap (fst (LimitedFile_rewind l)) = lf_cap l"
  by (rule os_call_cases [of "lf_file l" 0])
     (use assms in \<open>auto simp: LimitedFile_rewind_def LimitedFile_seek_def file_seek_def lf_ok_def\<close>)

lemma LimitedFile_write_ok:
  assumes "lf_ok l" "LimitedFile_write l bs = (l', Inr n)"
  shows "n \<le> length bs \<and> lf_content l' = lf_content l @ take n bs \<and> lf_beyond l' = drop n (lf_beyond l) \<and>
    lf_patience l' \<le> lf_patience l \<and> lf_ok l' \<and> lf_cap l' = lf_cap l"
proof (rule LimitedFile_write_cases [OF assms(1), of bs])
  fix m s assume m: "m \<le> length bs" "length s \<le> lf_patience l" "f_pos (lf_file l) + length bs \<le> lf_cap l"
    "LimitedFile_write l bs = (l\<lparr>lf_file := (lf_file l)\<lparr>f_script := s,
              f_data := take (f_pos (lf_file l)) (f_data (lf_file l)) @ take m bs @
                        drop (f_pos (lf_file l) + m) (f_data (lf_file l)),
              f_pos := f_pos (lf_file l) + m\<rparr>\<rparr>, Inr m)"
  have pos: "f_pos (lf_file l) \<le> length (f_data (lf_file l))" using assms(1) by (simp add: lf_ok_def)
  then have "length (take (f_pos (lf_file l)) (f_data (lf_file l)) @ take m bs @ drop (f_pos (lf_file l) + m) (f_data (lf_file l)))
      \<le> lf_cap l" using m assms(1) by (auto simp: lf_ok_def min_def)
  then show ?thesis using m assms(2) pos
    by (auto simp: lf_content_def lf_beyond_def lf_ok_def lf_patience_def min_def add.commute)
qed (use assms(2) in auto)

lemma LimitedFile_write_err:
  assumes "lf_ok l" "LimitedFile_write l bs = (l', Inl e)"
  shows "lf_content l' = lf_content l \<and> lf_beyond l' = lf_beyond l \<and> lf_ok l' \<and> lf_cap l' = lf_cap l \<and>
    (io_kind e = Interrupted \<longrightarrow> lf_patience l' < lf_patience l)"
  by (rule LimitedFile_write_cases [OF assms(1), of bs])
     (use assms in \<open>auto simp: lf_content_def lf_beyond_def lf_ok_def lf_patience_def\<close>)

interpretation limited: seekable limited_sink lf_content lf_patience lf_ok lf_beyond
proof unfold_locales
  fix w w' bs and res :: "io_error + nat"
  assume "lf_ok w" "out_write limited_sink w bs = (w', res)"
  then show "lf_ok w'"
    using LimitedFile_write_ok [of w bs w'] LimitedFile_write_err [of w bs w'] by (cases res) (auto simp: limited_sink_def)
next
  fix w w' and res :: "io_error + unit"
  assume "lf_ok w" "out_rewind limited_sink w = (w', res)"
  then show "lf_ok w'" using LimitedFile_rewind_ok' [of w] by (simp add: limited_sink_def)
qed (auto simp: limited_sink_def dest: LimitedFile_write_ok LimitedFile_write_err LimitedFile_flush_same LimitedFile_rewind_ok)

interpretation capture: recorder limited_outputs lf_content lf_patience lf_ok lf_content lf_patience lf_ok lf_beyond
    lf_content lf_patience lf_ok
  unfolding recorder_def limited_outputs_def
  using limited.writer_axioms limited.seekable_axioms by simp

text \<open>The same contract with the cap, which no operation changes.\<close>

definition lf_within :: "nat \<Rightarrow> LimitedFile \<Rightarrow> bool" where
  "lf_within cap l \<longleftrightarrow> lf_ok l \<and> lf_cap l = cap"

lemma LimitedFile_write_cap: "lf_ok l \<Longrightarrow> LimitedFile_write l bs = (l', res) \<Longrightarrow> lf_cap l' = lf_cap l"
  using LimitedFile_write_ok [of l bs l'] LimitedFile_write_err [of l bs l'] by (cases res) auto

lemma LimitedFile_rewind_cap: "lf_ok l \<Longrightarrow> LimitedFile_rewind l = (l', res) \<Longrightarrow> lf_cap l' = lf_cap l"
  using LimitedFile_rewind_ok' [of l] by simp

lemma LimitedFile_flush_cap: "LimitedFile_flush l = (l', res) \<Longrightarrow> lf_cap l' = lf_cap l"
  using LimitedFile_flush_same [of l l' res] by simp

lemmas sink_caps = LimitedFile_write_cap LimitedFile_rewind_cap LimitedFile_flush_cap

interpretation within: seekable limited_sink lf_content lf_patience "lf_within cap" lf_beyond for cap
  by unfold_locales
     (auto simp: lf_within_def limited_sink_def
        dest: limited.write_sound [unfolded limited_sink_def, simplified] limited.rewind_sound [unfolded limited_sink_def, simplified]
          limited.flush_same [unfolded limited_sink_def, simplified] limited.flush_beyond [unfolded limited_sink_def, simplified]
          LimitedFile_write_ok LimitedFile_write_err LimitedFile_rewind_ok sink_caps)

text \<open>A file that is only ever written at its end.\<close>

definition lf_append :: "nat \<Rightarrow> LimitedFile \<Rightarrow> bool" where
  "lf_append cap l \<longleftrightarrow> lf_within cap l \<and> lf_beyond l = []"

interpretation appended: writer limited_sink lf_content lf_patience "lf_append cap" for cap
proof unfold_locales
  fix w w' bs and res :: "io_error + nat"
  assume "lf_append cap w" "out_write limited_sink w bs = (w', res)"
  then show "lf_append cap w'"
    using within.write_sound [of cap w bs w' res] within.beyond_ok [of cap w bs w'] within.beyond_err [of cap w bs w']
    by (cases res) (auto simp: lf_append_def)
qed (auto simp: lf_append_def dest: within.write_ok within.write_err within.flush_same within.flush_beyond)

interpretation capped: recorder limited_outputs lf_content lf_patience "lf_append cap" lf_content lf_patience "lf_within cap"
    lf_beyond lf_content lf_patience "lf_append cap" for cap
  unfolding recorder_def limited_outputs_def
  using appended.writer_axioms within.seekable_axioms by simp

section \<open>Operations on one limited file\<close>

datatype lf_op = LfWrite bytes | LfFlush | LfRewind

fun lf_exec :: "lf_op \<Rightarrow> LimitedFile \<Rightarrow> LimitedFile" where
  "lf_exec (LfWrite bs) l = fst (LimitedFile_write l bs)"
| "lf_exec LfFlush l = fst (LimitedFile_flush l)"
| "lf_exec LfRewind l = fst (LimitedFile_rewind l)"

lemma lf_exec_ok: "lf_ok l \<Longrightarrow> lf_ok (lf_exec p l) \<and> lf_cap (lf_exec p l) = lf_cap l"
proof (cases p)
  case (LfWrite bs)
  assume "lf_ok l"
  moreover obtain l' r where "LimitedFile_write l bs = (l', r)" by fastforce
  ultimately show ?thesis
    using LfWrite LimitedFile_write_ok [of l bs l'] LimitedFile_write_err [of l bs l'] by (cases r) auto
next
  case LfFlush
  assume "lf_ok l"
  moreover obtain l' r where "LimitedFile_flush l = (l', r)" by fastforce
  ultimately show ?thesis using LfFlush LimitedFile_flush_same [of l l' r] by auto
qed (simp add: LimitedFile_rewind_ok')

lemma lf_opened_ok: "lf_ok (LimitedFile_opened cap script)"
  by (simp add: lf_ok_def LimitedFile_opened_def)

lemma lf_fold_ok: "lf_ok l \<Longrightarrow> lf_ok (fold lf_exec ps l) \<and> lf_cap (fold lf_exec ps l) = lf_cap l"
  by (induction ps arbitrary: l) (auto simp: lf_exec_ok)

lemma lf_opened_start:
  "lf_content (LimitedFile_opened cap script) = []" "lf_beyond (LimitedFile_opened cap script) = []"
  by (simp_all add: lf_content_def lf_beyond_def LimitedFile_opened_def)

lemma lf_data: "lf_content l @ lf_beyond l = f_data (lf_file l)"
  by (simp add: lf_content_def lf_beyond_def)

lemma accepted_prefix_all:
  "accepted_prefix part xs (length xs) B \<longleftrightarrow> B = concat (map (\<lambda>x. part (rec_kind x)) xs)"
  by (auto simp: accepted_prefix_def)

lemma new_recording_holds:
  obtains r res where "Recording_new limited_outputs i (LimitedFile_opened c s1) (LimitedFile_opened c s2)
      (LimitedFile_opened c s3) = Some (Some (r, res))" "\<not> isl res \<longrightarrow> capture.holds Khz8 r [] []"
  using capture.with_sample_rate_holds [of "LimitedFile_opened c s1" "LimitedFile_opened c s2" "LimitedFile_opened c s3" i Khz8]
  by (auto simp: Recording_new_def lf_opened_ok lf_opened_start)

section \<open>Properties\<close>

text \<open>
  A limited file never grows past its cap: whatever is written, flushed and rewound, and
  however the operating system cuts or fails the calls, the file holds at most the configured
  number of bytes; a write that would pass the cap stores nothing.
\<close>

lemma limited_file_within_cap:
  "let l = fold lf_exec ps (LimitedFile_opened cap script) in
     length (f_data (lf_file l)) \<le> cap \<and>
     (f_pos (lf_file l) + length bs \<le> cap \<or>
      (\<exists>l' e. LimitedFile_write l bs = (l', Inl e) \<and> f_data (lf_file l') = f_data (lf_file l)))"
proof -
  define l where "l = fold lf_exec ps (LimitedFile_opened cap script)"
  have ok: "lf_ok l" and cap: "lf_cap l = cap"
    using lf_fold_ok [OF lf_opened_ok, of ps cap script] by (simp_all add: l_def LimitedFile_opened_def)
  have "f_pos (lf_file l) + length bs \<le> cap \<or>
      (\<exists>l' e. LimitedFile_write l bs = (l', Inl e) \<and> f_data (lf_file l') = f_data (lf_file l))"
    by (rule LimitedFile_write_cases [OF ok, of bs]) (use cap in auto)
  with ok cap show ?thesis by (simp add: lf_ok_def Let_def l_def [symmetric])
qed

text \<open>
  C29: A recording on capped files always comes back: creating it and feeding it any records ends,
  without a panic, whatever the system calls do.  The wire file then holds exactly the transport
  bytes of the records accepted and at most a prefix of the first one refused, the WAVE file
  forty-four header bytes and the sample bytes likewise, the counts are exactly these lengths,
  and every record after the first refusal is refused.
\<close>

theorem recording_keeps_accepted_prefix:
  "case Recording_new limited_outputs i (LimitedFile_opened c s1) (LimitedFile_opened c s2) (LimitedFile_opened c s3) of
     Some (Some (r, Inr _)) \<Rightarrow>
       (case record_all limited_outputs d r xs of
          Some (Some (r', ress)) \<Rightarrow>
            length ress = length xs \<and> list_all isl (drop (accepted_count ress) ress) \<and>
            accepted_prefix wire_part xs (accepted_count ress) (lf_content (wire r')) \<and>
            wire_bytes (summary r') = length (lf_content (wire r')) \<and>
            accepted_prefix audio_part xs (accepted_count ress) (drop 44 (f_data (lf_file (wave r')))) \<and>
            length (f_data (lf_file (wave r'))) = 44 + audio_bytes (summary r')
        | _ \<Rightarrow> False)
   | Some (Some (r, Inl _)) \<Rightarrow> True
   | _ \<Rightarrow> False"
proof -
  obtain r res where new: "Recording_new limited_outputs i (LimitedFile_opened c s1) (LimitedFile_opened c s2)
      (LimitedFile_opened c s3) = Some (Some (r, res))" "\<not> isl res \<longrightarrow> capture.holds Khz8 r [] []"
    by (rule new_recording_holds)
  show ?thesis
  proof (cases res)
    case (Inl e)
    then show ?thesis using new by simp
  next
    case (Inr u)
    then obtain r' ress W A where all: "record_all limited_outputs d r xs = Some (Some (r', ress))"
      "length ress = length xs" "capture.holds Khz8 r' W A" "accepted_prefix wire_part xs (accepted_count ress) W"
      "accepted_prefix audio_part xs (accepted_count ress) A" "\<forall>y \<in> set (drop (accepted_count ress) ress). isl y"
      using new(2) capture.record_all_holds [of Khz8 r "[]" "[]" d xs] by auto
    obtain H where "length H = 44" "lf_content (wave r') = H @ A" "lf_beyond (wave r') = []"
      "lf_content (wire r') = W" "length W = wire_bytes (summary r')" "length A = audio_bytes (summary r')"
      using all(3) by (auto simp: capture.holds_def)
    moreover have "f_data (lf_file (wave r')) = H @ A" using calculation lf_data [of "wave r'"] by simp
    ultimately show ?thesis using all new(1) Inr by (simp add: list_all_iff)
  qed
qed

text \<open>
  C13: When a recording is finalized successfully its files are complete: every record was
  accepted, the wire file is the concatenation of all transport bytes, and the WAVE file is the
  header for exactly the concatenation of all samples followed by those samples, at the
  recorder's rate.  The summary reports these sizes.  Finalization always returns.
\<close>

theorem finished_recording_is_complete:
  "case Recording_new limited_outputs i (LimitedFile_opened c s1) (LimitedFile_opened c s2) (LimitedFile_opened c s3) of
     Some (Some (r, Inr _)) \<Rightarrow>
       (case record_all limited_outputs d r xs of
          Some (Some (r', ress)) \<Rightarrow>
            (case finish_recording limited_outputs r' of
               Some (Some (r'', Inr z)) \<Rightarrow>
                 accepted_count ress = length xs \<and>
                 lf_content (wire r'') = concat (map (\<lambda>x. wire_part (rec_kind x)) xs) \<and>
                 (let pcm = concat (map (\<lambda>x. audio_part (rec_kind x)) xs) in
                  f_data (lf_file (wave r'')) = header_of (length pcm) Khz8 @ pcm \<and> audio_bytes z = length pcm) \<and>
                 wire_bytes z = length (lf_content (wire r'')) \<and> patch_bytes z = 44
             | Some (Some (r'', Inl e)) \<Rightarrow> True
             | _ \<Rightarrow> False)
        | _ \<Rightarrow> False)
   | Some (Some (r, Inl _)) \<Rightarrow> True
   | _ \<Rightarrow> False"
proof -
  obtain r res where new: "Recording_new limited_outputs i (LimitedFile_opened c s1) (LimitedFile_opened c s2)
      (LimitedFile_opened c s3) = Some (Some (r, res))" "\<not> isl res \<longrightarrow> capture.holds Khz8 r [] []"
    by (rule new_recording_holds)
  show ?thesis
  proof (cases res)
    case (Inl e)
    then show ?thesis using new by simp
  next
    case (Inr u)
    then obtain r' ress W A where all: "record_all limited_outputs d r xs = Some (Some (r', ress))"
      "length ress = length xs" "capture.holds Khz8 r' W A" "accepted_prefix wire_part xs (accepted_count ress) W"
      "accepted_prefix audio_part xs (accepted_count ress) A"
      "accepted_count ress < length xs \<longrightarrow> rec_state r' = RecFailed"
      using new(2) capture.record_all_holds [of Khz8 r "[]" "[]" d xs] by auto
    show ?thesis
    proof (cases "rec_state r' = RecFailed")
      case True
      then show ?thesis using all(1) new(1) Inr by (simp add: finish_recording_def invalid_def yields_def)
    next
      case False
      have "accepted_count ress \<le> length xs" unfolding all(2) [symmetric] accepted_count_def by (rule length_takeWhile_le)
      then have n: "accepted_count ress = length xs" using all(6) False by auto
      have W: "W = concat (map (\<lambda>x. wire_part (rec_kind x)) xs)" and A: "A = concat (map (\<lambda>x. audio_part (rec_kind x)) xs)"
        using all(4,5) by (simp_all add: n accepted_prefix_all)
      obtain r'' fin where fin: "finish_recording limited_outputs r' = Some (Some (r'', fin))"
        "\<forall>z. fin = Inr z \<longrightarrow> lf_content (wire r'') = W \<and>
           lf_content (wave r'') @ lf_beyond (wave r'') = header_of (length A) Khz8 @ A \<and>
           z = (summary r')\<lparr>patch_bytes := 44\<rparr>"
        using capture.finish_recording_holds [OF all(3) False] by blast
      have "length W = wire_bytes (summary r')" "length A = audio_bytes (summary r')"
        using all(3) by (auto simp: capture.holds_def)
      then show ?thesis using all(1) new(1) Inr n fin W A
        by (cases fin) (simp_all add: Let_def lf_data)
    qed
  qed
qed

end
