(* ===== verification/Capture_Config.thy ===== *)
theory Capture_Config
  imports Wave_Recording
begin

text \<open>
  The command line of the capture application (\<open>Config\<close>, \<open>checked_output_bound\<close> and \<open>help\<close> in
  \<open>apps/phonowire-capture/src/main.rs\<close>): options, defaults, validation and the bound on everything
  a run may write.

  Two questions go to the platform and are parameters: whether a path is a directory, and how a
  socket address reads.  \<open>str::parse::<u64>\<close> is modelled as the standard library documents it:
  an optional plus sign and decimal digits, with every overflow an error.
\<close>

section \<open>Decimal numbers\<close>

definition digit_value :: "char \<Rightarrow> nat option" where
  "digit_value c = (let n = of_char c in if 48 \<le> n \<and> n \<le> (57::nat) then Some (n - 48) else None)"

fun parse_digits :: "nat \<Rightarrow> string \<Rightarrow> nat option" where
  "parse_digits acc [] = Some acc"
| "parse_digits acc (c # cs) =
     do {
       d \<leftarrow> digit_value c;
       m \<leftarrow> checked_mul U64_MAX acc 10;
       n \<leftarrow> checked_add U64_MAX m d;
       parse_digits n cs
     }"

definition parse_u64 :: "string \<Rightarrow> nat option" where
  "parse_u64 s =
     (case s of
        [] \<Rightarrow> None
      | c # cs \<Rightarrow> if c = CHR ''+'' \<and> cs \<noteq> [] then parse_digits 0 cs else parse_digits 0 s)"

section \<open>The configuration\<close>

definition HEADER :: nat where "HEADER = 44"

record Config =
  cfg_output :: string
  cfg_listen :: SocketAddr
  cfg_connections :: nat
  cfg_queue :: nat
  cfg_payload :: nat
  cfg_turns :: nat
  cfg_retained :: nat
  cfg_active :: nat
  cfg_run :: nat
  cfg_file :: nat
  cfg_summary :: nat
  cfg_status :: nat

record platform =
  is_dir :: "string \<Rightarrow> bool"
  parse_addr :: "string \<Rightarrow> SocketAddr option"

definition help_text :: string where
  "help_text =
     ''Usage: phonowire-capture --output DIRECTORY [options]'' @ [CHR 0x0A] @
     ''Options: --listen ADDR --max-connections N --queue-records N --payload-bytes N'' @ [CHR 0x0A] @
     ''--turn-steps N --retained-bytes N --max-active-recordings N --max-recordings-per-run N'' @ [CHR 0x0A] @
     ''--max-file-bytes N --max-recording-summary-bytes N --max-run-status-bytes N --help''"

definition known_options :: "string list" where
  "known_options =
     [''--output'', ''--listen'', ''--max-connections'', ''--queue-records'', ''--payload-bytes'',
      ''--turn-steps'', ''--retained-bytes'', ''--max-active-recordings'', ''--max-recordings-per-run'',
      ''--max-file-bytes'', ''--max-recording-summary-bytes'', ''--max-run-status-bytes'']"

definition starts_with :: "string \<Rightarrow> string \<Rightarrow> bool" where
  "starts_with s p \<longleftrightarrow> take (length p) s = p"

definition ok_then :: "'e + 'a \<Rightarrow> ('a \<Rightarrow> 'e + 'b) \<Rightarrow> 'e + 'b" where
  "ok_then r f = (case r of Inl e \<Rightarrow> Inl e | Inr a \<Rightarrow> f a)"

definition ok_or :: "'e \<Rightarrow> 'a option \<Rightarrow> 'e + 'a" where
  "ok_or e r = (case r of None \<Rightarrow> Inl e | Some a \<Rightarrow> Inr a)"

text \<open>The loop over the arguments after the program's name, two at a time.\<close>

fun parse_options :: "(string \<rightharpoonup> string) \<Rightarrow> string list \<Rightarrow> string + (string \<rightharpoonup> string)" where
  "parse_options values [] = Inr values"
| "parse_options values [option] =
     (if option \<notin> set known_options then Inl (''unknown option: '' @ option)
      else Inl (''missing value for '' @ option))"
| "parse_options values (option # v # rest) =
     (if option \<notin> set known_options then Inl (''unknown option: '' @ option)
      else if starts_with v ''--'' then Inl (''missing value for '' @ option)
      else if values option \<noteq> None then Inl (''duplicate option: '' @ option)
      else parse_options (values(option \<mapsto> v)) rest)"

definition setting :: "(string \<rightharpoonup> string) \<Rightarrow> string \<Rightarrow> string \<Rightarrow> string" where
  "setting values name dflt = (case values name of None \<Rightarrow> dflt | Some v \<Rightarrow> v)"

definition get_u64 :: "(string \<rightharpoonup> string) \<Rightarrow> string \<Rightarrow> string \<Rightarrow> string + nat" where
  "get_u64 values name dflt = ok_or (''invalid '' @ name) (parse_u64 (setting values name dflt))"

definition get_usize :: "(string \<rightharpoonup> string) \<Rightarrow> string \<Rightarrow> string \<Rightarrow> string + nat" where
  "get_usize values name dflt =
     ok_then (get_u64 values name dflt) (\<lambda>n. ok_or (''invalid '' @ name) (try_from USIZE_MAX n))"

definition checked_output_bound :: "nat \<Rightarrow> nat \<Rightarrow> nat \<Rightarrow> nat \<Rightarrow> string + nat" where
  "checked_output_bound recordings file_bytes summary_bytes status_bytes =
     ok_then (ok_or ''output limit overflow''
                (do { v \<leftarrow> checked_mul U64_MAX file_bytes 3; checked_add U64_MAX v summary_bytes })) (\<lambda>per_recording.
     ok_or ''output limit overflow''
       (do { v \<leftarrow> checked_mul U64_MAX recordings per_recording; checked_add U64_MAX v status_bytes }))"

definition Config_validate :: "platform \<Rightarrow> Config \<Rightarrow> string + unit" where
  "Config_validate env c =
     (if \<not> is_dir env (cfg_output c) then Inl ''--output must be an existing directory''
      else if cfg_file c < HEADER \<or> cfg_summary c = 0 \<or> cfg_status c = 0 then Inl ''infeasible output limits''
      else if cfg_active c = 0 \<or> cfg_active c > cfg_connections c
        then Inl ''max active recordings must be positive and no greater than max connections''
      else if cfg_connections c = 0 \<or> cfg_queue c = 0 \<or> cfg_payload c = 0 \<or> cfg_turns c = 0 \<or>
              cfg_retained c = 0 \<or> cfg_run c = 0
        then Inl ''receiver and recording limits must be positive''
      else ok_then (checked_output_bound (cfg_run c) (cfg_file c) (cfg_summary c) (cfg_status c)) (\<lambda>_. Inr ()))"

text \<open>The fields in the order in which the struct expression evaluates them.\<close>

definition Config_build :: "platform \<Rightarrow> (string \<rightharpoonup> string) \<Rightarrow> string + Config" where
  "Config_build env values =
     ok_then (ok_or ''--output is required'' (values ''--output'')) (\<lambda>outp.
     ok_then (ok_or ''invalid --listen'' (parse_addr env (setting values ''--listen'' ''127.0.0.1:9092''))) (\<lambda>addr.
     ok_then (get_usize values ''--max-connections'' ''16'') (\<lambda>connections.
     ok_then (get_usize values ''--queue-records'' ''128'') (\<lambda>queue_records.
     ok_then (ok_then (get_u64 values ''--payload-bytes'' ''4096'')
                (\<lambda>n. ok_or ''invalid --payload-bytes'' (try_from U16_MAX n))) (\<lambda>payload.
     ok_then (get_usize values ''--turn-steps'' ''64'') (\<lambda>turns.
     ok_then (get_usize values ''--retained-bytes'' ''1048576'') (\<lambda>retained.
     ok_then (get_usize values ''--max-active-recordings'' ''16'') (\<lambda>active.
     ok_then (get_u64 values ''--max-recordings-per-run'' ''64'') (\<lambda>run.
     ok_then (get_u64 values ''--max-file-bytes'' ''67108864'') (\<lambda>file_bytes.
     ok_then (get_u64 values ''--max-recording-summary-bytes'' ''4096'') (\<lambda>summary_bytes.
     ok_then (get_u64 values ''--max-run-status-bytes'' ''4096'') (\<lambda>status_bytes.
       Inr \<lparr>cfg_output = outp, cfg_listen = addr, cfg_connections = connections, cfg_queue = queue_records,
            cfg_payload = payload, cfg_turns = turns, cfg_retained = retained, cfg_active = active,
            cfg_run = run, cfg_file = file_bytes, cfg_summary = summary_bytes, cfg_status = status_bytes\<rparr>))))))))))))"

definition Config_parse :: "platform \<Rightarrow> string list \<Rightarrow> string + Config" where
  "Config_parse env arguments =
     (if length arguments = 2 \<and> arguments ! 1 = ''--help'' then Inl help_text
      else if ''--help'' \<in> set arguments then Inl ''--help cannot be combined with other options''
      else ok_then (parse_options Map.empty (drop 1 arguments)) (\<lambda>values.
           ok_then (Config_build env values) (\<lambda>c.
           ok_then (Config_validate env c) (\<lambda>_. Inr c))))"

section \<open>Facts about numbers and options\<close>

lemma ok_then_Inr: "ok_then r f = Inr b \<longleftrightarrow> (\<exists>a. r = Inr a \<and> f a = Inr b)"
  by (cases r) (simp_all add: ok_then_def)

lemma ok_or_Inr: "ok_or e r = Inr a \<longleftrightarrow> r = Some a"
  by (cases r) (simp_all add: ok_or_def)

lemmas ok_simps = ok_then_Inr ok_or_Inr

lemma digit_value_char: "d < 10 \<Longrightarrow> digit_value (digit_char d) = Some d"
  by (simp add: digit_value_def digit_char_def Let_def of_char_of)

lemma parse_digits_append:
  "parse_digits acc (s @ t) = do { n \<leftarrow> parse_digits acc s; parse_digits n t }"
  by (induction acc s rule: parse_digits.induct) (auto split: bind_splits)

lemma parse_digits_show: "n \<le> U64_MAX \<Longrightarrow> parse_digits 0 (show_nat n) = Some n"
proof (induction n rule: show_nat.induct)
  case (1 n)
  show ?case
  proof (cases "n < 10")
    case True
    then show ?thesis
      by (simp add: show_nat.simps [of n] digit_value_char checked_mul_def checked_add_def U64_MAX_def)
  next
    case False
    have "n div 10 \<le> U64_MAX" "n div 10 * 10 \<le> U64_MAX" using "1.prems" by simp_all
    then show ?thesis using False 1
      by (simp add: show_nat.simps [of n] parse_digits_append digit_value_char checked_mul_def checked_add_def)
  qed
qed

lemma show_nat_digits: "c \<in> set (show_nat n) \<Longrightarrow> digit_value c \<noteq> None"
proof (induction n rule: show_nat.induct)
  case (1 n)
  then show ?case by (cases "n < 10") (auto simp: show_nat.simps [of n] digit_value_char)
qed

lemma show_nat_not_Nil [simp]: "show_nat n \<noteq> []"
  by (simp add: show_nat.simps [of n])

lemma parse_u64_show: "n \<le> U64_MAX \<Longrightarrow> parse_u64 (show_nat n) = Some n"
proof -
  assume n: "n \<le> U64_MAX"
  obtain c cs where s: "show_nat n = c # cs" by (cases "show_nat n") auto
  have "digit_value c \<noteq> None" using show_nat_digits [of c n] s by simp
  then have "c \<noteq> CHR ''+''" by (auto simp: digit_value_def Let_def)
  then show ?thesis using parse_digits_show [OF n] s by (simp add: parse_u64_def)
qed

lemma show_nat_not_option: "\<not> starts_with (show_nat n) ''--''"
proof -
  obtain c cs where s: "show_nat n = c # cs" by (cases "show_nat n") auto
  have "digit_value c \<noteq> None" using show_nat_digits [of c n] s by simp
  then have "c \<noteq> CHR ''-''" by (auto simp: digit_value_def Let_def)
  then show ?thesis using s by (simp add: starts_with_def)
qed

lemma parse_digits_bound: "acc \<le> U64_MAX \<Longrightarrow> parse_digits acc s = Some n \<Longrightarrow> n \<le> U64_MAX"
  by (induction acc s rule: parse_digits.induct) (auto simp: checked_simps split: bind_splits)

lemma parse_u64_bound: "parse_u64 s = Some n \<Longrightarrow> n \<le> U64_MAX"
  by (auto simp: parse_u64_def simp del: parse_digits.simps dest: parse_digits_bound [rotated]
      split: list.splits if_splits)

lemma checked_output_bound_Inr:
  "checked_output_bound r f s t = Inr b \<longleftrightarrow> r * (3 * f + s) + t \<le> U64_MAX \<and> f * 3 + s \<le> U64_MAX \<and> b = r * (3 * f + s) + t"
  by (auto simp: checked_output_bound_def ok_simps checked_simps bind_eq_Some_conv mult.commute)

text \<open>What the options of a configuration say, and the values that may be left out.\<close>

definition config_options :: "(SocketAddr \<Rightarrow> string) \<Rightarrow> Config \<Rightarrow> (string \<times> string) list" where
  "config_options show_addr c =
     [(''--output'', cfg_output c), (''--listen'', show_addr (cfg_listen c)),
      (''--max-connections'', show_nat (cfg_connections c)), (''--queue-records'', show_nat (cfg_queue c)),
      (''--payload-bytes'', show_nat (cfg_payload c)), (''--turn-steps'', show_nat (cfg_turns c)),
      (''--retained-bytes'', show_nat (cfg_retained c)), (''--max-active-recordings'', show_nat (cfg_active c)),
      (''--max-recordings-per-run'', show_nat (cfg_run c)), (''--max-file-bytes'', show_nat (cfg_file c)),
      (''--max-recording-summary-bytes'', show_nat (cfg_summary c)), (''--max-run-status-bytes'', show_nat (cfg_status c))]"

definition default_options :: "(string \<times> string) list" where
  "default_options =
     [(''--listen'', ''127.0.0.1:9092''), (''--max-connections'', ''16''), (''--queue-records'', ''128''),
      (''--payload-bytes'', ''4096''), (''--turn-steps'', ''64''), (''--retained-bytes'', ''1048576''),
      (''--max-active-recordings'', ''16''), (''--max-recordings-per-run'', ''64''), (''--max-file-bytes'', ''67108864''),
      (''--max-recording-summary-bytes'', ''4096''), (''--max-run-status-bytes'', ''4096'')]"

definition command_line :: "(string \<times> string) list \<Rightarrow> string list" where
  "command_line ps = concat (map (\<lambda>(name, v). [name, v]) ps)"

definition config_bounded :: "Config \<Rightarrow> bool" where
  "config_bounded c \<longleftrightarrow>
     cfg_connections c \<le> USIZE_MAX \<and> cfg_queue c \<le> USIZE_MAX \<and> cfg_payload c \<le> U16_MAX \<and> cfg_turns c \<le> USIZE_MAX \<and>
     cfg_retained c \<le> USIZE_MAX \<and> cfg_active c \<le> USIZE_MAX \<and> cfg_run c \<le> U64_MAX \<and> cfg_file c \<le> U64_MAX \<and>
     cfg_summary c \<le> U64_MAX \<and> cfg_status c \<le> U64_MAX"

lemma command_line_simps [simp]:
  "command_line [] = []" "command_line ((name, v) # ps) = name # v # command_line ps"
  by (simp_all add: command_line_def)

lemma parse_command_line:
  assumes "fst ` set ps \<subseteq> set known_options" "distinct (map fst ps)" "\<forall>p \<in> set ps. \<not> starts_with (snd p) ''--''"
    "\<forall>p \<in> set ps. values (fst p) = None"
  shows "\<exists>values'. parse_options values (command_line ps) = Inr values' \<and>
    (\<forall>name. values' name = (case map_of ps name of None \<Rightarrow> values name | Some v \<Rightarrow> Some v))"
  using assms
proof (induction ps arbitrary: "values")
  case (Cons p ps)
  obtain name v where p: "p = (name, v)" by fastforce
  have "\<forall>q \<in> set ps. (values(name \<mapsto> v)) (fst q) = None" "fst ` set ps \<subseteq> set known_options" "distinct (map fst ps)"
    "\<forall>p \<in> set ps. \<not> starts_with (snd p) ''--''" using Cons.prems p by (auto simp: image_iff)
  then obtain values' where "parse_options (values(name \<mapsto> v)) (command_line ps) = Inr values'"
    "\<forall>n. values' n = (case map_of ps n of None \<Rightarrow> (values(name \<mapsto> v)) n | Some v \<Rightarrow> Some v)"
    using Cons.IH [of "values(name \<mapsto> v)"] by blast
  moreover have "map_of ps name = None" using Cons.prems p by (simp add: map_of_eq_None_iff)
  ultimately show ?case using Cons.prems p by (auto split: option.splits)
qed simp

lemma parsed_config_is_valid:
  assumes "Config_parse env arguments = Inr c"
  shows "is_dir env (cfg_output c) \<and> config_bounded c \<and> HEADER \<le> cfg_file c \<and>
    0 < cfg_summary c \<and> 0 < cfg_status c \<and> 0 < cfg_active c \<and> cfg_active c \<le> cfg_connections c \<and>
    0 < cfg_queue c \<and> 0 < cfg_payload c \<and> 0 < cfg_turns c \<and> 0 < cfg_retained c \<and> 0 < cfg_run c \<and>
    checked_output_bound (cfg_run c) (cfg_file c) (cfg_summary c) (cfg_status c) =
      Inr (cfg_run c * (3 * cfg_file c + cfg_summary c) + cfg_status c) \<and>
    cfg_run c * (3 * cfg_file c + cfg_summary c) + cfg_status c \<le> U64_MAX"
proof -
  obtain values' where build: "Config_build env values' = Inr c" and valid: "Config_validate env c = Inr ()"
    using assms by (auto simp: Config_parse_def ok_simps split: if_splits)
  have "config_bounded c" using build
    by (auto simp: Config_build_def ok_simps get_usize_def get_u64_def checked_simps config_bounded_def
        dest: parse_u64_bound)
  with valid show ?thesis
    by (auto simp: Config_validate_def ok_simps checked_output_bound_Inr split: if_splits)
qed

section \<open>Properties\<close>

text \<open>
  C38: A configuration that the command line yields is one the run can keep: the output directory
  exists, every limit is positive and fits its type, the active recordings fit the connections,
  each file has room for a WAVE header, and the bound on everything the run may write, all
  recordings with three files and a summary each and the run status, is representable.
\<close>

theorem parsed_config_is_feasible:
  assumes "Config_parse env arguments = Inr c"
  shows "is_dir env (cfg_output c) \<and> config_bounded c \<and> HEADER \<le> cfg_file c \<and>
    0 < cfg_summary c \<and> 0 < cfg_status c \<and> 0 < cfg_active c \<and> cfg_active c \<le> cfg_connections c \<and>
    0 < cfg_queue c \<and> 0 < cfg_payload c \<and> 0 < cfg_turns c \<and> 0 < cfg_retained c \<and> 0 < cfg_run c \<and>
    checked_output_bound (cfg_run c) (cfg_file c) (cfg_summary c) (cfg_status c) =
      Inr (cfg_run c * (3 * cfg_file c + cfg_summary c) + cfg_status c) \<and>
    cfg_run c * (3 * cfg_file c + cfg_summary c) + cfg_status c \<le> U64_MAX"
  using assms by (rule parsed_config_is_valid)

text \<open>
  C39: The command line is read back as written: giving a valid configuration's options in any
  order, each at most once, and leaving out any that have their default value, yields exactly
  that configuration.  The hypothesis on addresses is that printing and reading one agree.
\<close>

theorem command_line_roundtrip:
  assumes valid: "Config_validate env c = Inr ()" "config_bounded c"
    and options: "distinct (map fst ps)" "set ps \<subseteq> set (config_options show_addr c)"
      "set (config_options show_addr c) - set ps \<subseteq> set default_options"
    and names: "\<not> starts_with (cfg_output c) ''--''" "program \<noteq> ''--help''"
    and addresses: "\<And>a. parse_addr env (show_addr a) = Some a" "\<And>a. \<not> starts_with (show_addr a) ''--''"
  shows "Config_parse env (program # command_line ps) = Inr c"
proof -
  have known: "fst ` set ps \<subseteq> set known_options"
    using options(2) by (fastforce simp: config_options_def known_options_def)
  have texts: "\<forall>p \<in> set ps. \<not> starts_with (snd p) ''--''"
    using options(2) names(1) addresses(2) by (auto simp: config_options_def show_nat_not_option)
  have "(case map_of ps name of None \<Rightarrow> None | Some v \<Rightarrow> Some v) = map_of ps name" for name
    by (cases "map_of ps name") simp_all
  then obtain values' where parse: "parse_options Map.empty (command_line ps) = Inr values'"
    and vals: "\<forall>name. values' name = map_of ps name"
    using parse_command_line [OF known options(1) texts, of Map.empty] by auto
  have given: "setting values' name dflt = v"
    if "(name, v) \<in> set (config_options show_addr c)" "(name, dflt) \<in> set default_options" for name v dflt
  proof (cases "(name, v) \<in> set ps")
    case True
    then show ?thesis using vals options(1) by (simp add: setting_def)
  next
    case False
    then have "(name, v) \<in> set default_options" using that(1) options(3) by blast
    then have "v = dflt" using that(2) by (auto simp: default_options_def)
    moreover have "name \<notin> fst ` set ps"
    proof
      assume "name \<in> fst ` set ps"
      then obtain u where "(name, u) \<in> set ps" by auto
      moreover from this have "(name, u) \<in> set (config_options show_addr c)" using options(2) by blast
      then have "u = v" using that(1) by (auto simp: config_options_def)
      ultimately show False using False by simp
    qed
    then have "values' name = None" using vals by (simp add: map_of_eq_None_iff)
    ultimately show ?thesis by (simp add: setting_def)
  qed
  have "(''--output'', cfg_output c) \<in> set ps"
    using options(3) by (auto simp: config_options_def default_options_def)
  then have outp: "values' ''--output'' = Some (cfg_output c)" using vals options(1) by simp
  have "''--help'' \<notin> set (command_line ps)"
    using known texts by (auto simp: command_line_def known_options_def starts_with_def)
  moreover have "Config_build env values' = Inr c"
    using valid(2)
    by (simp add: Config_build_def get_usize_def get_u64_def outp given [unfolded config_options_def default_options_def]
        parse_u64_show addresses config_bounded_def ok_then_def ok_or_def try_from_def U64_MAX_def USIZE_MAX_def U16_MAX_def)
  moreover have "(program # command_line ps) ! 1 \<noteq> ''--help'' \<or> length (program # command_line ps) \<noteq> 2"
    using calculation(1) by (cases "command_line ps") auto
  ultimately show ?thesis using names(2) parse valid(1)
    by (auto simp: Config_parse_def ok_then_def)
qed

text \<open>A platform with one directory, on which an address is read as it is written.\<close>

definition demo_platform :: platform where
  "demo_platform = \<lparr>is_dir = (\<lambda>p. p = ''out''), parse_addr = (\<lambda>a. if starts_with a ''--'' then None else Some a)\<rparr>"

definition demo_config :: Config where
  "demo_config =
     \<lparr>cfg_output = ''out'', cfg_listen = ''127.0.0.1:9092'', cfg_connections = 16, cfg_queue = 7, cfg_payload = 4096,
      cfg_turns = 64, cfg_retained = 1048576, cfg_active = 16, cfg_run = 64, cfg_file = 67108864, cfg_summary = 4096,
      cfg_status = 4096\<rparr>"

definition demo_arguments :: "string list" where
  "demo_arguments = [''capture'', ''--queue-records'', ''7'', ''--output'', ''out'']"

lemmas config_eval = Config_parse_def Config_build_def Config_validate_def get_usize_def get_u64_def setting_def
  parse_u64_def digit_value_def known_options_def starts_with_def checked_output_bound_def ok_then_def ok_or_def
  checked_mul_def checked_add_def try_from_def U64_MAX_def USIZE_MAX_def U16_MAX_def HEADER_def Let_def

lemma demo_parse: "Config_parse demo_platform demo_arguments = Inr demo_config"
  by (simp add: config_eval demo_arguments_def demo_platform_def demo_config_def)

theorem parsed_config_is_feasible_witness:
  "Config_parse demo_platform demo_arguments = Inr demo_config \<and>
   cfg_run demo_config * (3 * cfg_file demo_config + cfg_summary demo_config) + cfg_status demo_config \<le> U64_MAX"
  using parsed_config_is_feasible [OF demo_parse] demo_parse by simp

theorem command_line_roundtrip_witness:
  "Config_parse \<lparr>is_dir = \<lambda>p. p = ''out'', parse_addr = \<lambda>a. Some (drop 1 a)\<rparr>
     (''capture'' # command_line [(''--listen'', ''@127.0.0.1:9092''), (''--queue-records'', ''7''), (''--output'', ''out'')]) =
   Inr demo_config"
proof (rule command_line_roundtrip [where show_addr = "\<lambda>a. CHR ''@'' # a"])
  have numbers: "show_nat 16 = ''16''" "show_nat 7 = ''7''" "show_nat 4096 = ''4096''" "show_nat 64 = ''64''"
    "show_nat 1048576 = ''1048576''" "show_nat 67108864 = ''67108864''"
    by (simp_all add: show_nat.simps digit_char_def char_of_def bit_0)
  show "set [(''--listen'', ''@127.0.0.1:9092''), (''--queue-records'', ''7''), (''--output'', ''out'')]
    \<subseteq> set (config_options (\<lambda>a. CHR ''@'' # a) demo_config)"
    by (simp add: config_options_def demo_config_def numbers)
  show "set (config_options (\<lambda>a. CHR ''@'' # a) demo_config) -
      set [(''--listen'', ''@127.0.0.1:9092''), (''--queue-records'', ''7''), (''--output'', ''out'')] \<subseteq> set default_options"
    by (auto simp: config_options_def demo_config_def numbers default_options_def)
qed (simp_all add: config_eval config_bounded_def demo_config_def)

end
