(* ===== verification/Capture_Stop.thy ===== *)
theory Capture_Stop
  imports Task_Scheduler
begin

text \<open>
  How the capture application stops its receiver (\<open>Cause\<close>, \<open>StopInfo\<close>, \<open>Control\<close> and
  \<open>claim_stop\<close> in \<open>apps/phonowire-capture/src/main.rs\<close>).  The main thread and the signal
  thread share one \<open>Control\<close>: an atomic flag decides who stops the receiver, and a mutex guards
  the explanation.  A request is one step: the flag is swapped first and the loser changes
  nothing else, so requests that overlap act like requests one after the other in the order of
  the swaps; the count of signals is a separate field.  \<open>wr\<close> is the result of waking the
  worker's poller, \<open>kind_text\<close> the text of an error kind.
\<close>

section \<open>The stop handle\<close>

definition StopHandle_stop :: "io_error + unit \<Rightarrow> Signals \<Rightarrow> Signals \<times> (io_error + unit)" where
  "StopHandle_stop wr s = signal_request wr s SigStop"

section \<open>Control\<close>

datatype Cause = CauseSignal | CauseLocal | CauseAdmission

fun Cause_text :: "Cause \<Rightarrow> string" where
  "Cause_text CauseSignal = ''signal''"
| "Cause_text CauseLocal = ''local_failure''"
| "Cause_text CauseAdmission = ''admission_exhausted''"

record StopInfo =
  stop_cause_of :: "Cause option"
  stop_wake :: "string option"
  stop_signals :: nat

definition StopInfo_default :: StopInfo where
  "StopInfo_default = \<lparr>stop_cause_of = None, stop_wake = None, stop_signals = 0\<rparr>"

record Control =
  ctl_stop :: Signals
  ctl_won :: bool
  ctl_info :: StopInfo

definition Control_new :: "Signals \<Rightarrow> Control" where
  "Control_new s = \<lparr>ctl_stop = s, ctl_won = False, ctl_info = StopInfo_default\<rparr>"

text \<open>The flag and the information after the call, and whether this caller won.\<close>

definition claim_stop :: "bool \<Rightarrow> StopInfo \<Rightarrow> Cause \<Rightarrow> bool \<times> StopInfo \<times> bool" where
  "claim_stop won info cause =
     (if won then (True, info, False) else (True, info\<lparr>stop_cause_of := Some cause\<rparr>, True))"

definition stop_wake_failed :: "StopInfo \<Rightarrow> bool" where
  "stop_wake_failed info \<longleftrightarrow> stop_wake info \<noteq> None"

definition Control_request :: "(ErrorKind \<Rightarrow> string) \<Rightarrow> io_error + unit \<Rightarrow> Control \<Rightarrow> Cause \<Rightarrow> Control" where
  "Control_request kind_text wr ctl cause =
     (case claim_stop (ctl_won ctl) (ctl_info ctl) cause of (won, info, claimed) \<Rightarrow>
        if \<not> claimed then ctl\<lparr>ctl_won := won, ctl_info := info\<rparr>
        else (case StopHandle_stop wr (ctl_stop ctl) of
                (s, Inl e) \<Rightarrow> ctl\<lparr>ctl_stop := s, ctl_won := won, ctl_info := info\<lparr>stop_wake := Some (kind_text (io_kind e))\<rparr>\<rparr>
              | (s, Inr _) \<Rightarrow> ctl\<lparr>ctl_stop := s, ctl_won := won, ctl_info := info\<rparr>))"

definition Control_signal :: "(ErrorKind \<Rightarrow> string) \<Rightarrow> io_error + unit \<Rightarrow> Control \<Rightarrow> Control" where
  "Control_signal kind_text wr ctl =
     Control_request kind_text wr
       (ctl\<lparr>ctl_info := (ctl_info ctl)\<lparr>stop_signals := saturating_add U64_MAX (stop_signals (ctl_info ctl)) 1\<rparr>\<rparr>)
       CauseSignal"

section \<open>Sequences of requests\<close>

datatype stop_op = Requested Cause "io_error + unit" | Signalled "io_error + unit"

fun stop_exec :: "(ErrorKind \<Rightarrow> string) \<Rightarrow> stop_op \<Rightarrow> Control \<Rightarrow> Control" where
  "stop_exec kt (Requested cause wr) ctl = Control_request kt wr ctl cause"
| "stop_exec kt (Signalled wr) ctl = Control_signal kt wr ctl"

fun op_cause :: "stop_op \<Rightarrow> Cause" where
  "op_cause (Requested cause wr) = cause"
| "op_cause (Signalled wr) = CauseSignal"

fun op_wake :: "stop_op \<Rightarrow> io_error + unit" where
  "op_wake (Requested cause wr) = wr"
| "op_wake (Signalled wr) = wr"

fun is_signal :: "stop_op \<Rightarrow> bool" where
  "is_signal (Requested cause wr) = False"
| "is_signal (Signalled wr) = True"

lemma stop_exec_won:
  assumes "ctl_won ctl"
  shows "stop_exec kt p ctl = ctl\<lparr>ctl_info := (ctl_info ctl)\<lparr>stop_signals :=
    (if is_signal p then saturating_add U64_MAX (stop_signals (ctl_info ctl)) 1 else stop_signals (ctl_info ctl))\<rparr>\<rparr>"
  using assms by (cases p) (simp_all add: Control_signal_def Control_request_def claim_stop_def)

lemma stop_fold_won:
  assumes "ctl_won ctl" "stop_signals (ctl_info ctl) \<le> U64_MAX"
  shows "fold (stop_exec kt) ps ctl = ctl\<lparr>ctl_info := (ctl_info ctl)\<lparr>stop_signals :=
    min (stop_signals (ctl_info ctl) + length (filter is_signal ps)) U64_MAX\<rparr>\<rparr>"
  using assms
  by (induction ps arbitrary: ctl) (simp_all add: stop_exec_won saturating_add_def)

lemma request_requests_stop: "ctl_won ctl \<longrightarrow> stop_requested (ctl_stop ctl) \<Longrightarrow> stop_requested (ctl_stop (Control_request kt wr ctl c))"
  by (auto simp: Control_request_def claim_stop_def StopHandle_stop_def signal_request_def stop_requested_def
      remember_def Let_def split: prod.splits sum.splits option.splits)

section \<open>Properties\<close>

text \<open>
  C37: However requests from the main thread and signals interleave, the receiver is told to stop
  exactly once, by the first of them: its cause is the one that is reported and no later request
  overwrites it, the wake failure recorded is that of this one call, the stop flag is set even
  when waking failed, and every signal is counted.
\<close>

theorem first_stop_cause_wins:
  "let ctl = fold (stop_exec kt) ps (Control_new s) in
   stop_cause_of (ctl_info ctl) = (case ps of [] \<Rightarrow> None | p # _ \<Rightarrow> Some (op_cause p)) \<and>
   ctl_stop ctl = (case ps of [] \<Rightarrow> s | p # _ \<Rightarrow> fst (StopHandle_stop (op_wake p) s)) \<and>
   stop_wake (ctl_info ctl) =
     (case ps of
        [] \<Rightarrow> None
      | p # _ \<Rightarrow> (case snd (StopHandle_stop (op_wake p) s) of Inl e \<Rightarrow> Some (kt (io_kind e)) | Inr _ \<Rightarrow> None)) \<and>
   (ps \<noteq> [] \<longleftrightarrow> ctl_won ctl) \<and> (ps = [] \<or> stop_requested (ctl_stop ctl)) \<and>
   stop_signals (ctl_info ctl) = min (length (filter is_signal ps)) U64_MAX"
proof (cases ps)
  case Nil
  then show ?thesis by (simp add: Control_new_def StopInfo_default_def)
next
  case (Cons p rest)
  let ?ctl = "stop_exec kt p (Control_new s)"
  have first: "ctl_won ?ctl" "stop_cause_of (ctl_info ?ctl) = Some (op_cause p)"
    "ctl_stop ?ctl = fst (StopHandle_stop (op_wake p) s)"
    "stop_wake (ctl_info ?ctl) = (case snd (StopHandle_stop (op_wake p) s) of Inl e \<Rightarrow> Some (kt (io_kind e)) | Inr _ \<Rightarrow> None)"
    "stop_signals (ctl_info ?ctl) = (if is_signal p then 1 else 0)"
    by (cases p; simp add: Control_new_def StopInfo_default_def Control_signal_def Control_request_def claim_stop_def
        saturating_add_def U64_MAX_def split: prod.splits sum.splits)+
  moreover have "stop_requested (ctl_stop ?ctl)"
    by (cases p) (simp_all add: Control_signal_def request_requests_stop Control_new_def)
  moreover have "fold (stop_exec kt) rest ?ctl = ?ctl\<lparr>ctl_info := (ctl_info ?ctl)\<lparr>stop_signals :=
      min (stop_signals (ctl_info ?ctl) + length (filter is_signal rest)) U64_MAX\<rparr>\<rparr>"
    by (rule stop_fold_won) (use first in \<open>simp_all add: U64_MAX_def\<close>)
  ultimately show ?thesis using Cons by (simp add: Let_def)
qed

end
