(* ===== verification/Capture_App.thy ===== *)
theory Capture_App
  imports Limited_File Capture_Config Capture_Stop Ordered_Map Run_Summary
begin

text \<open>
  The capture application's main loop and finalization (\<open>run\<close> and the functions it calls in
  \<open>apps/phonowire-capture/src/main.rs\<close>): one directory with three capped files per connection,
  a summary for each recording, and a status for the run.

  A path is the list of its components.  The operating system answers through \<open>capture_env\<close>:
  the result of creating a directory or opening a file, and the script of calls on each file that
  is opened.  Creation is exclusive, so a name that exists already is refused.  The records that
  the receiver hands over and the signals that arrive are one sequence of events, each with the
  result \<open>wr\<close> of waking the worker if it causes a stop.  When the application lets go of a file
  its bytes stay on the disk: \<open>cp_disk\<close> lists them.
\<close>

section \<open>State\<close>

type_synonym path = "string list"
type_synonym recorder = "(LimitedFile, LimitedFile, LimitedFile) Recording"

record Receipt =
  rcp_stage :: string
  rcp_class :: string
  rcp_summary :: RecordingSummary
  rcp_dropped :: nat
  rcp_bytes :: nat

datatype CaptureEntry = CActive recorder path | CFailed Receipt path

record Counts =
  n_admission :: nat
  n_stopped :: nat
  n_unowned :: nat
  n_unowned_bytes :: nat
  n_failed :: nat
  n_failed_bytes :: nat
  n_metadata :: nat

definition Counts_default :: Counts where
  "Counts_default =
     \<lparr>n_admission = 0, n_stopped = 0, n_unowned = 0, n_unowned_bytes = 0, n_failed = 0, n_failed_bytes = 0, n_metadata = 0\<rparr>"

record capture =
  cp_map :: "(ConnectionId, CaptureEntry) btree"
  cp_reserved :: nat
  cp_counts :: Counts
  cp_bad :: bool
  cp_control :: Control
  cp_names :: "path list"
  cp_disk :: "(path \<times> bytes) list"

record capture_env =
  ce_debug :: debug_texts
  ce_kind_text :: "ErrorKind \<Rightarrow> string"
  ce_create_dir :: "path \<Rightarrow> io_error + unit"
  ce_open :: "path \<Rightarrow> io_error + os_step list"

definition capture_new :: "Signals \<Rightarrow> path list \<Rightarrow> capture" where
  "capture_new s names =
     \<lparr>cp_map = [], cp_reserved = 0, cp_counts = Counts_default, cp_bad = False, cp_control = Control_new s,
      cp_names = names, cp_disk = []\<rparr>"

section \<open>Files\<close>

definition file_exists :: io_error where
  "file_exists = \<lparr>io_kind = OtherKind, raw_os_error = Some 17\<rparr>"

definition create_dir :: "capture_env \<Rightarrow> capture \<Rightarrow> path \<Rightarrow> capture \<times> (io_error + unit)" where
  "create_dir env st p =
     (case ce_create_dir env p of
        Inl e \<Rightarrow> (st, Inl e)
      | Inr _ \<Rightarrow> if p \<in> set (cp_names st) then (st, Inl file_exists) else (st\<lparr>cp_names := p # cp_names st\<rparr>, Inr ()))"

definition LimitedFile_create :: "capture_env \<Rightarrow> capture \<Rightarrow> path \<Rightarrow> nat \<Rightarrow> capture \<times> (io_error + LimitedFile)" where
  "LimitedFile_create env st p cap =
     (case ce_open env p of
        Inl e \<Rightarrow> (st, Inl e)
      | Inr script \<Rightarrow>
          if p \<in> set (cp_names st) then (st, Inl file_exists)
          else (st\<lparr>cp_names := p # cp_names st\<rparr>, Inr (LimitedFile_opened cap script)))"

definition let_go :: "capture \<Rightarrow> (path \<times> LimitedFile) list \<Rightarrow> capture" where
  "let_go st fs = st\<lparr>cp_disk := map (\<lambda>(p, l). (p, f_data (lf_file l))) fs @ cp_disk st\<rparr>"

definition recorder_files :: "recorder \<Rightarrow> path \<Rightarrow> (path \<times> LimitedFile) list" where
  "recorder_files r dir =
     [(dir @ [''wire.bin''], wire r), (dir @ [''audio.wav''], wave r), (dir @ [''events.log''], events r)]"

definition write_json :: "capture_env \<Rightarrow> capture \<Rightarrow> path \<Rightarrow> nat \<Rightarrow> string \<Rightarrow> (capture \<times> (io_error + unit)) effect" where
  "write_json env st p cap s =
     (case LimitedFile_create env st p cap of
        (st, Inl e) \<Rightarrow> yields (st, Inl e)
      | (st, Inr l) \<Rightarrow>
          and_then (write_loop limited_sink l (as_bytes s) 0) (\<lambda>(l, n, res).
            case res of
              Inl e \<Rightarrow> yields (let_go st [(p, l)], Inl e)
            | Inr _ \<Rightarrow> (case LimitedFile_flush l of (l, res) \<Rightarrow> yields (let_go st [(p, l)], res))))"

section \<open>Texts\<close>

fun stage_text :: "RecordingStage \<Rightarrow> string" where
  "stage_text Validate = ''validate''"
| "stage_text StHeader = ''header''"
| "stage_text StWire = ''wire''"
| "stage_text StAudio = ''audio''"
| "stage_text StEvents = ''events''"
| "stage_text StSeek = ''seek''"
| "stage_text StPatch = ''patch''"
| "stage_text FlushWire = ''flush_wire''"
| "stage_text FlushWave = ''flush_wave''"
| "stage_text FlushEvents = ''flush_events''"

fun TerminalKind_debug :: "TerminalKind \<Rightarrow> string" where
  "TerminalKind_debug TkCleanEof = ''CleanEof''"
| "TerminalKind_debug TkTerminate = ''Terminate''"
| "TerminalKind_debug TkPeerError = ''PeerError''"
| "TerminalKind_debug TkInvalidMessage = ''InvalidMessage''"
| "TerminalKind_debug TkDecode = ''Decode''"
| "TerminalKind_debug TkTruncated = ''Truncated''"
| "TerminalKind_debug TkPolicy = ''Policy''"
| "TerminalKind_debug TkTransport = ''Transport''"
| "TerminalKind_debug TkResourceRefused = ''ResourceRefused''"
| "TerminalKind_debug TkOffsetExhausted = ''OffsetExhausted''"

fun RecordingEnd_debug :: "RecordingEnd \<Rightarrow> string" where
  "RecordingEnd_debug Incomplete = ''Incomplete''"
| "RecordingEnd_debug (Observed t) = ''Observed('' @ TerminalKind_debug t @ '')''"

fun StopCause_debug :: "StopCause option \<Rightarrow> string" where
  "StopCause_debug None = ''None''"
| "StopCause_debug (Some StopRequested) = ''Some(Requested)''"
| "StopCause_debug (Some ConsumerDisconnected) = ''Some(ConsumerDisconnected)''"

definition quoted :: "string \<Rightarrow> string" where
  "quoted s = CHR 0x22 # s @ [CHR 0x22]"

fun joined :: "string list \<Rightarrow> string" where
  "joined [] = ''''"
| "joined [s] = s"
| "joined (s # t # ts) = s @ '','' @ joined (t # ts)"

definition json_object :: "(string \<times> string) list \<Rightarrow> string" where
  "json_object kvs = ''{'' @ joined (map (\<lambda>(k, v). quoted k @ '':'' @ v) kvs) @ ''}''"

definition json_summary :: "ConnectionId \<Rightarrow> string \<Rightarrow> RecordingSummary \<Rightarrow> Receipt option \<Rightarrow> string" where
  "json_summary i outcome s r =
     (let (st, cl, dropped, bytes) =
            (case r of
               None \<Rightarrow> (''null'', ''null'', 0, 0)
             | Some x \<Rightarrow> (rcp_stage x, rcp_class x, rcp_dropped x, rcp_bytes x)) in
      json_object
        [(''connection'', json_object [(''instance'', show_nat (conn_instance i)), (''sequence'', show_nat (conn_sequence i))]),
         (''outcome'', quoted outcome),
         (''recording'', json_object
            [(''wire_bytes'', show_nat (wire_bytes s)), (''audio_bytes'', show_nat (audio_bytes s)),
             (''event_bytes'', show_nat (event_bytes s)), (''header_bytes'', show_nat (header_bytes s)),
             (''patch_bytes'', show_nat (patch_bytes s)), (''end'', quoted (RecordingEnd_debug (rec_end s)))]),
         (''failure'', json_object
            [(''stage'', quoted st), (''class'', quoted cl), (''dropped_records'', show_nat dropped),
             (''dropped_bytes'', show_nat bytes)])])"

definition bool_text :: "bool \<Rightarrow> string" where
  "bool_text b = (if b then ''true'' else ''false'')"

definition receiver_json :: "RunSummary option \<Rightarrow> string" where
  "receiver_json s =
     (case s of
        None \<Rightarrow> ''null''
      | Some x \<Rightarrow> json_object
          [(''transient_accept_errors'', show_nat (transient_accept_errors x)),
           (''resource_pause_entries'', show_nat (resource_pause_entries x)),
           (''retry_quota_backoffs'', show_nat (retry_quota_backoffs x)),
           (''accepted'', show_nat (accepted x)), (''refused'', show_nat (refused x)), (''ended'', show_nat (ended x)),
           (''abandoned'', show_nat (abandoned x)), (''live'', show_nat (live_at_stop x)),
           (''raw_bytes_read'', show_nat (raw_bytes_read x)),
           (''raw_bytes_handed_off'', show_nat (raw_bytes_handed_off x)),
           (''undelivered_raw_bytes'', show_nat (undelivered_raw_bytes x)),
           (''records_handed_off'', show_nat (records_handed_off x)),
           (''undelivered_records'', show_nat (undelivered_records x)),
           (''retained_output_bytes'', show_nat (retained_output_bytes x)),
           (''fixed_buffer_capacity'', show_nat (run_buffer_capacity x)),
           (''stopped_by'', quoted (StopCause_debug (stopped_by x))),
           (''counters_complete'', bool_text (counters_complete x))])"

section \<open>Recordings\<close>

definition Receipt_from_error :: "RecordingError \<Rightarrow> Receipt" where
  "Receipt_from_error e =
     \<lparr>rcp_stage = stage_text (err_stage e),
      rcp_class = (case err_failure e of Io _ \<Rightarrow> ''io'' | Invalid _ \<Rightarrow> ''invalid''),
      rcp_summary = err_summary e, rcp_dropped = 0, rcp_bytes = 0\<rparr>"

definition create_receipt :: Receipt where
  "create_receipt =
     \<lparr>rcp_stage = ''create'', rcp_class = ''io'', rcp_summary = RecordingSummary_default, rcp_dropped = 0, rcp_bytes = 0\<rparr>"

definition record_bytes :: "Record \<Rightarrow> nat" where
  "record_bytes x =
     (case rec_kind x of
        RWire b \<Rightarrow> (case try_from U64_MAX (length (as_slice b)) of None \<Rightarrow> U64_MAX | Some n \<Rightarrow> n)
      | RAudio u rate b \<Rightarrow> (case try_from U64_MAX (length (as_slice b)) of None \<Rightarrow> U64_MAX | Some n \<Rightarrow> n)
      | _ \<Rightarrow> 0)"

text \<open>The pair of counters that \<open>add\<close> increments.\<close>

definition add_record :: "nat \<Rightarrow> nat \<Rightarrow> Record \<Rightarrow> nat \<times> nat" where
  "add_record n b x = (saturating_add U64_MAX n 1, saturating_add U64_MAX b (record_bytes x))"

definition successful_terminal :: "RecordingEnd \<Rightarrow> bool" where
  "successful_terminal e \<longleftrightarrow> e = Observed TkCleanEof \<or> e = Observed TkTerminate"

definition write_summary ::
  "capture_env \<Rightarrow> capture \<Rightarrow> path \<Rightarrow> nat \<Rightarrow> ConnectionId \<Rightarrow> string \<Rightarrow> RecordingSummary \<Rightarrow> Receipt option
     \<Rightarrow> (capture \<times> (io_error + unit)) effect" where
  "write_summary env st dir cap i outcome s r =
     write_json env st (dir @ [''summary.json'']) cap (json_summary i outcome s r)"

datatype CreateError = CreateIo | CreateRecording RecordingError

text \<open>Files opened before a failure are dropped, and so is a recorder that could not start.\<close>

definition create_recording ::
  "capture_env \<Rightarrow> capture \<Rightarrow> path \<Rightarrow> ConnectionId \<Rightarrow> nat \<Rightarrow> (capture \<times> (CreateError + recorder)) effect" where
  "create_recording env st dir i cap =
     (case LimitedFile_create env st (dir @ [''wire.bin'']) cap of
        (st, Inl e) \<Rightarrow> yields (st, Inl CreateIo)
      | (st, Inr a) \<Rightarrow>
     (case LimitedFile_create env st (dir @ [''audio.wav'']) cap of
        (st, Inl e) \<Rightarrow> yields (let_go st [(dir @ [''wire.bin''], a)], Inl CreateIo)
      | (st, Inr b) \<Rightarrow>
     (case LimitedFile_create env st (dir @ [''events.log'']) cap of
        (st, Inl e) \<Rightarrow> yields (let_go st [(dir @ [''audio.wav''], b), (dir @ [''wire.bin''], a)], Inl CreateIo)
      | (st, Inr c) \<Rightarrow>
          and_then (Recording_new limited_outputs i a b c) (\<lambda>(r, res).
            case res of
              Inl e \<Rightarrow> yields (let_go st (recorder_files r dir), Inl (CreateRecording e))
            | Inr _ \<Rightarrow> yields (st, Inr r)))))"

section \<open>The main loop\<close>

definition fail_with :: "capture_env \<Rightarrow> io_error + unit \<Rightarrow> Cause \<Rightarrow> capture \<Rightarrow> capture" where
  "fail_with env wr cause st =
     st\<lparr>cp_bad := True, cp_control := Control_request (ce_kind_text env) wr (cp_control st) cause\<rparr>"

definition count_admission :: "capture \<Rightarrow> capture" where
  "count_admission st =
     st\<lparr>cp_counts := (cp_counts st)\<lparr>n_admission := saturating_add U64_MAX (n_admission (cp_counts st)) 1\<rparr>\<rparr>"

definition count_metadata :: "capture \<Rightarrow> capture" where
  "count_metadata st =
     st\<lparr>cp_counts := (cp_counts st)\<lparr>n_metadata := saturating_add U64_MAX (n_metadata (cp_counts st)) 1\<rparr>\<rparr>"

text \<open>Inserting into the map drops the entry it replaces, with its files.\<close>

definition put_entry :: "capture \<Rightarrow> ConnectionId \<Rightarrow> CaptureEntry \<Rightarrow> capture" where
  "put_entry st i e =
     (let st = (case btree_get (cp_map st) i of Some (CActive r dir) \<Rightarrow> let_go st (recorder_files r dir) | _ \<Rightarrow> st)
      in st\<lparr>cp_map := btree_insert (cp_map st) i e\<rparr>)"

definition connection_dir :: "Config \<Rightarrow> ConnectionId \<Rightarrow> path" where
  "connection_dir c i =
     [cfg_output c, ''connection-'' @ show_nat (conn_instance i) @ ''-'' @ show_nat (conn_sequence i)]"

text \<open>A recorder that fails is dropped; what it leaves is a receipt.\<close>

definition recorder_failed ::
  "capture_env \<Rightarrow> io_error + unit \<Rightarrow> capture \<Rightarrow> ConnectionId \<Rightarrow> recorder \<Rightarrow> path \<Rightarrow> RecordingError \<Rightarrow> capture" where
  "recorder_failed env wr st i r dir e =
     fail_with env wr CauseLocal (put_entry (let_go st (recorder_files r dir)) i (CFailed (Receipt_from_error e) dir))"

definition handle_connected ::
  "capture_env \<Rightarrow> Config \<Rightarrow> io_error + unit \<Rightarrow> capture \<Rightarrow> Record \<Rightarrow> capture effect" where
  "handle_connected env c wr st x =
     (let i = connection x in
      if ctl_won (cp_control st)
      then yields (st\<lparr>cp_counts := (cp_counts st)\<lparr>n_stopped := saturating_add U64_MAX (n_stopped (cp_counts st)) 1\<rparr>\<rparr>)
      else if cp_reserved st = cfg_run c \<or> length (cp_map st) \<ge> cfg_active c
      then yields (fail_with env wr (if cp_reserved st = cfg_run c then CauseAdmission else CauseLocal) (count_admission st))
      else
        (let st = st\<lparr>cp_reserved := saturating_add U64_MAX (cp_reserved st) 1\<rparr>; dir = connection_dir c i in
         case create_dir env st dir of
           (st, Inl e) \<Rightarrow> yields (fail_with env wr CauseLocal (count_admission st))
         | (st, Inr _) \<Rightarrow>
             and_then (create_recording env st dir i (cfg_file c)) (\<lambda>(st, created).
               case created of
                 Inr r \<Rightarrow>
                   and_then (record_one limited_outputs (ce_debug env) r x) (\<lambda>(r, res).
                     case res of
                       Inr _ \<Rightarrow> yields (put_entry st i (CActive r dir))
                     | Inl e \<Rightarrow> yields (recorder_failed env wr st i r dir e))
               | Inl err \<Rightarrow>
                   yields (fail_with env wr CauseLocal
                     (put_entry st i
                       (CFailed (case err of CreateIo \<Rightarrow> create_receipt | CreateRecording e \<Rightarrow> Receipt_from_error e) dir))))))"

text \<open>The end of an active recording whose terminal record was accepted.\<close>

definition handle_end ::
  "capture_env \<Rightarrow> Config \<Rightarrow> io_error + unit \<Rightarrow> capture \<Rightarrow> ConnectionId \<Rightarrow> recorder \<Rightarrow> path \<Rightarrow> capture effect" where
  "handle_end env c wr st i r dir =
     (let st = st\<lparr>cp_map := btree_remove (cp_map st) i\<rparr> in
      and_then (finish_recording limited_outputs r) (\<lambda>(r, res).
        case res of
          Inr s \<Rightarrow>
            (let st = let_go st (recorder_files r dir);
                 outcome = (if successful_terminal (rec_end s) then ''observed'' else ''failed'');
                 st = (if \<not> successful_terminal (rec_end s) then st\<lparr>cp_bad := True\<rparr> else st) in
             and_then (write_summary env st dir (cfg_summary c) i outcome s None) (\<lambda>(st, res).
               case res of
                 Inr _ \<Rightarrow> yields st
               | Inl e \<Rightarrow> yields (fail_with env wr CauseLocal (count_metadata st))))
        | Inl e \<Rightarrow> yields (recorder_failed env wr st i r dir e)))"

definition handle_other ::
  "capture_env \<Rightarrow> Config \<Rightarrow> io_error + unit \<Rightarrow> capture \<Rightarrow> Record \<Rightarrow> capture effect" where
  "handle_other env c wr st x =
     (let i = connection x; counts = cp_counts st in
      case btree_get (cp_map st) i of
        Some (CActive r dir) \<Rightarrow>
          and_then (record_one limited_outputs (ce_debug env) r x) (\<lambda>(r, res).
            case res of
              Inl e \<Rightarrow> yields (recorder_failed env wr (st\<lparr>cp_map := btree_remove (cp_map st) i\<rparr>) i r dir e)
            | Inr _ \<Rightarrow>
                if is_ended (rec_kind x) then handle_end env c wr st i r dir
                else yields (st\<lparr>cp_map := btree_insert (cp_map st) i (CActive r dir)\<rparr>))
      | Some (CFailed receipt dir) \<Rightarrow>
          (let (n, b) = add_record (rcp_dropped receipt) (rcp_bytes receipt) x;
               (m, d) = add_record (n_failed counts) (n_failed_bytes counts) x in
           yields (st\<lparr>cp_map := btree_insert (cp_map st) i (CFailed (receipt\<lparr>rcp_dropped := n, rcp_bytes := b\<rparr>) dir),
                      cp_counts := counts\<lparr>n_failed := m, n_failed_bytes := d\<rparr>\<rparr>))
      | None \<Rightarrow>
          (let (m, d) = add_record (n_unowned counts) (n_unowned_bytes counts) x in
           yields (st\<lparr>cp_counts := counts\<lparr>n_unowned := m, n_unowned_bytes := d\<rparr>\<rparr>)))"

definition handle_record :: "capture_env \<Rightarrow> Config \<Rightarrow> io_error + unit \<Rightarrow> capture \<Rightarrow> Record \<Rightarrow> capture effect" where
  "handle_record env c wr st x =
     (if is_connected (rec_kind x) then handle_connected env c wr st x else handle_other env c wr st x)"

datatype capture_event = Received Record "io_error + unit" | SignalArrived "io_error + unit"

text \<open>The loop ends when the receiver has gone and its queue is empty: at the end of the events.\<close>

fun capture_loop :: "capture_env \<Rightarrow> Config \<Rightarrow> capture \<Rightarrow> capture_event list \<Rightarrow> capture effect" where
  "capture_loop env c st [] = yields st"
| "capture_loop env c st (Received x wr # evs) =
     and_then (handle_record env c wr st x) (\<lambda>st. capture_loop env c st evs)"
| "capture_loop env c st (SignalArrived wr # evs) =
     capture_loop env c (st\<lparr>cp_control := Control_signal (ce_kind_text env) wr (cp_control st)\<rparr>) evs"

section \<open>Finalization\<close>

definition finalize_entry :: "capture_env \<Rightarrow> Config \<Rightarrow> capture \<Rightarrow> ConnectionId \<Rightarrow> CaptureEntry \<Rightarrow> capture effect" where
  "finalize_entry env c st i e =
     (case e of
        CActive r dir \<Rightarrow>
          and_then (finish_recording limited_outputs r) (\<lambda>(r, res).
            let st = (let_go st (recorder_files r dir))\<lparr>cp_bad := True\<rparr> in
            and_then (case res of
                        Inr s \<Rightarrow> write_summary env st dir (cfg_summary c) i ''incomplete'' s None
                      | Inl x \<Rightarrow>
                          (let receipt = Receipt_from_error x in
                           write_summary env st dir (cfg_summary c) i ''failed'' (rcp_summary receipt) (Some receipt))) (\<lambda>(st, res).
              case res of Inr _ \<Rightarrow> yields st | Inl x \<Rightarrow> yields (count_metadata st)))
      | CFailed receipt dir \<Rightarrow>
          and_then (write_summary env st dir (cfg_summary c) i ''failed'' (rcp_summary receipt) (Some receipt)) (\<lambda>(st, res).
            case res of
              Inr _ \<Rightarrow> yields (st\<lparr>cp_bad := True\<rparr>)
            | Inl x \<Rightarrow> yields ((count_metadata st)\<lparr>cp_bad := True\<rparr>)))"

fun finalize_all :: "capture_env \<Rightarrow> Config \<Rightarrow> capture \<Rightarrow> (ConnectionId \<times> CaptureEntry) list \<Rightarrow> capture effect" where
  "finalize_all env c st [] = yields st"
| "finalize_all env c st ((i, e) # rest) =
     and_then (finalize_entry env c st i e) (\<lambda>st. finalize_all env c st rest)"

text \<open>
  What the other threads leave behind: whether the signal thread was joined, what the worker
  returned (\<open>None\<close> when it panicked), and the bytes still charged to the budget.
\<close>

record outcome =
  oc_signals_joined :: bool
  oc_worker :: "(ReceiverError + RunSummary) option"
  oc_budget_used :: nat

definition worker_summary :: "(ReceiverError + RunSummary) option \<Rightarrow> RunSummary option" where
  "worker_summary w = map_option (\<lambda>res. case res of Inr s \<Rightarrow> s | Inl e \<Rightarrow> re_summary e) w"

definition run_bad :: "capture \<Rightarrow> outcome \<Rightarrow> bool" where
  "run_bad st oc \<longleftrightarrow>
     cp_bad st \<or> \<not> oc_signals_joined oc \<or>
     (case oc_worker oc of Some (Inr s) \<Rightarrow> False | _ \<Rightarrow> True) \<or>
     oc_budget_used oc \<noteq> 0 \<or> n_unowned (cp_counts st) \<noteq> 0 \<or> n_metadata (cp_counts st) \<noteq> 0 \<or>
     (case worker_summary (oc_worker oc) of
        None \<Rightarrow> False
      | Some s \<Rightarrow> abandoned s \<noteq> 0 \<or> undelivered_raw_bytes s \<noteq> 0 \<or> undelivered_records s \<noteq> 0 \<or> \<not> counters_complete s) \<or>
     stop_wake_failed (ctl_info (cp_control st))"

definition status_json :: "capture \<Rightarrow> outcome \<Rightarrow> string" where
  "status_json st oc =
     (let counts = cp_counts st; i = ctl_info (cp_control st) in
      json_object
        [(''reserved_recordings'', show_nat (cp_reserved st)), (''admission_refused'', show_nat (n_admission counts)),
         (''stopped_refused'', show_nat (n_stopped counts)), (''unowned_records'', show_nat (n_unowned counts)),
         (''unowned_bytes'', show_nat (n_unowned_bytes counts)), (''failed_records'', show_nat (n_failed counts)),
         (''failed_bytes'', show_nat (n_failed_bytes counts)), (''metadata_failures'', show_nat (n_metadata counts)),
         (''final_budget_used'', show_nat (oc_budget_used oc)),
         (''first_stop_cause'', case stop_cause_of i of None \<Rightarrow> ''null'' | Some x \<Rightarrow> quoted (Cause_text x)),
         (''stop_wake_error'', case stop_wake i of None \<Rightarrow> ''null'' | Some x \<Rightarrow> quoted x),
         (''signals'', show_nat (stop_signals i)), (''receiver'', receiver_json (worker_summary (oc_worker oc)))])"

definition capture_finish :: "capture_env \<Rightarrow> Config \<Rightarrow> capture \<Rightarrow> outcome \<Rightarrow> (capture \<times> (string + unit)) effect" where
  "capture_finish env c st oc =
     and_then (finalize_all env c (st\<lparr>cp_map := []\<rparr>) (cp_map st)) (\<lambda>st.
     and_then (write_json env st [cfg_output c, ''run-status.json''] (cfg_status c) (status_json st oc)) (\<lambda>(st', res).
       yields (st', if run_bad st oc \<or> isl res
                    then Inl ''capture completed with failures; see run-status.json and recording summaries''
                    else Inr ())))"

text \<open>From the started receiver to the verdict.\<close>

definition capture_run ::
  "capture_env \<Rightarrow> Config \<Rightarrow> Signals \<Rightarrow> path list \<Rightarrow> capture_event list \<Rightarrow> outcome \<Rightarrow> (capture \<times> (string + unit)) effect" where
  "capture_run env c s names evs oc =
     and_then (capture_loop env c (capture_new s names) evs) (\<lambda>st. capture_finish env c st oc)"

end
