(* ===== verification/Capture_Invariant.thy ===== *)
theory Capture_Invariant
  imports Capture_App
begin

text \<open>
  What the capture application keeps true while it runs: every step returns, what is on the disk
  and what may still be written stays within the share of the recordings reserved so far, and as
  long as nothing has failed every connection's files hold exactly its records.
\<close>

section \<open>Sizes\<close>

definition disk_bytes :: "(path \<times> bytes) list \<Rightarrow> nat" where
  "disk_bytes d = sum_list (map (\<lambda>(p, b). length b) d)"

lemma disk_bytes_simps [simp]:
  "disk_bytes [] = 0" "disk_bytes ((p, b) # d) = length b + disk_bytes d" "disk_bytes (d @ d') = disk_bytes d + disk_bytes d'"
  by (simp_all add: disk_bytes_def)

lemma lf_within_size: "lf_within cap l \<Longrightarrow> length (f_data (lf_file l)) \<le> cap"
  by (simp add: lf_within_def lf_ok_def)

lemma lf_within_opened [simp]: "lf_within cap (LimitedFile_opened cap script)"
  by (simp add: lf_within_def lf_opened_ok) (simp add: LimitedFile_opened_def)

definition file_bytes :: "(path \<times> LimitedFile) list \<Rightarrow> (path \<times> bytes) list" where
  "file_bytes fs = map (\<lambda>(p, l). (p, f_data (lf_file l))) fs"

lemma let_go_eq: "let_go st fs = st\<lparr>cp_disk := file_bytes fs @ cp_disk st\<rparr>"
  by (simp add: let_go_def file_bytes_def)

lemma file_bytes_within: "\<forall>(p, l) \<in> set fs. lf_within cap l \<Longrightarrow> disk_bytes (file_bytes fs) \<le> length fs * cap"
  by (induction fs) (auto simp: file_bytes_def dest: lf_within_size)

lemma recorder_files_size: "capped.writers_sound cap r \<Longrightarrow> disk_bytes (file_bytes (recorder_files r dir)) \<le> 3 * cap"
  using file_bytes_within [of "recorder_files r dir" cap]
  by (simp add: capped.writers_sound_def recorder_files_def lf_append_def)

section \<open>Steps that touch files\<close>

lemma write_json_result:
  obtains (refused) e where "write_json env st p cap s = Some (Some (st, Inl e))"
  | (written) b res where
      "write_json env st p cap s = Some (Some (st\<lparr>cp_names := p # cp_names st, cp_disk := (p, b) # cp_disk st\<rparr>, res))"
      "length b \<le> cap" "\<not> isl res \<Longrightarrow> b = as_bytes s"
proof (cases "ce_open env p")
  case (Inl e)
  then show ?thesis using refused [of e] by (simp add: write_json_def LimitedFile_create_def yields_def)
next
  case (Inr script)
  show ?thesis
  proof (cases "p \<in> set (cp_names st)")
    case True
    then show ?thesis using refused [of file_exists] Inr by (simp add: write_json_def LimitedFile_create_def yields_def)
  next
    case False
    let ?l = "LimitedFile_opened cap script" and ?st = "st\<lparr>cp_names := p # cp_names st\<rparr>"
    obtain l1 m res where w: "write_loop limited_sink ?l (as_bytes s) 0 = Some (Some (l1, 0 + m, res))" "lf_within cap l1"
      "lf_content l1 = lf_content ?l @ take m (as_bytes s)" "res = Inr () \<longleftrightarrow> m = length (as_bytes s)"
      using within.write_loop_accepts [of cap ?l "as_bytes s" 0] by auto
    have "lf_beyond l1 = []"
      using within.write_loop_beyond [of cap ?l "as_bytes s" 0 l1 m res] w(1) by (simp add: lf_opened_start)
    then have d1: "f_data (lf_file l1) = take m (as_bytes s)"
      using w(3) lf_data [of l1] by (simp add: lf_opened_start)
    have open_eq: "LimitedFile_create env st p cap = (?st, Inr ?l)"
      using Inr False by (simp add: LimitedFile_create_def)
    show ?thesis
    proof (cases res)
      case err: (Inl e)
      then show ?thesis
        using written [of "f_data (lf_file l1)" "Inl e"] w(1) lf_within_size [OF w(2)] open_eq
        by (simp add: write_json_def yields_def let_go_eq file_bytes_def)
    next
      case ok: (Inr u)
      obtain l2 res2 where fl: "LimitedFile_flush l1 = (l2, res2)" by fastforce
      have "f_data (lf_file l2) = f_data (lf_file l1)"
        using LimitedFile_flush_same [OF fl] lf_data [of l1] lf_data [of l2] by simp
      then show ?thesis
        using written [of "f_data (lf_file l2)" res2] w(1,4) d1 ok fl lf_within_size [OF w(2)] open_eq
        by (simp add: write_json_def yields_def let_go_eq file_bytes_def)
    qed
  qed
qed

lemma LimitedFile_create_cases:
  obtains (err) e where "LimitedFile_create env st p cap = (st, Inl e)"
  | (ok) l where "LimitedFile_create env st p cap = (st\<lparr>cp_names := p # cp_names st\<rparr>, Inr l)"
      "lf_within cap l" "lf_content l = []" "lf_beyond l = []"
  using err ok
  by (cases "ce_open env p"; cases "p \<in> set (cp_names st)") (auto simp: LimitedFile_create_def lf_opened_start)

lemma create_recording_result:
  obtains (ok) ns r where "create_recording env st dir i cap = Some (Some (st\<lparr>cp_names := ns @ cp_names st\<rparr>, Inr r))"
      "capped.holds cap Khz8 r [] []" "rec_state r = AwaitingConnection" "rec_id r = i"
  | (err) ns d e where
      "create_recording env st dir i cap = Some (Some (st\<lparr>cp_names := ns @ cp_names st, cp_disk := d @ cp_disk st\<rparr>, Inl e))"
      "disk_bytes d \<le> 3 * cap"
proof (cases rule: LimitedFile_create_cases [of env st "dir @ [''wire.bin'']" cap])
  case no: (err e)
  then show ?thesis using err [of "[]" "[]" CreateIo] by (simp add: create_recording_def yields_def)
next
  case a: (ok a)
  let ?st1 = "st\<lparr>cp_names := (dir @ [''wire.bin'']) # cp_names st\<rparr>"
  show ?thesis
  proof (cases rule: LimitedFile_create_cases [of env ?st1 "dir @ [''audio.wav'']" cap])
    case no: (err e)
    then show ?thesis
      using err [of "file_bytes [(dir @ [''wire.bin''], a)]" "[dir @ [''wire.bin'']]" CreateIo] a(1)
        file_bytes_within [of "[(dir @ [''wire.bin''], a)]" cap] a(2)
      by (simp add: create_recording_def yields_def let_go_eq)
  next
    case b: (ok b)
    let ?st2 = "?st1\<lparr>cp_names := (dir @ [''audio.wav'']) # cp_names ?st1\<rparr>"
    show ?thesis
    proof (cases rule: LimitedFile_create_cases [of env ?st2 "dir @ [''events.log'']" cap])
      case no: (err e)
      then show ?thesis
        using err [of "file_bytes [(dir @ [''audio.wav''], b), (dir @ [''wire.bin''], a)]"
            "[dir @ [''audio.wav''], dir @ [''wire.bin'']]" CreateIo] a b
          file_bytes_within [of "[(dir @ [''audio.wav''], b), (dir @ [''wire.bin''], a)]" cap]
        by (simp add: create_recording_def yields_def let_go_eq)
    next
      case c: (ok c)
      let ?ns = "[dir @ [''events.log''], dir @ [''audio.wav''], dir @ [''wire.bin'']]"
      obtain r res where new: "with_sample_rate limited_outputs i Khz8 a b c = Some (Some (r, res))"
        "\<not> isl res \<longrightarrow> capped.holds cap Khz8 r [] [] \<and> rec_state r = AwaitingConnection \<and> rec_id r = i"
        using capped.with_sample_rate_holds [of cap a b c i Khz8] a b c by (auto simp: lf_append_def)
      have "capped.writers_sound cap r"
        by (rule capped.with_sample_rate_sound [OF _ b(2) _ new(1)]) (simp_all add: lf_append_def a c)
      note size = recorder_files_size [OF this, of dir]
      note eval = create_recording_def Recording_new_def yields_def let_go_eq a(1) b(1) [simplified] c(1) [simplified] new(1)
      show ?thesis
      proof (cases res)
        case (Inl e)
        have "create_recording env st dir i cap =
            Some (Some (st\<lparr>cp_names := ?ns @ cp_names st, cp_disk := file_bytes (recorder_files r dir) @ cp_disk st\<rparr>, Inl (CreateRecording e)))"
          by (simp add: eval Inl)
        then show ?thesis using err size by blast
      next
        case (Inr u)
        have "create_recording env st dir i cap = Some (Some (st\<lparr>cp_names := ?ns @ cp_names st\<rparr>, Inr r))"
          by (simp add: eval Inr)
        then show ?thesis using new(2) Inr by (intro ok [of ?ns r]) simp_all
      qed
    qed
  qed
qed

section \<open>Accepted records\<close>

text \<open>What writing a record leaves alone.\<close>

definition same_frame :: "('a, 'b, 'c) Recording \<Rightarrow> ('a, 'b, 'c) Recording \<Rightarrow> bool" where
  "same_frame r r' \<longleftrightarrow>
     rec_end (summary r') = rec_end (summary r) \<and> header_bytes (summary r') = header_bytes (summary r) \<and>
     last_event_offset r' = last_event_offset r \<and> rec_id r' = rec_id r \<and> sample_rate r' = sample_rate r"

lemma write_payload_frame: "write_payload k r kind = Some (Some (r1, stg, res)) \<Longrightarrow> same_frame r r1"
  by (cases kind) (auto simp: write_payload_def same_frame_def yields_def and_then_def split: option.splits)

lemma write_description_frame: "write_description k d r x = Some (Some (r1, res)) \<Longrightarrow> same_frame r r1"
  by (auto simp: write_description_def same_frame_def yields_def and_then_def output_result_def split: option.splits sum.splits)

lemma record_one_accepted:
  assumes "record_one k d r x = Some (Some (r', Inr u))"
  obtains r3 nxt where "validate r x = Some (Inr nxt)" "r' = record_accepted r3 x nxt" "same_frame r r3"
proof -
  obtain nxt where v: "validate r x = Some (Inr nxt)"
    using assms validate_total [of r x] by (auto simp: record_one_def invalid_def yields_def split: sum.splits)
  obtain r1 stg where p: "write_payload k r (rec_kind x) = Some (Some (r1, stg, Inr ()))"
    using assms v by (auto simp: record_one_def yields_def and_then_def output_result_def split: option.splits sum.splits)
  obtain r3 where q: "write_description k d r1 x = Some (Some (r3, Inr ()))"
    using assms v p by (auto simp: record_one_def yields_def and_then_def split: option.splits sum.splits)
  have "r' = record_accepted r3 x nxt" using assms v p q by (simp add: record_one_def yields_def)
  moreover have "same_frame r r3"
    using write_payload_frame [OF p] write_description_frame [OF q] by (simp add: same_frame_def)
  ultimately show ?thesis using v that by blast
qed

lemma validate_next:
  assumes "validate r x = Some (Inr nxt)"
  shows "if is_ended (rec_kind x) then nxt = RecEnded else nxt \<noteq> RecEnded \<and> nxt \<noteq> RecFailed"
  using assms
  by (cases "rec_kind x")
     (auto simp: validate_def is_ended_def Let_def wave_header_eval split: if_splits option.splits sum.splits)

lemma record_one_state:
  assumes "record_one k d r x = Some (Some (r', Inr u))"
  shows "rec_state r' \<noteq> RecFailed"
    and "rec_kind x = REnded v reason \<Longrightarrow> rec_end (summary r') = Observed (TerminalKind_from reason)"
proof -
  obtain r3 nxt where r: "validate r x = Some (Inr nxt)" "r' = record_accepted r3 x nxt"
    by (rule record_one_accepted [OF assms])
  then show "rec_state r' \<noteq> RecFailed" using validate_next [OF r(1)]
    by (auto simp: record_accepted_def Let_def split: if_splits)
  show "rec_end (summary r') = Observed (TerminalKind_from reason)" if "rec_kind x = REnded v reason"
    using that r(2) by (simp add: record_accepted_def Let_def)
qed

section \<open>The share of a recording\<close>

text \<open>
  Each reserved recording has a share of three files and a summary.  An active entry may still
  use all of it, a failed one only the summary; \<open>room c st n\<close> says that the disk, the entries
  and \<open>n\<close> more bytes fit the shares reserved.
\<close>

definition share :: "Config \<Rightarrow> nat" where
  "share c = 3 * cfg_file c + cfg_summary c"

fun entry_weight :: "Config \<Rightarrow> CaptureEntry \<Rightarrow> nat" where
  "entry_weight c (CActive r dir) = share c"
| "entry_weight c (CFailed receipt dir) = cfg_summary c"

fun entry_ok :: "Config \<Rightarrow> CaptureEntry \<Rightarrow> bool" where
  "entry_ok c (CActive r dir) \<longleftrightarrow> (\<exists>W A. capped.holds (cfg_file c) Khz8 r W A)"
| "entry_ok c (CFailed receipt dir) \<longleftrightarrow> True"

definition weights :: "Config \<Rightarrow> (ConnectionId, CaptureEntry) btree \<Rightarrow> nat" where
  "weights c m = sum_list (map (entry_weight c \<circ> snd) m)"

definition room :: "Config \<Rightarrow> capture \<Rightarrow> nat \<Rightarrow> bool" where
  "room c st n \<longleftrightarrow>
     btree_ok (cp_map st) \<and> cp_reserved st \<le> cfg_run c \<and> (\<forall>p \<in> set (cp_map st). entry_ok c (snd p)) \<and>
     disk_bytes (cp_disk st) + weights c (cp_map st) + n \<le> cp_reserved st * share c"

lemma weights_insert:
  "btree_ok m \<Longrightarrow> weights c (btree_insert m i e) + (case btree_get m i of None \<Rightarrow> 0 | Some e0 \<Rightarrow> entry_weight c e0) =
     weights c m + entry_weight c e"
proof (induction m i e rule: btree_insert.induct)
  case (2 a b m k v)
  have "k < a \<Longrightarrow> btree_get m k = None" using "2.prems" by (auto simp: btree_get_None_iff)
  then show ?case using 2 by (auto simp: weights_def)
qed (simp add: weights_def)

lemma weights_remove: "btree_get m i = Some e \<Longrightarrow> weights c (btree_remove m i) + entry_weight c e = weights c m"
  by (induction m i rule: btree_remove.induct) (auto simp: weights_def split: if_splits)

lemma room_fields [simp]:
  "room c (st\<lparr>cp_bad := b\<rparr>) n = room c st n" "room c (st\<lparr>cp_counts := cs\<rparr>) n = room c st n"
  "room c (st\<lparr>cp_control := ctl\<rparr>) n = room c st n" "room c (st\<lparr>cp_names := ns\<rparr>) n = room c st n"
  "room c (fail_with env wr cause st) n = room c st n" "room c (count_admission st) n = room c st n"
  "room c (count_metadata st) n = room c st n"
  by (simp_all add: room_def fail_with_def count_admission_def count_metadata_def)

lemma room_mono: "room c st n \<Longrightarrow> m \<le> n \<Longrightarrow> room c st m"
  by (auto simp: room_def)

lemma room_disk:
  "room c st (n + m) \<Longrightarrow> disk_bytes d \<le> m \<Longrightarrow> room c (st\<lparr>cp_disk := d @ cp_disk st\<rparr>) n"
  by (auto simp: room_def)

lemma room_let_go:
  "room c st (n + m) \<Longrightarrow> disk_bytes (file_bytes fs) \<le> m \<Longrightarrow> room c (let_go st fs) n"
  by (simp add: let_go_eq room_disk)

lemma entry_ok_insert:
  assumes "btree_ok m" "\<forall>p \<in> set m. entry_ok c (snd p)" "entry_ok c e"
  shows "\<forall>p \<in> set (btree_insert m i e). entry_ok c (snd p)"
proof
  fix p assume "p \<in> set (btree_insert m i e)"
  then have "btree_get (btree_insert m i e) (fst p) = Some (snd p)"
    using btree_insert_ok [OF assms(1), of i e] by (simp add: btree_get_Some_iff)
  then show "entry_ok c (snd p)" using assms by (auto simp: btree_get_insert btree_get_Some_iff split: if_splits)
qed

lemma room_replace:
  assumes "room c st n" "btree_get (cp_map st) i = Some e0" "entry_ok c e" "entry_weight c e \<le> entry_weight c e0"
  shows "room c (st\<lparr>cp_map := btree_insert (cp_map st) i e\<rparr>) n"
  using assms weights_insert [of "cp_map st" c i e] entry_ok_insert [of "cp_map st" c e i]
  by (simp add: room_def btree_insert_ok)

lemma room_put:
  assumes "room c st (n + entry_weight c e)" "entry_ok c e"
  shows "room c (put_entry st i e) n"
proof -
  have facts: "btree_ok (cp_map st)" "\<forall>p \<in> set (cp_map st). entry_ok c (snd p)" using assms(1) by (auto simp: room_def)
  have size: "disk_bytes (file_bytes (recorder_files r dir)) \<le> share c"
    if "btree_get (cp_map st) i = Some (CActive r dir)" for r dir
  proof -
    have "entry_ok c (CActive r dir)" using that facts by (auto simp: btree_get_Some_iff)
    then obtain W A where "capped.holds (cfg_file c) Khz8 r W A" by auto
    then show ?thesis using recorder_files_size [OF capped.holds_sound, of "cfg_file c" Khz8 r W A dir] by (simp add: share_def)
  qed
  show ?thesis
    using assms weights_insert [OF facts(1), of c i e] entry_ok_insert [OF facts assms(2), of i] size
    by (auto simp: room_def put_entry_def Let_def let_go_eq btree_insert_ok split: option.splits CaptureEntry.splits)
qed

lemma room_remove:
  assumes "room c st n" "btree_get (cp_map st) i = Some e"
  shows "room c (st\<lparr>cp_map := btree_remove (cp_map st) i\<rparr>) (n + entry_weight c e)"
  using assms weights_remove [OF assms(2), of c]
  by (auto simp: room_def btree_remove_ok set_btree_remove)

lemma room_reserve:
  assumes "room c st n" "cp_reserved st \<noteq> cfg_run c" "cfg_run c \<le> U64_MAX"
  shows "room c (st\<lparr>cp_reserved := saturating_add U64_MAX (cp_reserved st) 1\<rparr>) (n + share c)"
  using assms by (auto simp: room_def saturating_add_def min_def)

end
