(* ===== verification/Capture_Complete.thy ===== *)
theory Capture_Complete
  imports Capture_Invariant
begin

text \<open>
  What a capture run leaves on the disk: the invariant that ties every connection's entry or
  files to the records received for it, kept by each step of the main loop and of the
  finalization, and the properties of whole runs.
\<close>

section \<open>Directories\<close>

lemma digit_char_inj: "d < 10 \<Longrightarrow> e < 10 \<Longrightarrow> digit_char d = digit_char e \<Longrightarrow> d = e"
  by (metis digit_value_char option.inject)

lemma show_nat_inj: "show_nat n = show_nat m \<Longrightarrow> n = m"
proof (induction n arbitrary: m rule: show_nat.induct)
  case (1 n)
  show ?case
  proof (cases "n < 10")
    case True
    then have "m < 10" using "1.prems" by (auto simp: show_nat.simps [of n] show_nat.simps [of m] show_nat_not_Nil [symmetric] split: if_splits)
    then show ?thesis using True "1.prems" by (simp add: show_nat.simps [of n] show_nat.simps [of m] digit_char_inj)
  next
    case False
    then have m: "\<not> m < 10" using "1.prems" by (auto simp: show_nat.simps [of n] show_nat.simps [of m] show_nat_not_Nil [symmetric] split: if_splits)
    then have "show_nat (n div 10) = show_nat (m div 10)" "digit_char (n mod 10) = digit_char (m mod 10)"
      using "1.prems" False by (simp_all add: show_nat.simps [of n] show_nat.simps [of m])
    then have "n div 10 = m div 10" "n mod 10 = m mod 10" using "1.IH" [OF False] by (auto intro: digit_char_inj)
    then show ?thesis by (metis div_mult_mod_eq)
  qed
qed

lemma connection_dir_inj: "connection_dir c i = connection_dir c j \<longleftrightarrow> i = j"
proof
  assume "connection_dir c i = connection_dir c j"
  then have eq: "show_nat (conn_instance i) @ CHR ''-'' # show_nat (conn_sequence i) =
      show_nat (conn_instance j) @ CHR ''-'' # show_nat (conn_sequence j)" by (simp add: connection_dir_def)
  have dash: "CHR ''-'' \<notin> set (show_nat n)" for n
  proof
    assume "CHR ''-'' \<in> set (show_nat n)"
    from show_nat_digits [OF this] show False by (simp add: digit_value_def)
  qed
  from eq have "show_nat (conn_instance i) = show_nat (conn_instance j)" "show_nat (conn_sequence i) = show_nat (conn_sequence j)"
    by (simp_all add: append_Cons_eq_iff dash)
  then show "i = j" by (auto dest: show_nat_inj intro: ConnectionId.expand)
qed simp

section \<open>What is known of each connection\<close>

definition of_connection :: "ConnectionId \<Rightarrow> Record list \<Rightarrow> Record list" where
  "of_connection i xs = filter (\<lambda>x. connection x = i) xs"

definition wires :: "ConnectionId \<Rightarrow> Record list \<Rightarrow> bytes" where
  "wires i xs = concat (map (\<lambda>x. wire_part (rec_kind x)) (of_connection i xs))"

definition audios :: "ConnectionId \<Rightarrow> Record list \<Rightarrow> bytes" where
  "audios i xs = concat (map (\<lambda>x. audio_part (rec_kind x)) (of_connection i xs))"

text \<open>The files of a connection that ended well and was recorded completely.\<close>

definition recorded :: "Config \<Rightarrow> Record list \<Rightarrow> (path \<times> bytes) list \<Rightarrow> ConnectionId \<Rightarrow> bool" where
  "recorded c xs disk i \<longleftrightarrow>
     map_of disk (connection_dir c i @ [''wire.bin'']) = Some (wires i xs) \<and>
     map_of disk (connection_dir c i @ [''audio.wav'']) = Some (header_of (length (audios i xs)) Khz8 @ audios i xs) \<and>
     (\<exists>s. map_of disk (connection_dir c i @ [''summary.json'']) = Some (as_bytes (json_summary i ''observed'' s None)) \<and>
        wire_bytes s = length (wires i xs) \<and> audio_bytes s = length (audios i xs)) \<and>
     (\<exists>x \<in> set xs. \<exists>u reason. connection x = i \<and> rec_kind x = REnded u reason \<and> (reason = CleanEof \<or> reason = EndTerminate))"

definition only_connected :: "Record list \<Rightarrow> ConnectionId \<Rightarrow> bool" where
  "only_connected xs i \<longleftrightarrow> (\<forall>x \<in> set xs. connection x = i \<longrightarrow> is_connected (rec_kind x))"

definition tracked :: "Config \<Rightarrow> Record list \<Rightarrow> capture \<Rightarrow> ConnectionId \<Rightarrow> bool" where
  "tracked c xs st i \<longleftrightarrow>
     (case btree_get (cp_map st) i of
        None \<Rightarrow> only_connected xs i \<or> (connection_dir c i \<in> set (cp_names st) \<and> recorded c xs (cp_disk st) i)
      | Some (CActive r dir) \<Rightarrow>
          dir = connection_dir c i \<and> dir \<in> set (cp_names st) \<and> rec_state r \<noteq> RecFailed \<and>
          capped.holds (cfg_file c) Khz8 r (wires i xs) (audios i xs)
      | Some (CFailed receipt dir) \<Rightarrow> False)"

definition good :: "capture \<Rightarrow> bool" where
  "good st \<longleftrightarrow> \<not> cp_bad st \<and> n_unowned (cp_counts st) = 0"

definition cap_inv :: "Config \<Rightarrow> Record list \<Rightarrow> capture \<Rightarrow> bool" where
  "cap_inv c xs st \<longleftrightarrow> room c st 0 \<and> (good st \<longrightarrow> (\<forall>i. tracked c xs st i))"

lemma wires_snoc: "wires i (xs @ [x]) = wires i xs @ (if connection x = i then wire_part (rec_kind x) else [])"
  and audios_snoc: "audios i (xs @ [x]) = audios i xs @ (if connection x = i then audio_part (rec_kind x) else [])"
  by (simp_all add: wires_def audios_def of_connection_def)

lemma connected_parts: "is_connected k \<Longrightarrow> wire_part k = [] \<and> audio_part k = []"
  by (cases k) simp_all

lemma only_connected_parts: "only_connected xs i \<Longrightarrow> wires i xs = [] \<and> audios i xs = []"
  by (auto simp: only_connected_def wires_def audios_def of_connection_def dest: connected_parts)

lemma recorded_extend:
  assumes "recorded c xs disk i" "\<And>f. map_of disk' (connection_dir c i @ [f]) = map_of disk (connection_dir c i @ [f])"
    "connection x \<noteq> i \<or> is_connected (rec_kind x)"
  shows "recorded c (xs @ [x]) disk' i"
proof -
  have "wires i (xs @ [x]) = wires i xs" "audios i (xs @ [x]) = audios i xs"
    using assms(3) connected_parts [of "rec_kind x"] by (auto simp: wires_snoc audios_snoc)
  with assms(1,2) show ?thesis by (auto simp: recorded_def)
qed

text \<open>A step that leaves a connection's entry and files alone keeps what is known of it.\<close>

lemma tracked_extend:
  assumes "tracked c xs st i" "btree_get (cp_map st') i = btree_get (cp_map st) i" "set (cp_names st) \<subseteq> set (cp_names st')"
    "\<And>f. map_of (cp_disk st') (connection_dir c i @ [f]) = map_of (cp_disk st) (connection_dir c i @ [f])"
    "connection x \<noteq> i \<or> is_connected (rec_kind x)"
  shows "tracked c (xs @ [x]) st' i"
proof -
  have "wires i (xs @ [x]) = wires i xs" "audios i (xs @ [x]) = audios i xs"
    using assms(5) connected_parts [of "rec_kind x"] by (auto simp: wires_snoc audios_snoc)
  moreover have "only_connected (xs @ [x]) i" if "only_connected xs i" using that assms(5) by (auto simp: only_connected_def)
  moreover note recorded_extend [OF _ assms(4,5)]
  ultimately show ?thesis using assms(1-3)
    by (auto simp: tracked_def split: option.splits CaptureEntry.splits)
qed

section \<open>Recorder steps\<close>

lemma record_step:
  assumes "capped.holds cap Khz8 r W A"
  obtains (failed) r' e W' A' where "record_one limited_outputs d r x = Some (Some (r', Inl e))" "capped.holds cap Khz8 r' W' A'"
  | (accepted) r' where "record_one limited_outputs d r x = Some (Some (r', Inr ()))"
      "capped.holds cap Khz8 r' (W @ wire_part (rec_kind x)) (A @ audio_part (rec_kind x))" "rec_state r' \<noteq> RecFailed"
proof -
  obtain r' res m n where one: "record_one limited_outputs d r x = Some (Some (r', res))"
    "capped.holds cap Khz8 r' (W @ take m (wire_part (rec_kind x))) (A @ take n (audio_part (rec_kind x)))"
    "case res of Inl e \<Rightarrow> rec_state r' = RecFailed
      | Inr u \<Rightarrow> length (wire_part (rec_kind x)) \<le> m \<and> length (audio_part (rec_kind x)) \<le> n"
    using capped.record_one_holds [OF assms] by blast
  show ?thesis
  proof (cases res)
    case (Inl e)
    then show ?thesis using failed one(1,2) by simp
  next
    case (Inr u)
    then have "capped.holds cap Khz8 r' (W @ wire_part (rec_kind x)) (A @ audio_part (rec_kind x))" using one(2,3) by simp
    moreover have "record_one limited_outputs d r x = Some (Some (r', Inr ()))" using one(1) Inr by simp
    ultimately show ?thesis using accepted record_one_state(1) by blast
  qed
qed

lemma finish_step:
  assumes hold: "capped.holds cap Khz8 r W A"
  obtains r' res where "finish_recording limited_outputs r = Some (Some (r', res))" "capped.writers_sound cap r'"
    "\<And>z. rec_state r \<noteq> RecFailed \<Longrightarrow> res = Inr z \<Longrightarrow>
       f_data (lf_file (wire r')) = W \<and> f_data (lf_file (wave r')) = header_of (length A) Khz8 @ A \<and>
       wire_bytes z = length W \<and> audio_bytes z = length A \<and> rec_end z = rec_end (summary r)"
proof (cases "rec_state r = RecFailed")
  case True
  then show ?thesis
    using that [of "r\<lparr>rec_state := RecFailed\<rparr>" "Inl (snd (invalid r AfterFailure))"] capped.holds_sound [OF hold]
    by (simp add: finish_recording_def invalid_def yields_def capped.writers_sound_def)
next
  case False
  obtain r' res where fin: "finish_recording limited_outputs r = Some (Some (r', res))"
    "\<forall>z. res = Inr z \<longrightarrow> lf_content (wire r') = W \<and> lf_content (wave r') @ lf_beyond (wave r') = header_of (length A) Khz8 @ A \<and>
       z = (summary r)\<lparr>patch_bytes := 44\<rparr>"
    using capped.finish_recording_holds [OF hold False] by blast
  have sound: "capped.writers_sound cap r'" by (rule capped.finish_recording_sound [OF capped.holds_sound [OF hold] fin(1)])
  then have "lf_beyond (wire r') = []" by (simp add: capped.writers_sound_def lf_append_def)
  then have "f_data (lf_file (wire r')) = lf_content (wire r')" using lf_data [of "wire r'"] by simp
  moreover have "length W = wire_bytes (summary r)" "length A = audio_bytes (summary r)"
    using hold by (auto simp: capped.holds_def)
  ultimately show ?thesis using fin(2) by (intro that [OF fin(1) sound]) (auto simp: lf_data)
qed

section \<open>Steps of the main loop\<close>

lemma not_good [simp]: "\<not> good (fail_with env wr cause st)"
  by (simp add: good_def fail_with_def)

lemma room_failed:
  assumes "room c st (share c)" "capped.writers_sound (cfg_file c) r"
  shows "room c (recorder_failed env wr st i r dir e) 0"
proof -
  have "disk_bytes (file_bytes (recorder_files r dir)) \<le> 3 * cfg_file c"
    by (rule recorder_files_size [OF assms(2)])
  then have "room c (let_go st (recorder_files r dir)) (cfg_summary c)"
    using assms(1) by (intro room_let_go) (auto simp: share_def add.commute)
  then show ?thesis unfolding recorder_failed_def by (simp add: room_put)
qed

lemma failed_inv: "room c (recorder_failed env wr st i r dir e) 0 \<Longrightarrow> cap_inv c xs (recorder_failed env wr st i r dir e)"
  by (simp add: cap_inv_def recorder_failed_def)

definition steps_to :: "capture effect \<Rightarrow> (capture \<Rightarrow> bool) \<Rightarrow> bool" where
  "steps_to r P \<longleftrightarrow> (\<exists>st. r = Some (Some st) \<and> P st)"

lemma steps_toI: "P st \<Longrightarrow> steps_to (yields st) P"
  by (simp add: steps_to_def yields_def)

lemma steps_to_then: "steps_to r P \<Longrightarrow> (\<And>st. P st \<Longrightarrow> steps_to (f st) Q) \<Longrightarrow> steps_to (and_then r f) Q"
  by (auto simp: steps_to_def)

lemma create_dir_cases:
  obtains (err) e where "create_dir env st p = (st, Inl e)"
  | (ok) "create_dir env st p = (st\<lparr>cp_names := p # cp_names st\<rparr>, Inr ())" "p \<notin> set (cp_names st)"
proof (cases "snd (create_dir env st p)")
  case (Inl e)
  then have "create_dir env st p = (st, Inl e)" by (auto simp: create_dir_def split: sum.splits if_splits)
  then show ?thesis by (rule err)
next
  case (Inr u)
  then have "create_dir env st p = (st\<lparr>cp_names := p # cp_names st\<rparr>, Inr ()) \<and> p \<notin> set (cp_names st)"
    by (auto simp: create_dir_def split: sum.splits if_splits)
  then show ?thesis using ok by blast
qed

lemma room_names_disk:
  "room c st (n + m) \<Longrightarrow> disk_bytes d \<le> m \<Longrightarrow> room c (st\<lparr>cp_names := ns, cp_disk := d @ cp_disk st\<rparr>) n"
  by (auto simp: room_def)

lemma room_written:
  "room c st (n + m) \<Longrightarrow> length b \<le> m \<Longrightarrow> room c (st\<lparr>cp_names := ns, cp_disk := (p, b) # cp_disk st\<rparr>) n"
  by (auto simp: room_def)

lemma connected_fresh:
  assumes "cap_inv c xs st" "good st" "connection_dir c i \<notin> set (cp_names st)"
  shows "btree_get (cp_map st) i = None \<and> only_connected xs i"
proof -
  have "tracked c xs st i" using assms(1,2) by (simp add: cap_inv_def)
  then show ?thesis using assms(3) by (auto simp: tracked_def split: option.splits CaptureEntry.splits)
qed

lemma put_active_inv:
  assumes inv: "cap_inv c xs st" and fresh: "connection_dir c i \<notin> set (cp_names st)"
    and st': "cp_map st' = cp_map st" "cp_disk st' = cp_disk st" "good st' = good st"
      "insert (connection_dir c i) (set (cp_names st)) \<subseteq> set (cp_names st')" "room c st' (share c)"
    and x: "connection x = i" "is_connected (rec_kind x)"
    and hold: "capped.holds (cfg_file c) Khz8 r [] []" "rec_state r \<noteq> RecFailed"
  shows "cap_inv c (xs @ [x]) (put_entry st' i (CActive r (connection_dir c i)))"
proof -
  let ?st = "put_entry st' i (CActive r (connection_dir c i))"
  have "entry_ok c (CActive r (connection_dir c i))" using hold(1) by auto
  then have "room c ?st 0" using st'(5) by (intro room_put) simp_all
  moreover have "tracked c (xs @ [x]) ?st j" if good: "good ?st" for j
  proof -
    have g: "good st" using good st'(3)
      by (auto simp: good_def put_entry_def Let_def let_go_eq split: option.splits CaptureEntry.splits)
    note free = connected_fresh [OF inv g fresh]
    have put: "?st = st'\<lparr>cp_map := btree_insert (cp_map st) i (CActive r (connection_dir c i))\<rparr>"
      using free st'(1) by (simp add: put_entry_def)
    show ?thesis
    proof (cases "j = i")
      case True
      have "wires i (xs @ [x]) = []" "audios i (xs @ [x]) = []"
        using only_connected_parts [of xs i] free connected_parts [OF x(2)] by (simp_all add: wires_snoc audios_snoc)
      then show ?thesis using True put st'(4) hold by (simp add: tracked_def btree_get_insert)
    next
      case False
      have "tracked c xs st j" using inv g by (simp add: cap_inv_def)
      then show ?thesis
        by (rule tracked_extend) (use False put st'(2,4) x in \<open>auto simp: btree_get_insert\<close>)
    qed
  qed
  ultimately show ?thesis by (simp add: cap_inv_def)
qed

lemma handle_connected_inv:
  assumes inv: "cap_inv c xs st" and run: "cfg_run c \<le> U64_MAX" and x: "is_connected (rec_kind x)"
  shows "steps_to (handle_connected env c wr st x) (cap_inv c (xs @ [x]))"
proof -
  let ?i = "connection x" and ?dir = "connection_dir c (connection x)"
  have room0: "room c st 0" using inv by (simp add: cap_inv_def)
  show ?thesis
  proof (cases "ctl_won (cp_control st)")
    case True
    let ?st = "st\<lparr>cp_counts := (cp_counts st)\<lparr>n_stopped := saturating_add U64_MAX (n_stopped (cp_counts st)) 1\<rparr>\<rparr>"
    have "cap_inv c (xs @ [x]) ?st"
      using inv x by (auto simp: cap_inv_def good_def intro: tracked_extend [of c xs st])
    then show ?thesis using True by (simp add: handle_connected_def steps_toI)
  next
    case won: False
    show ?thesis
    proof (cases "cp_reserved st = cfg_run c \<or> length (cp_map st) \<ge> cfg_active c")
      case True
      then show ?thesis using won room0 by (simp add: handle_connected_def steps_toI cap_inv_def)
    next
      case admitted: False
      let ?st1 = "st\<lparr>cp_reserved := saturating_add U64_MAX (cp_reserved st) 1\<rparr>"
      have room1: "room c ?st1 (share c)" using room_reserve [OF room0 _ run] admitted by simp
      show ?thesis
      proof (cases rule: create_dir_cases [of env ?st1 ?dir])
        case (err e)
        then show ?thesis using won admitted room_mono [OF room1, of 0]
          by (simp add: handle_connected_def Let_def steps_toI cap_inv_def)
      next
        case made: ok
        let ?st2 = "?st1\<lparr>cp_names := ?dir # cp_names ?st1\<rparr>"
        show ?thesis
        proof (cases rule: create_recording_result [of env ?st2 ?dir ?i "cfg_file c"])
          case (err ns d e)
          then have "room c (?st2\<lparr>cp_names := ns @ cp_names ?st2, cp_disk := d @ cp_disk ?st2\<rparr>) (cfg_summary c)"
            using room1 by (intro room_names_disk) (auto simp: share_def add.commute)
          then have "room c (put_entry (?st2\<lparr>cp_names := ns @ cp_names ?st2, cp_disk := d @ cp_disk ?st2\<rparr>) ?i (CFailed rc ?dir)) 0" for rc
            by (simp add: room_put)
          then show ?thesis using won admitted made(1) err(1)
            by (simp add: handle_connected_def Let_def steps_toI cap_inv_def)
        next
          case new: (ok ns r)
          let ?st3 = "?st2\<lparr>cp_names := ns @ cp_names ?st2\<rparr>"
          note eval = handle_connected_def Let_def made(1) [simplified] new(1) [simplified]
          show ?thesis
          proof (cases rule: record_step [OF new(2), of "ce_debug env" x])
            case failed: (1 r' e W' A')
            have "room c (recorder_failed env wr ?st3 ?i r' ?dir e) 0" by (rule room_failed) (use room1 capped.holds_sound [OF failed(2)] in simp_all)
            then show ?thesis using won admitted failed(1) by (simp add: eval steps_toI failed_inv)
          next
            case accepted: (2 r')
            have "cap_inv c (xs @ [x]) (put_entry ?st3 ?i (CActive r' ?dir))"
              by (rule put_active_inv [OF inv])
                 (use made(2) room1 x accepted connected_parts [OF x] in \<open>auto simp: good_def\<close>)
            then show ?thesis using won admitted accepted(1) by (simp add: eval steps_toI)
          qed
        qed
      qed
    qed
  qed
qed

lemma summary_step:
  assumes room: "room c st (cfg_summary c)"
    and ok: "\<And>b. b = as_bytes (json_summary i outcome s r) \<Longrightarrow>
      P (st\<lparr>cp_names := (dir @ [''summary.json'']) # cp_names st, cp_disk := (dir @ [''summary.json''], b) # cp_disk st\<rparr>)"
    and err: "\<And>st'. room c st' 0 \<Longrightarrow> Q st'"
  obtains st' res where "write_summary env st dir (cfg_summary c) i outcome s r = Some (Some (st', res))"
    "isl res \<Longrightarrow> Q st'" "\<not> isl res \<Longrightarrow> P st'" "room c st' 0"
proof (cases rule: write_json_result [of env st "dir @ [''summary.json'']" "cfg_summary c" "json_summary i outcome s r"])
  case (refused e)
  then show ?thesis using that [of st "Inl e"] err room_mono [OF room, of 0] by (simp add: write_summary_def)
next
  case (written b res)
  let ?st = "st\<lparr>cp_names := (dir @ [''summary.json'']) # cp_names st, cp_disk := (dir @ [''summary.json''], b) # cp_disk st\<rparr>"
  have "room c ?st 0" using room written(2) by (intro room_written [of _ _ _ "cfg_summary c"]) simp_all
  then show ?thesis using that [of ?st res] written err ok [of b] by (auto simp: write_summary_def)
qed

lemma handle_end_inv:
  assumes room0: "room c st 0" and entry: "btree_get (cp_map st) i = Some (CActive r0 dir)"
    and hold: "capped.holds (cfg_file c) Khz8 r W A" "rec_state r \<noteq> RecFailed"
    and x: "connection x = i" "rec_kind x = REnded u reason" "rec_end (summary r) = Observed (TerminalKind_from reason)"
    and known: "good st \<Longrightarrow> dir = connection_dir c i \<and> dir \<in> set (cp_names st) \<and> W = wires i (xs @ [x]) \<and> A = audios i (xs @ [x])"
    and others: "\<And>j. good st \<Longrightarrow> tracked c xs st j"
  shows "steps_to (handle_end env c wr st i r dir) (cap_inv c (xs @ [x]))"
proof -
  let ?st1 = "st\<lparr>cp_map := btree_remove (cp_map st) i\<rparr>"
  have ok: "btree_ok (cp_map st)" using room0 by (simp add: room_def)
  have room1: "room c ?st1 (share c)" using room_remove [OF room0 entry] by simp
  obtain r' res where fin: "finish_recording limited_outputs r = Some (Some (r', res))" "capped.writers_sound (cfg_file c) r'"
    "\<And>z. res = Inr z \<Longrightarrow> f_data (lf_file (wire r')) = W \<and> f_data (lf_file (wave r')) = header_of (length A) Khz8 @ A \<and>
       wire_bytes z = length W \<and> audio_bytes z = length A \<and> rec_end z = rec_end (summary r)"
    using finish_step [OF hold(1)] hold(2) by metis
  show ?thesis
  proof (cases res)
    case (Inl e)
    then show ?thesis using fin(1) room_failed [OF room1 fin(2)]
      by (simp add: handle_end_def Let_def steps_toI failed_inv)
  next
    case (Inr z)
    note z = fin(3) [OF Inr]
    let ?good = "successful_terminal (rec_end z)"
    let ?st2 = "let_go ?st1 (recorder_files r' dir)"
    let ?st3 = "if \<not> ?good then ?st2\<lparr>cp_bad := True\<rparr> else ?st2"
    let ?text = "if ?good then ''observed'' else ''failed''"
    have "room c ?st2 (cfg_summary c)"
      using room1 by (intro room_let_go [OF _ recorder_files_size [OF fin(2)]]) (simp add: share_def add.commute)
    then have room3: "room c ?st3 (cfg_summary c)" by simp
    let ?P = "\<lambda>st'. good st' \<longrightarrow> (\<forall>j. tracked c (xs @ [x]) st' j)"
    have finished: "?P (?st3\<lparr>cp_names := (dir @ [''summary.json'']) # cp_names ?st3, cp_disk := (dir @ [''summary.json''], b) # cp_disk ?st3\<rparr>)"
      if b: "b = as_bytes (json_summary i ?text z None)" for b
    proof (intro impI allI)
      let ?st4 = "?st3\<lparr>cp_names := (dir @ [''summary.json'']) # cp_names ?st3, cp_disk := (dir @ [''summary.json''], b) # cp_disk ?st3\<rparr>"
      fix j assume "good ?st4"
      then have g: "good st" "?good" by (auto simp: good_def let_go_eq split: if_splits)
      note k = known [OF g(1)]
      have disk: "cp_disk ?st4 = (dir @ [''summary.json''], b) # file_bytes (recorder_files r' dir) @ cp_disk st"
        and map: "cp_map ?st4 = btree_remove (cp_map st) i" using g(2) by (simp_all add: let_go_eq)
      show "tracked c (xs @ [x]) ?st4 j"
      proof (cases "j = i")
        case True
        have "reason = CleanEof \<or> reason = EndTerminate"
          using g(2) z x(3) by (cases reason) (simp_all add: successful_terminal_def)
        then have "recorded c (xs @ [x]) (cp_disk ?st4) i"
          unfolding recorded_def disk using k z x b g(2)
          by (auto simp: file_bytes_def recorder_files_def)
        then show ?thesis using True k ok unfolding tracked_def map
          by (auto simp: btree_get_remove let_go_eq g(2))
      next
        case False
        then show ?thesis using k ok x
          by (intro tracked_extend [OF others [OF g(1)]])
             (auto simp: map disk btree_get_remove connection_dir_inj file_bytes_def recorder_files_def let_go_eq g(2))
      qed
    qed
    obtain st' res' where w: "write_summary env ?st3 dir (cfg_summary c) i ?text z None = Some (Some (st', res'))"
      "\<not> isl res' \<Longrightarrow> ?P st'" "room c st' 0"
      by (rule summary_step [where Q = "\<lambda>_. True" and P = ?P, OF room3 finished]) auto
    have "handle_end env c wr st i r dir = and_then (Some (Some (st', res'))) (\<lambda>(st, res).
        case res of Inr _ \<Rightarrow> yields st | Inl e \<Rightarrow> yields (fail_with env wr CauseLocal (count_metadata st)))"
      using fin(1) Inr w(1) by (simp add: handle_end_def Let_def split del: if_split cong: if_cong)
    then show ?thesis using w(2,3) by (cases res') (simp_all add: steps_toI cap_inv_def)
  qed
qed

lemma active_holds:
  assumes "cap_inv c xs st" "btree_get (cp_map st) i = Some (CActive r dir)"
  obtains W A where "capped.holds (cfg_file c) Khz8 r W A"
    "good st \<Longrightarrow> dir = connection_dir c i \<and> dir \<in> set (cp_names st) \<and> W = wires i xs \<and> A = audios i xs"
proof (cases "good st")
  case True
  then have "tracked c xs st i" using assms(1) by (simp add: cap_inv_def)
  then show ?thesis using assms(2) by (intro that [of "wires i xs" "audios i xs"]) (auto simp: tracked_def)
next
  case False
  have "entry_ok c (CActive r dir)" using assms by (auto simp: cap_inv_def room_def btree_get_Some_iff)
  then show ?thesis using that False by auto
qed

lemma accepted_inv:
  assumes inv: "cap_inv c xs st" and entry: "btree_get (cp_map st) (connection x) = Some (CActive r0 dir)"
    and hold: "capped.holds (cfg_file c) Khz8 r W A" "rec_state r \<noteq> RecFailed"
    and known: "good st \<Longrightarrow> dir = connection_dir c (connection x) \<and> dir \<in> set (cp_names st) \<and>
      W = wires (connection x) (xs @ [x]) \<and> A = audios (connection x) (xs @ [x])"
  shows "cap_inv c (xs @ [x]) (st\<lparr>cp_map := btree_insert (cp_map st) (connection x) (CActive r dir)\<rparr>)"
    (is "cap_inv c _ ?st")
proof -
  have "entry_ok c (CActive r dir)" using hold(1) by auto
  then have "room c ?st 0" using inv entry by (intro room_replace [of c st 0 _ "CActive r0 dir"]) (simp_all add: cap_inv_def)
  moreover have "tracked c (xs @ [x]) ?st j" if "good ?st" for j
  proof -
    have g: "good st" using that by (simp add: good_def)
    show ?thesis
    proof (cases "j = connection x")
      case True
      then show ?thesis using known [OF g] hold by (auto simp: tracked_def btree_get_insert)
    next
      case False
      have "tracked c xs st j" using inv g by (simp add: cap_inv_def)
      then show ?thesis by (rule tracked_extend) (use False in \<open>simp_all add: btree_get_insert\<close>)
    qed
  qed
  ultimately show ?thesis by (simp add: cap_inv_def)
qed

lemma handle_active_inv:
  assumes inv: "cap_inv c xs st" and x: "btree_get (cp_map st) (connection x) = Some (CActive r dir)"
  shows "steps_to (handle_other env c wr st x) (cap_inv c (xs @ [x]))"
proof -
  let ?i = "connection x"
  obtain W A where hold: "capped.holds (cfg_file c) Khz8 r W A"
    and known: "good st \<longrightarrow> dir = connection_dir c ?i \<and> dir \<in> set (cp_names st) \<and> W = wires ?i xs \<and> A = audios ?i xs"
    using active_holds [OF inv x] by metis
  have room0: "room c st 0" using inv by (simp add: cap_inv_def)
  show ?thesis
  proof (cases rule: record_step [OF hold, of "ce_debug env" x])
    case failed: (1 r' e W' A')
    have "room c (st\<lparr>cp_map := btree_remove (cp_map st) ?i\<rparr>) (share c)" using room_remove [OF room0 x] by simp
    from room_failed [OF this capped.holds_sound [OF failed(2)]] show ?thesis
      using x failed(1) by (simp add: handle_other_def Let_def steps_toI failed_inv)
  next
    case accepted: (2 r')
    have k: "dir = connection_dir c ?i \<and> dir \<in> set (cp_names st) \<and>
        W @ wire_part (rec_kind x) = wires ?i (xs @ [x]) \<and> A @ audio_part (rec_kind x) = audios ?i (xs @ [x])" if "good st"
      using known that by (auto simp: wires_snoc audios_snoc)
    show ?thesis
    proof (cases "is_ended (rec_kind x)")
      case True
      then obtain u reason where kind: "rec_kind x = REnded u reason" by (cases "rec_kind x") (simp_all add: is_ended_def)
      have "steps_to (handle_end env c wr st ?i r' dir) (cap_inv c (xs @ [x]))"
        by (rule handle_end_inv [OF room0 x accepted(2,3) _ kind record_one_state(2) [OF accepted(1) kind] k])
           (use inv in \<open>simp_all add: cap_inv_def\<close>)
      then show ?thesis using x accepted(1) True by (simp add: handle_other_def Let_def)
    next
      case False
      then show ?thesis using x accepted(1) accepted_inv [OF inv x accepted(2,3) k]
        by (simp add: handle_other_def Let_def steps_toI)
    qed
  qed
qed

lemma handle_other_inv:
  assumes inv: "cap_inv c xs st"
  shows "steps_to (handle_other env c wr st x) (cap_inv c (xs @ [x]))"
proof (cases "btree_get (cp_map st) (connection x)")
  case None
  let ?st = "st\<lparr>cp_counts := (cp_counts st)\<lparr>n_unowned := saturating_add U64_MAX (n_unowned (cp_counts st)) 1,
      n_unowned_bytes := saturating_add U64_MAX (n_unowned_bytes (cp_counts st)) (record_bytes x)\<rparr>\<rparr>"
  have "\<not> good ?st" by (simp add: good_def saturating_add_def U64_MAX_def)
  then have "cap_inv c (xs @ [x]) ?st" using inv by (simp add: cap_inv_def)
  then show ?thesis using None by (simp add: handle_other_def Let_def add_record_def steps_toI)
next
  case (Some e)
  show ?thesis
  proof (cases e)
    case (CActive r dir)
    then show ?thesis using handle_active_inv [OF inv] Some by simp
  next
    case (CFailed receipt dir)
    have "\<not> good st"
    proof
      assume "good st"
      then have "tracked c xs st (connection x)" using inv by (simp add: cap_inv_def)
      then show False using Some CFailed by (simp add: tracked_def)
    qed
    moreover have "room c (st\<lparr>cp_map := btree_insert (cp_map st) (connection x) (CFailed receipt' dir)\<rparr>) 0" for receipt'
      by (rule room_replace [where i = "connection x", OF _ Some]) (use inv CFailed in \<open>simp_all add: cap_inv_def\<close>)
    ultimately show ?thesis using Some CFailed
      by (auto simp: handle_other_def Let_def add_record_def cap_inv_def good_def intro!: steps_toI)
  qed
qed

lemma handle_record_inv:
  "cap_inv c xs st \<Longrightarrow> cfg_run c \<le> U64_MAX \<Longrightarrow> steps_to (handle_record env c wr st x) (cap_inv c (xs @ [x]))"
  by (simp add: handle_record_def handle_connected_inv handle_other_inv)

fun received :: "capture_event list \<Rightarrow> Record list" where
  "received [] = []"
| "received (Received x wr # evs) = x # received evs"
| "received (SignalArrived wr # evs) = received evs"

lemma signal_inv: "cap_inv c xs st \<Longrightarrow> cap_inv c xs (st\<lparr>cp_control := ctl\<rparr>)"
proof -
  have "tracked c xs (st\<lparr>cp_control := ctl\<rparr>) i = tracked c xs st i" for i
    by (simp add: tracked_def split: option.split CaptureEntry.split)
  moreover assume "cap_inv c xs st"
  ultimately show ?thesis by (simp add: cap_inv_def good_def)
qed

lemma capture_loop_inv:
  assumes "cap_inv c xs st" "cfg_run c \<le> U64_MAX"
  shows "steps_to (capture_loop env c st evs) (cap_inv c (xs @ received evs))"
  using assms(1)
proof (induction evs arbitrary: st xs)
  case Nil
  then show ?case by (simp add: steps_toI)
next
  case (Cons ev evs)
  show ?case
  proof (cases ev)
    case (Received x wr)
    have "steps_to (capture_loop env c st' evs) (cap_inv c (xs @ x # received evs))" if "cap_inv c (xs @ [x]) st'" for st'
      using Cons.IH [OF that] by simp
    from steps_to_then [OF handle_record_inv [OF Cons.prems assms(2)] this] show ?thesis using Received by simp
  next
    case (SignalArrived wr)
    from Cons.IH [OF signal_inv [OF Cons.prems]] show ?thesis using SignalArrived by simp
  qed
qed

section \<open>Finalization\<close>

lemma summary_room:
  assumes "room c st (n + cfg_summary c)"
  obtains st' res where "write_summary env st dir (cfg_summary c) i outcome s r = Some (Some (st', res))"
    "room c st' n" "cp_bad st' = cp_bad st"
proof (cases rule: write_json_result [of env st "dir @ [''summary.json'']" "cfg_summary c" "json_summary i outcome s r"])
  case (refused e)
  then show ?thesis using that [of st "Inl e"] room_mono [OF assms, of n] by (simp add: write_summary_def)
next
  case (written b res)
  then show ?thesis using that [OF _ room_written [OF assms written(2)]] by (simp add: write_summary_def)
qed

lemma finalize_entry_inv:
  assumes "room c st (n + entry_weight c e)" "entry_ok c e"
  shows "steps_to (finalize_entry env c st i e) (\<lambda>st'. room c st' n \<and> cp_bad st')"
proof (cases e)
  case (CActive r dir)
  then obtain W A where "capped.holds (cfg_file c) Khz8 r W A" using assms(2) by auto
  then obtain r' res where fin: "finish_recording limited_outputs r = Some (Some (r', res))" "capped.writers_sound (cfg_file c) r'"
    using finish_step by metis
  let ?st = "(let_go st (recorder_files r' dir))\<lparr>cp_bad := True\<rparr>"
  have room: "room c ?st (n + cfg_summary c)"
    using assms(1) CActive by (simp, intro room_let_go [OF _ recorder_files_size [OF fin(2)]]) (simp add: share_def algebra_simps)
  have "\<exists>st' res'. write_summary env ?st dir (cfg_summary c) i out s rc = Some (Some (st', res')) \<and> room c st' n \<and> cp_bad st'"
    for out s rc by (rule summary_room [OF room, of env dir i out s rc]) auto
  then obtain st' res' where "(case res of
      Inr s \<Rightarrow> write_summary env ?st dir (cfg_summary c) i ''incomplete'' s None
    | Inl x \<Rightarrow> write_summary env ?st dir (cfg_summary c) i ''failed'' (rcp_summary (Receipt_from_error x)) (Some (Receipt_from_error x))) =
      Some (Some (st', res'))" "room c st' n" "cp_bad st'"
    by (cases res) (simp_all, blast+)
  then show ?thesis using CActive fin(1)
    by (cases res'; cases res) (simp_all add: finalize_entry_def Let_def steps_toI count_metadata_def)
next
  case (CFailed receipt dir)
  then have "room c st (n + cfg_summary c)" using assms(1) by simp
  then obtain st' res where "write_summary env st dir (cfg_summary c) i ''failed'' (rcp_summary receipt) (Some receipt) =
      Some (Some (st', res))" "room c st' n" by (rule summary_room)
  then show ?thesis using CFailed by (cases res) (simp_all add: finalize_entry_def steps_toI)
qed

lemma finalize_all_inv:
  assumes "room c st (n + weights c es)" "\<forall>p \<in> set es. entry_ok c (snd p)"
  shows "steps_to (finalize_all env c st es) (\<lambda>st'. room c st' n \<and> (if es = [] then st' = st else cp_bad st'))"
  using assms
proof (induction es arbitrary: st)
  case Nil
  then show ?case by (simp add: steps_toI weights_def)
next
  case (Cons p es)
  obtain i e where p: "p = (i, e)" by fastforce
  have "steps_to (finalize_entry env c st i e) (\<lambda>st'. room c st' (n + weights c es) \<and> cp_bad st')"
    by (rule finalize_entry_inv) (use Cons.prems p in \<open>simp_all add: weights_def add.left_commute add.assoc add.commute\<close>)
  then show ?case unfolding p finalize_all.simps
    by (rule steps_to_then) (use Cons in \<open>force simp: steps_to_def split: if_splits\<close>)
qed

lemma capture_finish_result:
  assumes inv: "cap_inv c xs st"
  obtains st' verdict where "capture_finish env c st oc = Some (Some (st', verdict))"
    "disk_bytes (cp_disk st') \<le> cp_reserved st' * share c + cfg_status c" "cp_reserved st' \<le> cfg_run c"
    "verdict = Inr () \<longrightarrow> good st \<and> \<not> run_bad st oc \<and> cp_map st = [] \<and>
       (\<exists>b. cp_disk st' = ([cfg_output c, ''run-status.json''], b) # cp_disk st)"
proof -
  have room0: "room c (st\<lparr>cp_map := []\<rparr>) (0 + weights c (cp_map st))" "\<forall>p \<in> set (cp_map st). entry_ok c (snd p)"
    using inv by (auto simp: cap_inv_def room_def weights_def)
  obtain st1 where fin: "finalize_all env c (st\<lparr>cp_map := []\<rparr>) (cp_map st) = Some (Some st1)" "room c st1 0"
    "if cp_map st = [] then st1 = st\<lparr>cp_map := []\<rparr> else cp_bad st1"
    using finalize_all_inv [OF room0, of env] by (auto simp: steps_to_def)
  let ?p = "[cfg_output c, ''run-status.json'']"
  show ?thesis
  proof (cases rule: write_json_result [of env st1 ?p "cfg_status c" "status_json st1 oc"])
    case (refused e)
    then show ?thesis using fin that [of st1 "Inl ''capture completed with failures; see run-status.json and recording summaries''"]
      by (simp add: capture_finish_def room_def yields_def)
  next
    case (written b res)
    let ?st = "st1\<lparr>cp_names := ?p # cp_names st1, cp_disk := (?p, b) # cp_disk st1\<rparr>"
    let ?v = "if run_bad st1 oc \<or> isl res then Inl ''capture completed with failures; see run-status.json and recording summaries''
      else Inr ()"
    have eval: "capture_finish env c st oc = Some (Some (?st, ?v))"
      using fin(1) written(1) by (simp add: capture_finish_def yields_def)
    have ok: "good st \<and> \<not> run_bad st oc \<and> cp_map st = [] \<and> (\<exists>b. cp_disk ?st = (?p, b) # cp_disk st)" if "?v = Inr ()"
    proof -
      have nb: "\<not> run_bad st1 oc" using that by (auto split: if_splits)
      then have "cp_map st = []" using fin(3) by (auto simp: run_bad_def split: if_splits)
      then have "st1 = st\<lparr>cp_map := []\<rparr>" using fin(3) by simp
      then show ?thesis using nb \<open>cp_map st = []\<close> by (auto simp: run_bad_def good_def)
    qed
    show ?thesis using eval by (rule that) (use fin(2) written(2) ok in \<open>auto simp: room_def\<close>)
  qed
qed

lemma capture_new_inv: "cap_inv c [] (capture_new s names)"
  by (simp add: cap_inv_def room_def capture_new_def weights_def tracked_def only_connected_def)

definition outcome_clean :: "outcome \<Rightarrow> bool" where
  "outcome_clean oc \<longleftrightarrow>
     oc_signals_joined oc \<and> oc_budget_used oc = 0 \<and>
     (case oc_worker oc of
        Some (Inr w) \<Rightarrow> abandoned w = 0 \<and> undelivered_raw_bytes w = 0 \<and> undelivered_records w = 0 \<and> counters_complete w
      | _ \<Rightarrow> False)"

lemma not_run_bad: "\<not> run_bad st oc \<Longrightarrow> outcome_clean oc"
  by (auto simp: run_bad_def outcome_clean_def worker_summary_def split: option.splits sum.splits)

lemma capture_run_result:
  assumes "cfg_run c \<le> U64_MAX"
  obtains st verdict where "capture_run env c s names evs oc = Some (Some (st, verdict))"
    "disk_bytes (cp_disk st) \<le> cp_reserved st * share c + cfg_status c" "cp_reserved st \<le> cfg_run c"
    "verdict = Inr () \<longrightarrow> only_connected (received evs) i \<or> recorded c (received evs) (cp_disk st) i"
    "verdict = Inr () \<longrightarrow> outcome_clean oc"
proof -
  obtain st0 where loop: "capture_loop env c (capture_new s names) evs = Some (Some st0)" "cap_inv c (received evs) st0"
    using capture_loop_inv [OF capture_new_inv assms, of env s names evs] by (auto simp: steps_to_def)
  obtain st' verdict where fin: "capture_finish env c st0 oc = Some (Some (st', verdict))"
    "disk_bytes (cp_disk st') \<le> cp_reserved st' * share c + cfg_status c" "cp_reserved st' \<le> cfg_run c"
    "verdict = Inr () \<longrightarrow> good st0 \<and> \<not> run_bad st0 oc \<and> cp_map st0 = [] \<and>
       (\<exists>b. cp_disk st' = ([cfg_output c, ''run-status.json''], b) # cp_disk st0)"
    by (rule capture_finish_result [OF loop(2), of env oc])
  have "only_connected (received evs) i \<or> recorded c (received evs) (cp_disk st') i" if "verdict = Inr ()"
  proof -
    have "tracked c (received evs) st0 i" using loop(2) fin(4) that by (simp add: cap_inv_def)
    then show ?thesis using fin(4) that by (auto simp: tracked_def recorded_def connection_dir_def)
  qed
  then show ?thesis using loop(1) fin by (intro that [of st' verdict]) (auto simp: capture_run_def dest: not_run_bad)
qed

section \<open>Properties\<close>

text \<open>
  C10: A run never writes more than its configured bound.  For every configuration the command
  line accepts, whatever records and signals arrive and however the operating system fails or
  shortens the calls, the run returns a verdict, reserves no more recordings than allowed, and
  all the files it leaves, complete, partial or abandoned, summaries and status included, add up
  to at most the bound that was checked when it started.
\<close>

theorem capture_output_within_bound:
  assumes "Config_parse platform arguments = Inr c"
  shows "case capture_run env c s names evs oc of
      Some (Some (st, verdict)) \<Rightarrow>
        cp_reserved st \<le> cfg_run c \<and>
        (case checked_output_bound (cfg_run c) (cfg_file c) (cfg_summary c) (cfg_status c) of
           Inr bound \<Rightarrow> disk_bytes (cp_disk st) \<le> bound
         | Inl _ \<Rightarrow> False)
    | _ \<Rightarrow> False"
proof -
  note c = parsed_config_is_valid [OF assms]
  obtain st verdict where run: "capture_run env c s names evs oc = Some (Some (st, verdict))"
    "disk_bytes (cp_disk st) \<le> cp_reserved st * share c + cfg_status c" "cp_reserved st \<le> cfg_run c"
    by (rule capture_run_result [of c env s names evs oc]) (use c in \<open>auto simp: config_bounded_def\<close>)
  have "cp_reserved st * share c \<le> cfg_run c * share c" using run(3) by (rule mult_le_mono1)
  then have "disk_bytes (cp_disk st) \<le> cfg_run c * (3 * cfg_file c + cfg_summary c) + cfg_status c"
    using run(2) by (simp only: share_def)
  then show ?thesis using run c by simp
qed


section \<open>Witnesses\<close>

definition demo_texts :: debug_texts where
  "demo_texts = \<lparr>dbg_instant = \<lambda>_. [], dbg_uuid = \<lambda>_. [], dbg_char = \<lambda>_. [], dbg_message = \<lambda>_. [],
     dbg_decode = \<lambda>_. [], dbg_finish = \<lambda>_. [], dbg_policy = \<lambda>_. [], dbg_transport = \<lambda>_. [], dbg_budget = \<lambda>_. []\<rparr>"

definition demo_capture_env :: capture_env where
  "demo_capture_env = \<lparr>ce_debug = demo_texts, ce_kind_text = \<lambda>_. [], ce_create_dir = \<lambda>_. Inr (), ce_open = \<lambda>_. Inr []\<rparr>"

definition demo_events :: "capture_event list" where
  "demo_events =
     [Received \<lparr>connection = ConnectionId 1 2, rec_offset = WireOffset 0, observed_at = 0, rec_kind = RConnected ''peer''\<rparr> (Inr ()),
      Received \<lparr>connection = ConnectionId 1 2, rec_offset = WireOffset 0, observed_at = 0, rec_kind = REnded None CleanEof\<rparr> (Inr ())]"

definition demo_outcome :: outcome where
  "demo_outcome = \<lparr>oc_signals_joined = True, oc_worker = Some (Inr RunSummary_default), oc_budget_used = 0\<rparr>"

theorem capture_output_within_bound_witness:
  "case capture_run demo_capture_env demo_config Signals_new [] demo_events demo_outcome of
     Some (Some (st, verdict)) \<Rightarrow> cp_reserved st \<le> 64 \<and> disk_bytes (cp_disk st) \<le> 64 * (3 * 67108864 + 4096) + 4096
   | _ \<Rightarrow> False"
  using capture_output_within_bound [OF demo_parse, where env = demo_capture_env and s = Signals_new and names = "[]" and
      evs = demo_events and oc = demo_outcome]
  by (simp add: demo_config_def checked_output_bound_def checked_mul_def checked_add_def U64_MAX_def ok_then_def ok_or_def
      split: option.splits prod.splits)


end
