(* ===== verification/Error_Texts.thy ===== *)
theory Error_Texts
  imports Capture_Complete
begin

text \<open>
  The texts of errors (\<open>impl fmt::Display\<close> in both crates), and the cause that an error
  names as its source.  The text of an operating system error is a parameter.  Texts with numbers
  are read back unambiguously: a decimal number ends at the first character that is no digit.
\<close>

section \<open>The codec's errors\<close>

fun AudioPayloadError_text :: "AudioPayloadError \<Rightarrow> string" where
  "AudioPayloadError_text OddLength = ''PCM payload has an odd byte length''"
| "AudioPayloadError_text AudioPayloadTooLong = ''PCM payload exceeds the u16 wire-length limit''"

fun UnknownWireTypeError_text :: "UnknownWireTypeError \<Rightarrow> string" where
  "UnknownWireTypeError_text KnownType = ''type byte identifies a documented wire type''"

fun RawEnvelopeError_text :: "RawEnvelopeError \<Rightarrow> string" where
  "RawEnvelopeError_text PayloadTooLong = ''payload exceeds the u16 wire-length limit''"

fun TypedMessageError_text :: "TypedMessageError \<Rightarrow> string" where
  "TypedMessageError_text TerminatePayload = ''terminate payload is not empty''"
| "TypedMessageError_text UuidLength = ''UUID payload does not contain sixteen bytes''"
| "TypedMessageError_text DtmfLength = ''DTMF payload does not contain one byte''"
| "TypedMessageError_text DtmfNotAscii = ''DTMF byte is not ASCII''"
| "TypedMessageError_text OddPcmLength = ''PCM payload has an odd byte length''"
| "TypedMessageError_text UnknownTypeClassification = ''wire type classification is inconsistent''"

fun EncodeError_text :: "EncodeError \<Rightarrow> string" where
  "EncodeError_text (OutputTooShort needed given) =
     ''output has '' @ show_nat given @ '' bytes but frame requires '' @ show_nat needed"

fun DecodeError_text :: "DecodeError \<Rightarrow> string" where
  "DecodeError_text (InvalidLength e) = ''invalid declared message length: '' @ TypedMessageError_text e"
| "DecodeError_text (ResourceLimit needed given) =
     ''scratch capacity '' @ show_nat given @ '' is below required body length '' @ show_nat needed"
| "DecodeError_text (InvalidContent e) = ''invalid message content: '' @ TypedMessageError_text e"
| "DecodeError_text DecodeFailed = ''decoder is in a failed state''"

fun FinishError_text :: "FinishError \<Rightarrow> string" where
  "FinishError_text (TruncatedHeader expected got) =
     ''header ended after '' @ show_nat got @ '' of '' @ show_nat expected @ '' bytes''"
| "FinishError_text (TruncatedPayload expected got) =
     ''payload ended after '' @ show_nat got @ '' of '' @ show_nat expected @ '' bytes''"
| "FinishError_text FinishFailed = ''decoder is in a failed state''"

fun IncomingSessionError_text :: "IncomingSessionError \<Rightarrow> string" where
  "IncomingSessionError_text MissingUuid = ''audio or DTMF arrived before UUID''"
| "IncomingSessionError_text DuplicateUuid = ''a second UUID arrived in the session''"
| "IncomingSessionError_text (UnsupportedRate _) = ''audio rate is outside the incoming profile''"
| "IncomingSessionError_text (UnsupportedDigit _) = ''DTMF digit is outside the incoming profile''"
| "IncomingSessionError_text (UnsupportedType _) = ''wire type is outside the incoming profile''"
| "IncomingSessionError_text AfterEnd = ''message arrived after the session ended''"

section \<open>The receiver's errors\<close>

fun LimitsError_text :: "LimitsError \<Rightarrow> string" where
  "LimitsError_text PayloadBelowUuid = ''payload capacity is below 16 UUID bytes''"
| "LimitsError_text FixedStorageOverflow = ''fixed buffer capacity exceeds usize''"

fun BudgetError_text :: "BudgetError \<Rightarrow> string" where
  "BudgetError_text (TooLarge needed cap) =
     ''requested '' @ show_nat needed @ '' bytes exceeds capacity '' @ show_nat cap"
| "BudgetError_text (Full needed free) =
     ''requested '' @ show_nat needed @ '' bytes with only '' @ show_nat free @ '' available''"

fun ReceiverFailure_text :: "(io_error \<Rightarrow> string) \<Rightarrow> ReceiverFailure \<Rightarrow> string" where
  "ReceiverFailure_text io (RfIo e) = ''receiver I/O failed: '' @ io e"
| "ReceiverFailure_text io (BudgetTooSmall e) = ''receiver budget is too small: '' @ BudgetError_text e"
| "ReceiverFailure_text io InstanceExhausted = ''receiver instance identities exhausted''"
| "ReceiverFailure_text io TokenExhausted = ''receiver connection tokens exhausted''"
| "ReceiverFailure_text io BudgetAlreadySubscribed = ''receiver budget already has an active worker''"
| "ReceiverFailure_text io CounterExhausted = ''receiver observation counters exhausted''"

definition ReceiverError_text :: "(io_error \<Rightarrow> string) \<Rightarrow> ReceiverError \<Rightarrow> string" where
  "ReceiverError_text io e = ReceiverFailure_text io (re_failure e)"

datatype error_source = SourceIo io_error | SourceBudget BudgetError

definition ReceiverError_source :: "ReceiverError \<Rightarrow> error_source option" where
  "ReceiverError_source e =
     (case re_failure e of
        RfIo x \<Rightarrow> Some (SourceIo x)
      | BudgetTooSmall x \<Rightarrow> Some (SourceBudget x)
      | _ \<Rightarrow> None)"

fun RecordingStage_debug :: "RecordingStage \<Rightarrow> string" where
  "RecordingStage_debug Validate = ''Validate''"
| "RecordingStage_debug StHeader = ''Header''"
| "RecordingStage_debug StWire = ''Wire''"
| "RecordingStage_debug StAudio = ''Audio''"
| "RecordingStage_debug StEvents = ''Events''"
| "RecordingStage_debug StSeek = ''Seek''"
| "RecordingStage_debug StPatch = ''Patch''"
| "RecordingStage_debug FlushWire = ''FlushWire''"
| "RecordingStage_debug FlushWave = ''FlushWave''"
| "RecordingStage_debug FlushEvents = ''FlushEvents''"

fun RecordingViolation_debug :: "RecordingViolation \<Rightarrow> string" where
  "RecordingViolation_debug AfterFailure = ''AfterFailure''"
| "RecordingViolation_debug VAfterEnd = ''AfterEnd''"
| "RecordingViolation_debug VConnection = ''Connection''"
| "RecordingViolation_debug VOrder = ''Order''"
| "RecordingViolation_debug VUuid = ''Uuid''"
| "RecordingViolation_debug VOffset = ''Offset''"
| "RecordingViolation_debug AudioFormat = ''AudioFormat''"
| "RecordingViolation_debug WaveSize = ''WaveSize''"

definition RecordingError_text :: "(io_error \<Rightarrow> string) \<Rightarrow> RecordingError \<Rightarrow> string" where
  "RecordingError_text io e =
     ''recording '' @ RecordingStage_debug (err_stage e) @ '' failed: '' @
     (case err_failure e of Io x \<Rightarrow> io x | Invalid v \<Rightarrow> RecordingViolation_debug v)"

definition RecordingError_source :: "RecordingError \<Rightarrow> error_source option" where
  "RecordingError_source e = (case err_failure e of Io x \<Rightarrow> Some (SourceIo x) | Invalid _ \<Rightarrow> None)"

section \<open>Texts identify errors\<close>

lemma space_no_digit: "CHR '' '' \<notin> set (show_nat n)"
  using show_nat_digits [of "CHR '' ''" n] by (auto simp: digit_value_def Let_def)

lemma first_split: "x \<notin> set xs \<Longrightarrow> x \<notin> set ys \<Longrightarrow> xs @ x # r = ys @ x # r' \<longleftrightarrow> xs = ys \<and> r = r'"
proof (induction xs arbitrary: ys)
  case Nil
  then show ?case by (cases ys) auto
next
  case (Cons a xs)
  then show ?case by (cases ys) auto
qed

lemma show_nat_space [simp]:
  "show_nat a @ CHR '' '' # r = show_nat b @ CHR '' '' # r' \<longleftrightarrow> a = b \<and> r = r'"
  by (auto simp only: first_split [OF space_no_digit space_no_digit] dest: show_nat_inj)

lemma show_nat_eq [simp]: "show_nat a = show_nat b \<longleftrightarrow> a = b"
  by (auto dest: show_nat_inj)

lemma TypedMessageError_text_inj: "TypedMessageError_text a = TypedMessageError_text b \<longleftrightarrow> a = b"
  by (cases a; cases b) simp_all

lemma BudgetError_text_inj: "BudgetError_text a = BudgetError_text b \<longleftrightarrow> a = b"
  by (cases a; cases b) auto

lemma DecodeError_text_inj: "DecodeError_text a = DecodeError_text b \<longleftrightarrow> a = b"
  by (cases a; cases b) (auto simp: TypedMessageError_text_inj)

lemma FinishError_text_inj: "FinishError_text a = FinishError_text b \<longleftrightarrow> a = b"
  by (cases a; cases b) auto

lemma EncodeError_text_inj: "EncodeError_text a = EncodeError_text b \<longleftrightarrow> a = b"
  by (cases a; cases b) auto

lemma LimitsError_text_inj: "LimitsError_text a = LimitsError_text b \<longleftrightarrow> a = b"
  by (cases a; cases b) simp_all

text \<open>A receiver's text names its failure, as far as the system's texts name theirs.\<close>

lemma ReceiverFailure_text_inj:
  "ReceiverFailure_text io a = ReceiverFailure_text io b \<longleftrightarrow>
     (case (a, b) of (RfIo x, RfIo y) \<Rightarrow> io x = io y | _ \<Rightarrow> a = b)"
  by (cases a; cases b) (simp_all add: BudgetError_text_inj)

lemma RecordingError_stage_text:
  assumes "RecordingError_text io a = RecordingError_text io b"
  shows "err_stage a = err_stage b"
  using assms by (cases "err_stage a"; cases "err_stage b") (simp_all add: RecordingError_text_def)

end
