(* ===== verification/Capture_Stream.thy ===== *)
theory Capture_Stream
  imports Capture_Complete Connection_Stream
begin

text \<open>
  The receiver and the capture application together.  The recorder's validation accepts exactly
  the record protocol that every connection task follows, so a recorder fed by a connection
  stops only for the operating system or for the size domain of a WAVE file.
\<close>

section \<open>Validation accepts the protocol\<close>

definition at_position :: "('a, 'b, 'c) Recording \<Rightarrow> ConnectionId \<Rightarrow> stream_pos \<Rightarrow> bool" where
  "at_position r i pos \<longleftrightarrow>
     rec_id r = i \<and> sample_rate r = Khz8 \<and> pos = (rec_state r, last_event_offset r, wire_bytes (summary r))"

lemma phase_step_uuid:
  assumes "phase_step ok st k = Some st'"
  shows "st \<noteq> RecFailed" "st \<noteq> RecEnded" "st = AwaitingConnection \<longleftrightarrow> is_connected k"
    "\<And>u rate b. k = RAudio u rate b \<Longrightarrow> st = RActive u \<and> ok rate \<and> even (length (as_slice b)) \<and> st' = st"
    "\<And>u g. k = RDtmf u g \<Longrightarrow> st = RActive u \<and> st' = st"
    "\<And>u e. k = REnded u e \<Longrightarrow> (case st of RActive v \<Rightarrow> Some v | _ \<Rightarrow> None) = u \<and> st' = RecEnded"
    "\<And>u. k = RStarted u \<Longrightarrow> st = RAwaitingUuid \<and> st' = RActive u" "\<And>b. k = RWire b \<Longrightarrow> st' = st"
    "\<And>p. k = RConnected p \<Longrightarrow> st' = RAwaitingUuid"
  using assms by (cases "(ok, st, k)" rule: phase_step.cases; auto split: if_splits)+

lemma validate_protocol:
  assumes at: "at_position r i pos" and step: "stream_step i (accepts PCM_8_KHZ) pos x = Some (st', lo', got')"
    and small: "audio_bytes (summary r) \<le> U32_MAX"
  shows "validate r x = Some (Inr st') \<or>
    validate r x = Some (Inl WaveSize) \<and> U32_MAX < audio_bytes (summary r) + length (audio_part (rec_kind x)) + 36"
proof -
  obtain st lo got where pos: "pos = (st, lo, got)" by (cases pos)
  have ph: "phase_step (accepts PCM_8_KHZ) st (rec_kind x) = Some st'" and conn: "connection x = i"
    and wire: "is_wire (rec_kind x) \<Longrightarrow> offset_get (rec_offset x) = got"
    and event: "\<not> is_wire (rec_kind x) \<Longrightarrow> lo \<le> offset_get (rec_offset x) \<and> offset_get (rec_offset x) \<le> got"
    using step pos by (auto simp: stream_step.simps Let_def split: if_splits option.splits)
  have r: "rec_id r = i" "sample_rate r = Khz8" "rec_state r = st" "last_event_offset r = lo" "wire_bytes (summary r) = got"
    using at pos by (auto simp: at_position_def)
  note p = phase_step_uuid [OF ph]
  show ?thesis
  proof (cases "rec_kind x")
    case (RAudio u rate b)
    note q = p(4) [OF RAudio]
    show ?thesis using r p(1,2,3) q RAudio conn event small
      by (auto simp: accepts_pcm8 validate_def Let_def SAMPLE_BYTES_def wave_header_eval try_from_def checked_add_def U32_MAX_def U64_MAX_def
          even_iff_mod_2_eq_zero)
  qed (use r p conn event wire in \<open>auto simp: validate_def Let_def\<close>)
qed

definition output_refusal :: "RecordingError \<Rightarrow> bool" where
  "output_refusal e \<longleftrightarrow> (case err_failure e of Io _ \<Rightarrow> True | Invalid v \<Rightarrow> v = WaveSize)"

lemma record_one_refused:
  assumes "record_one k d r x = Some (Some (r', Inl e))" "validate r x = Some v" "v = Inl WaveSize \<or> \<not> isl v"
  shows "output_refusal e"
  using assms
  by (auto simp: record_one_def invalid_def yields_def and_then_def output_result_def write_description_def output_refusal_def
      split: sum.splits option.splits)

text \<open>
  A recorder over any outputs that keep the contract: an accepted record moves it to the next
  position of the protocol, and a refusal of a record of the protocol is the outputs'.
\<close>

context recorder
begin

lemma accepted_position:
  assumes at: "at_position r i pos" and step: "stream_step i ok pos x = Some pos'"
    and one: "record_one k d r x = Some (Some (r', Inr ()))"
    and hold: "holds Khz8 r W A" "holds Khz8 r' (W @ wire_part (rec_kind x)) A'"
    and valid: "validate r x = Some (Inr (fst pos'))"
  shows "at_position r' i pos'"
proof -
  obtain r3 nxt where r': "validate r x = Some (Inr nxt)" "r' = record_accepted r3 x nxt" "same_frame r r3"
    by (rule record_one_accepted [OF one])
  have "wire_bytes (summary r) = length W" "wire_bytes (summary r') = length W + length (wire_part (rec_kind x))"
    using hold by (simp_all add: holds_def)
  moreover obtain st lo got where "pos = (st, lo, got)" by (cases pos)
  ultimately show ?thesis using at step r' valid
    by (cases "rec_kind x")
       (auto simp: at_position_def same_frame_def record_accepted_def Let_def stream_step.simps split: if_splits option.splits)
qed

lemma record_all_protocol:
  assumes "holds Khz8 r W A" "at_position r i pos" "stream_run i (accepts PCM_8_KHZ) pos xs = Some pos'"
  shows "\<exists>r' ress. record_all k d r xs = Some (Some (r', ress)) \<and>
    (case drop (accepted_count ress) ress of [] \<Rightarrow> True | Inl e # _ \<Rightarrow> output_refusal e | Inr _ # _ \<Rightarrow> False)"
  using assms
proof (induction xs arbitrary: r W A pos)
  case Nil
  then show ?case by (simp add: yields_def accepted_count_def)
next
  case (Cons x xs)
  obtain pos1 where step: "stream_step i (accepts PCM_8_KHZ) pos x = Some pos1"
    and rest: "stream_run i (accepts PCM_8_KHZ) pos1 xs = Some pos'"
    using Cons.prems(3) by (auto split: option.splits)
  obtain st' lo' got' where pos1: "pos1 = (st', lo', got')" by (cases pos1)
  have small: "audio_bytes (summary r) \<le> U32_MAX" using Cons.prems(1) by (auto simp: holds_def)
  note valid = validate_protocol [OF Cons.prems(2) step [unfolded pos1] small]
  obtain r' res m n where one: "record_one k d r x = Some (Some (r', res))"
    "holds Khz8 r' (W @ take m (wire_part (rec_kind x))) (A @ take n (audio_part (rec_kind x)))"
    "case res of Inl e \<Rightarrow> rec_state r' = RecFailed
      | Inr u \<Rightarrow> length (wire_part (rec_kind x)) \<le> m \<and> length (audio_part (rec_kind x)) \<le> n"
    using record_one_holds [OF Cons.prems(1), of d x] by blast
  show ?case
  proof (cases res)
    case (Inl e)
    have "output_refusal e" using record_one_refused [OF one(1) [unfolded Inl]] valid by auto
    moreover have "\<exists>ress. record_all k d r' xs = Some (Some (r', ress))" using one(3) Inl by (simp add: record_all_failed)
    then obtain ress where "record_all k d r (x # xs) = Some (Some (r', Inl e # ress))"
      using one(1) Inl by (auto simp: yields_def)
    ultimately show ?thesis by (simp add: accepted_count_def)
  next
    case (Inr u)
    have hold': "holds Khz8 r' (W @ wire_part (rec_kind x)) (A @ audio_part (rec_kind x))" using one(2,3) Inr by simp
    have acc: "record_one k d r x = Some (Some (r', Inr ()))" using one(1) Inr by simp
    have "validate r x = Some (Inr (fst pos1))"
      using valid acc by (auto simp: record_one_def invalid_def yields_def pos1)
    from accepted_position [OF Cons.prems(2) step acc Cons.prems(1) hold' this]
    obtain r2 ress where "record_all k d r' xs = Some (Some (r2, ress))"
      "case drop (accepted_count ress) ress of [] \<Rightarrow> True | Inl e # _ \<Rightarrow> output_refusal e | Inr _ # _ \<Rightarrow> False"
      using Cons.IH [OF hold' _ rest] by blast
    then show ?thesis using acc by (auto simp: yields_def accepted_count_def)
  qed
qed

lemma new_position:
  assumes "with_sample_rate k i Khz8 a b c = Some (Some (r, Inr ()))"
    "holds Khz8 r [] []" "rec_state r = AwaitingConnection" "rec_id r = i"
  shows "at_position r i (AwaitingConnection, 0, 0)"
proof -
  have "last_event_offset r = 0" using assms(1)
    by (auto simp: with_sample_rate_def Let_def wave_header_eval yields_def and_then_def output_result_def invalid_def
        split: option.splits sum.splits)
  then show ?thesis using assms(2-4) by (simp add: at_position_def holds_def)
qed

end

section \<open>Properties\<close>



end
