(* ===== verification/Capture_Success.thy ===== *)
theory Capture_Success
  imports Capture_Stream
begin

text \<open>
  When a capture run succeeds.  On a system whose calls do what they are asked, calls that follow
  the record protocol to a clean end and fit the configured limits are recorded to the end, and
  the run reports success.
\<close>

section \<open>Files on a calm system\<close>

definition calm :: "LimitedFile \<Rightarrow> bool" where
  "calm l \<longleftrightarrow> f_script (lf_file l) = []"

lemma position_content: "lf_ok l \<Longrightarrow> f_pos (lf_file l) = length (lf_content l)"
  by (simp add: lf_ok_def lf_content_def)

lemma calm_write:
  assumes "calm l" "lf_ok l" "length (lf_content l) + length bs \<le> lf_cap l" "lf_cap l \<le> U64_MAX"
  obtains l' where "out_write limited_sink l bs = (l', Inr (length bs))" "calm l'"
  using assms position_content [OF assms(2)] that
  by (simp add: limited_sink_def LimitedFile_write_def stream_position_def file_write_def os_call_def calm_def
      try_from_def checked_add_def)

lemma calm_loop:
  assumes "calm l" "lf_ok l" "length (lf_content l) + length bs \<le> lf_cap l" "lf_cap l \<le> U64_MAX"
  obtains l' where "write_loop limited_sink l bs n = Some (Some (l', n + length bs, Inr ()))" "calm l'"
    "lf_content l' = lf_content l @ bs"
proof (cases "bs = []")
  case True
  then show ?thesis using that [of l] assms(1) by (simp add: write_loop.simps [of limited_sink l "[]"])
next
  case False
  obtain l' where w: "out_write limited_sink l bs = (l', Inr (length bs))" "calm l'" by (rule calm_write [OF assms])
  have "lf_content l' = lf_content l @ bs" using limited.write_ok [OF assms(2) w(1)] by simp
  then show ?thesis using that [of l'] w False
    by (simp add: write_loop.simps [of limited_sink l bs] write_loop.simps [of limited_sink _ "[]"])
qed

lemma calm_count:
  assumes "calm l" "lf_ok l" "length (lf_content l) + length bs \<le> lf_cap l" "lf_cap l \<le> U64_MAX" "n + length bs \<le> U64_MAX"
  obtains l' where "write_count limited_sink l bs n = Some (Some (l', n + length bs, Inr ()))" "calm l'"
    "lf_content l' = lf_content l @ bs"
proof -
  have "write_count limited_sink l bs n = write_loop limited_sink l bs n"
    using assms(5) by (simp add: write_count_def try_from_def checked_add_def)
  with calm_loop [OF assms(1-4), of n] that show ?thesis by metis
qed

lemma calm_rewind: "calm l \<Longrightarrow> \<exists>l'. out_rewind limited_sink l = (l', Inr ()) \<and> calm l'"
  by (simp add: limited_sink_def LimitedFile_rewind_def LimitedFile_seek_def file_seek_def os_call_def calm_def)

lemma calm_flush: "calm l \<Longrightarrow> LimitedFile_flush l = (l, Inr ())"
  by (simp add: LimitedFile_flush_def file_flush_def os_call_def calm_def)

section \<open>Recorders on a calm system\<close>

definition calm_recorder :: "recorder \<Rightarrow> bool" where
  "calm_recorder r \<longleftrightarrow> calm (wire r) \<and> calm (wave r) \<and> calm (events r) \<and>
     event_bytes (summary r) = length (lf_content (events r)) \<and> header_bytes (summary r) = 44"

lemma holds_files:
  assumes "capped.holds cap Khz8 r W A"
  shows "lf_ok (wire r)" "lf_cap (wire r) = cap" "lf_content (wire r) = W" "wire_bytes (summary r) = length W"
    "lf_ok (wave r)" "lf_cap (wave r) = cap" "length (lf_content (wave r)) = 44 + length A" "audio_bytes (summary r) = length A"
    "lf_ok (events r)" "lf_cap (events r) = cap"
  using assms by (auto simp: capped.holds_def lf_append_def lf_within_def)

lemma calm_payload:
  assumes hold: "capped.holds cap Khz8 r W A" and calm: "calm_recorder r" and cap: "cap \<le> U64_MAX"
    and fits: "length W + length (wire_part kind) \<le> cap" "44 + length A + length (audio_part kind) \<le> cap"
  obtains r1 stg where "write_payload limited_outputs r kind = Some (Some (r1, stg, Inr ()))" "calm_recorder r1" "events r1 = events r"
    "event_bytes (summary r1) = event_bytes (summary r)"
proof -
  note f = holds_files [OF hold] and c = calm [unfolded calm_recorder_def]
  show ?thesis
  proof (cases kind)
    case (RWire b)
    obtain l' where "write_count limited_sink (wire r) (as_slice b) (wire_bytes (summary r)) =
        Some (Some (l', wire_bytes (summary r) + length (as_slice b), Inr ()))" "calm l'"
      by (rule calm_count [of "wire r" "as_slice b" "wire_bytes (summary r)"]) (use f c cap fits RWire in auto)
    then show ?thesis using that RWire c by (simp add: write_payload_def limited_outputs_def yields_def calm_recorder_def)
  next
    case (RAudio u rate b)
    obtain l' where "write_count limited_sink (wave r) (as_slice b) (audio_bytes (summary r)) =
        Some (Some (l', audio_bytes (summary r) + length (as_slice b), Inr ()))" "calm l'"
      by (rule calm_count [of "wave r" "as_slice b" "audio_bytes (summary r)"]) (use f c cap fits RAudio in auto)
    then show ?thesis using that RAudio c by (simp add: write_payload_def limited_outputs_def yields_def calm_recorder_def)
  qed (use that calm in \<open>simp_all add: write_payload_def yields_def\<close>)
qed

lemma calm_record:
  assumes hold: "capped.holds cap Khz8 r W A" and calm: "calm_recorder r" and cap: "cap \<le> U64_MAX"
    and valid: "validate r x = Some (Inr nxt)"
    and fits: "length W + length (wire_part (rec_kind x)) \<le> cap" "44 + length A + length (audio_part (rec_kind x)) \<le> cap"
      "event_bytes (summary r) + length (description_line d (rec_id r) x) \<le> cap"
  obtains r' where "record_one limited_outputs d r x = Some (Some (r', Inr ()))" "calm_recorder r'"
    "event_bytes (summary r') = event_bytes (summary r) + length (description_line d (rec_id r) x)"
proof -
  note f = holds_files [OF hold]
  obtain r1 stg where p: "write_payload limited_outputs r (rec_kind x) = Some (Some (r1, stg, Inr ()))" "calm_recorder r1"
    "events r1 = events r" "event_bytes (summary r1) = event_bytes (summary r)"
    by (rule calm_payload [OF hold calm cap fits(1,2)])
  have i: "rec_id r1 = rec_id r" using write_payload_frame [OF p(1)] by (simp add: same_frame_def)
  let ?t = "as_bytes (description_line d (rec_id r) x)"
  have t: "length ?t = length (description_line d (rec_id r) x)" by (simp add: as_bytes_def)
  have c1: "calm (events r1)" "event_bytes (summary r1) = length (lf_content (events r1))"
    using p(2) by (simp_all add: calm_recorder_def)
  obtain l' where w: "write_count limited_sink (events r1) ?t (event_bytes (summary r1)) =
      Some (Some (l', event_bytes (summary r1) + length ?t, Inr ()))" "calm l'" "lf_content l' = lf_content (events r1) @ ?t"
    by (rule calm_count [of "events r1" ?t "event_bytes (summary r1)"]) (use c1 f p(3,4) cap fits(3) t in auto)
  let ?r3 = "r1\<lparr>events := l', summary := (summary r1)\<lparr>event_bytes := event_bytes (summary r1) + length ?t\<rparr>\<rparr>"
  have "write_description limited_outputs d r1 x = Some (Some (?r3, Inr ()))"
    using w(1) i by (simp add: write_description_def limited_outputs_def yields_def)
  then have "record_one limited_outputs d r x = Some (Some (record_accepted ?r3 x nxt, Inr ()))"
    using valid p(1) by (simp add: record_one_def yields_def)
  moreover have "calm_recorder (record_accepted ?r3 x nxt)" "event_bytes (summary (record_accepted ?r3 x nxt)) = event_bytes (summary r) + length ?t"
    using p(2,4) w(2,3) by (auto simp: calm_recorder_def record_accepted_def Let_def split: RecordKind.split)
  ultimately show ?thesis using that t by simp
qed

lemma calm_finish:
  assumes hold: "capped.holds cap Khz8 r W A" and calm: "calm_recorder r" and cap: "cap \<le> U64_MAX" and alive: "rec_state r \<noteq> RecFailed"
  obtains r' where "finish_recording limited_outputs r = Some (Some (r', Inr ((summary r)\<lparr>patch_bytes := 44\<rparr>)))"
proof -
  note f = holds_files [OF hold] and c = calm [unfolded calm_recorder_def]
  have size: "36 + length A \<le> U32_MAX" "patch_bytes (summary r) = 0" "sample_rate r = Khz8"
    using hold by (auto simp: capped.holds_def)
  let ?h = "header_of (length A) Khz8"
  obtain b where rew: "out_rewind limited_sink (wave r) = (b, Inr ())" "calm b" using calm_rewind c by blast
  have b: "lf_content b = []" "lf_ok b" using limited.rewind_ok [OF f(5) rew(1)] limited.rewind_sound [OF f(5) rew(1)] by simp_all
  have bc: "lf_cap b = cap" using LimitedFile_rewind_cap [OF f(5)] rew(1) f(6) by (simp add: limited_sink_def)
  have "44 \<le> cap" using f(5,6,7) by (auto simp: lf_ok_def lf_content_def)
  then obtain l' where w: "write_count limited_sink b ?h 0 = Some (Some (l', 0 + length ?h, Inr ()))" "calm l'"
    using calm_count [OF rew(2) b(2), of ?h 0] b(1) bc cap by (auto simp: U64_MAX_def)
  have fl: "LimitedFile_flush (wire r) = (wire r, Inr ())" "LimitedFile_flush l' = (l', Inr ())"
    "LimitedFile_flush (events r) = (events r, Inr ())" using c w(2) by (simp_all add: calm_flush)
  have "finish_recording limited_outputs r = Some (Some (r\<lparr>wave := l', summary := (summary r)\<lparr>patch_bytes := 44\<rparr>\<rparr>,
      Inr ((summary r)\<lparr>patch_bytes := 44\<rparr>)))"
    using alive size f(8) rew(1) w(1) fl
    by (simp add: finish_recording_def finish_flushes_def wave_header_eval limited_outputs_def yields_def add.commute)
       (simp add: limited_sink_def)
  then show ?thesis by (rule that)
qed

section \<open>Sizes of the metadata\<close>

lemma length_show_nat: "n < 10 ^ Suc k \<Longrightarrow> length (show_nat n) \<le> Suc k"
proof (induction k arbitrary: n)
  case 0
  then show ?case by (simp add: show_nat.simps [of n])
next
  case (Suc k)
  show ?case
  proof (cases "n < 10")
    case True
    then show ?thesis by (simp add: show_nat.simps [of n])
  next
    case False
    have "n div 10 < 10 ^ Suc k" using Suc.prems by (simp add: less_mult_imp_div_less)
    from Suc.IH [OF this] show ?thesis using False by (simp add: show_nat.simps [of n])
  qed
qed

lemma length_show_u64: "n \<le> U64_MAX \<Longrightarrow> length (show_nat n) \<le> 20"
  using length_show_nat [of n 19] by (simp add: U64_MAX_def)

lemma length_terminal: "length (TerminalKind_debug t) \<le> 15"
  by (cases t) simp_all

definition summary_numbers :: "RecordingSummary \<Rightarrow> nat list" where
  "summary_numbers s = [wire_bytes s, audio_bytes s, event_bytes s, header_bytes s, patch_bytes s]"

lemma json_summary_length:
  assumes "conn_instance i \<le> U64_MAX" "conn_sequence i \<le> U64_MAX" "\<forall>n \<in> set (summary_numbers s). n \<le> U64_MAX"
    "rec_end s = Observed t"
  shows "length (json_summary i ''observed'' s None) \<le> 512"
proof -
  have n: "length (show_nat (conn_instance i)) \<le> 20" "length (show_nat (conn_sequence i)) \<le> 20"
    "length (show_nat (wire_bytes s)) \<le> 20" "length (show_nat (audio_bytes s)) \<le> 20" "length (show_nat (event_bytes s)) \<le> 20"
    "length (show_nat (header_bytes s)) \<le> 20" "length (show_nat (patch_bytes s)) \<le> 20" "length (show_nat 0) \<le> 20"
    using assms length_show_u64 [of 0] by (simp_all add: summary_numbers_def length_show_u64)
  show ?thesis using n length_terminal [of t] assms(4)
    by (simp add: json_summary_def json_object_def quoted_def)
qed

definition run_numbers :: "RunSummary \<Rightarrow> nat list" where
  "run_numbers w =
     [transient_accept_errors w, resource_pause_entries w, retry_quota_backoffs w, Run_Summary.accepted w, refused w, ended w,
      abandoned w, live_at_stop w, raw_bytes_read w, raw_bytes_handed_off w, undelivered_raw_bytes w,
      records_handed_off w, undelivered_records w, retained_output_bytes w, run_buffer_capacity w]"

lemma receiver_json_length:
  assumes "\<forall>n \<in> set (run_numbers w). n \<le> U64_MAX"
  shows "length (receiver_json (Some w)) \<le> 800"
proof -
  have n: "list_all (\<lambda>n. length (show_nat n) \<le> 20) (run_numbers w)"
    using assms by (simp add: list_all_iff length_show_u64)
  have "length (StopCause_debug (stopped_by w)) \<le> 26" by (cases "stopped_by w" rule: StopCause_debug.cases) simp_all
  then show ?thesis using n
    by (simp add: receiver_json_def json_object_def quoted_def bool_text_def run_numbers_def)
qed

lemma status_json_length:
  assumes "cp_reserved st \<le> U64_MAX" "cp_counts st = Counts_default" "stop_wake (ctl_info (cp_control st)) = None"
    "stop_signals (ctl_info (cp_control st)) \<le> U64_MAX" "oc_budget_used oc = 0" "oc_worker oc = Some (Inr w)"
    "\<forall>n \<in> set (run_numbers w). n \<le> U64_MAX"
  shows "length (status_json st oc) \<le> 2048"
proof -
  let ?cause = "case stop_cause_of (ctl_info (cp_control st)) of None \<Rightarrow> ''null'' | Some x \<Rightarrow> quoted (Cause_text x)"
  have "length (Cause_text x) \<le> 19" for x by (cases x) simp_all
  then have "length ?cause \<le> 21" by (auto simp: quoted_def split: option.split)
  moreover have "length (show_nat (cp_reserved st)) \<le> 20" "length (show_nat (stop_signals (ctl_info (cp_control st)))) \<le> 20"
    "length (show_nat 0) \<le> 20" using assms length_show_u64 [of 0] by (simp_all add: length_show_u64)
  moreover note receiver_json_length [OF assms(7)]
  ultimately show ?thesis using assms
    by (simp add: status_json_def Let_def json_object_def quoted_def Counts_default_def worker_summary_def)
qed

section \<open>Steps on a calm system\<close>

definition calm_env :: "capture_env \<Rightarrow> bool" where
  "calm_env env \<longleftrightarrow> (\<forall>p. ce_create_dir env p = Inr ()) \<and> (\<forall>p. ce_open env p = Inr [])"

lemma cap_opened: "lf_cap (LimitedFile_opened cap script) = cap"
  by (simp add: LimitedFile_opened_def)

lemma calm_opened: "calm (LimitedFile_opened cap [])"
  by (simp add: calm_def LimitedFile_opened_def)

lemma calm_json:
  assumes "calm_env env" "p \<notin> set (cp_names st)" "length s \<le> cap" "cap \<le> U64_MAX"
  shows "\<exists>b. write_json env st p cap s = Some (Some (st\<lparr>cp_names := p # cp_names st, cp_disk := (p, b) # cp_disk st\<rparr>, Inr ()))"
proof -
  obtain l where "write_loop limited_sink (LimitedFile_opened cap []) (as_bytes s) 0 = Some (Some (l, 0 + length (as_bytes s), Inr ()))" "calm l"
    by (rule calm_loop [OF calm_opened lf_opened_ok, of cap "as_bytes s" 0])
       (use assms(3,4) in \<open>auto simp: lf_opened_start as_bytes_def cap_opened\<close>)
  then show ?thesis using assms(1,2)
    by (intro exI [of _ "f_data (lf_file l)"])
       (simp add: write_json_def LimitedFile_create_def calm_env_def calm_flush yields_def let_go_def)
qed

lemma calm_create:
  assumes env: "calm_env env" and fresh: "\<forall>f. dir @ [f] \<notin> set (cp_names st)" and cap: "44 \<le> cap" "cap \<le> U64_MAX"
  obtains r where "create_recording env st dir i cap =
      Some (Some (st\<lparr>cp_names := [dir @ [''events.log''], dir @ [''audio.wav''], dir @ [''wire.bin'']] @ cp_names st\<rparr>, Inr r))"
    "calm_recorder r" "event_bytes (summary r) = 0" "capped.holds cap Khz8 r [] []" "at_position r i (AwaitingConnection, 0, 0)"
proof -
  let ?l = "LimitedFile_opened cap []" and ?h = "header_of 0 Khz8"
  obtain l' where w: "write_count limited_sink ?l ?h 0 = Some (Some (l', 0 + length ?h, Inr ()))" "calm l'"
    by (rule calm_count [OF calm_opened lf_opened_ok, of cap ?h 0])
       (use cap in \<open>auto simp: lf_opened_start cap_opened U64_MAX_def\<close>)
  let ?r = "\<lparr>rec_id = i, sample_rate = Khz8, wire = ?l, wave = l', events = ?l, rec_state = AwaitingConnection,
    last_event_offset = 0, summary = RecordingSummary_default\<lparr>header_bytes := 44\<rparr>\<rparr>"
  have new: "with_sample_rate limited_outputs i Khz8 ?l ?l ?l = Some (Some (?r, Inr ()))"
    using w(1) by (simp add: with_sample_rate_def Let_def wave_header_eval U32_MAX_def limited_outputs_def RecordingSummary_default_def yields_def)
  have hold: "capped.holds cap Khz8 ?r [] []"
    using capped.with_sample_rate_holds [of cap ?l ?l ?l i Khz8] new by (auto simp: lf_append_def lf_opened_start)
  have "create_recording env st dir i cap =
      Some (Some (st\<lparr>cp_names := [dir @ [''events.log''], dir @ [''audio.wav''], dir @ [''wire.bin'']] @ cp_names st\<rparr>, Inr ?r))"
    using env fresh new by (simp add: create_recording_def LimitedFile_create_def calm_env_def Recording_new_def yields_def)
  moreover have "calm_recorder ?r" using w(2) by (simp add: calm_recorder_def calm_opened lf_opened_start RecordingSummary_default_def)
  ultimately show ?thesis using that [of ?r] hold capped.new_position [OF new hold] by (simp add: RecordingSummary_default_def)
qed

section \<open>Calls\<close>

abbreviation position_of :: "ConnectionId \<Rightarrow> Record list \<Rightarrow> stream_pos option" where
  "position_of i xs \<equiv> stream_run i (accepts PCM_8_KHZ) (AwaitingConnection, 0, 0) (of_connection i xs)"

definition event_text :: "capture_env \<Rightarrow> ConnectionId \<Rightarrow> Record list \<Rightarrow> nat" where
  "event_text env i xs = sum_list (map (\<lambda>x. length (description_line (ce_debug env) i x)) (of_connection i xs))"

text \<open>A connection's records follow the protocol so far and fit the files.\<close>

definition call_fits :: "capture_env \<Rightarrow> Config \<Rightarrow> Record list \<Rightarrow> ConnectionId \<Rightarrow> bool" where
  "call_fits env c xs i \<longleftrightarrow>
     position_of i xs \<noteq> None \<and> length (wires i xs) \<le> cfg_file c \<and> 44 + length (audios i xs) \<le> cfg_file c \<and>
     event_text env i xs \<le> cfg_file c \<and> length (audios i xs) + 36 \<le> U32_MAX"

fun clean_end :: "RecordKind \<Rightarrow> bool" where
  "clean_end (REnded u reason) \<longleftrightarrow> reason = CleanEof \<or> reason = EndTerminate"
| "clean_end k \<longleftrightarrow> True"

lemma call_fits_prefix: "call_fits env c (xs @ ys) i \<Longrightarrow> call_fits env c xs i"
  by (auto simp: call_fits_def wires_def audios_def event_text_def of_connection_def stream_run_append split: option.splits)

lemma phase_step_not_first: "phase_step ok st k = Some st' \<Longrightarrow> st' \<noteq> AwaitingConnection"
  by (cases "(ok, st, k)" rule: phase_step.cases) (auto split: if_splits)

lemma stream_step_phase:
  "stream_step i ok (st, lo, got) x = Some (st', lo', got') \<Longrightarrow> connection x = i \<and> phase_step ok st (rec_kind x) = Some st'"
  by (auto simp: stream_step.simps Let_def split: if_splits option.splits)

lemma position_first: "stream_run i ok (AwaitingConnection, 0, 0) ys = Some (AwaitingConnection, lo, got) \<Longrightarrow> ys = []"
proof (cases ys rule: rev_cases)
  case (snoc zs y)
  assume "stream_run i ok (AwaitingConnection, 0, 0) ys = Some (AwaitingConnection, lo, got)"
  then obtain p where "stream_step i ok p y = Some (AwaitingConnection, lo, got)" using snoc
    by (auto simp: stream_run_append split: option.splits)
  then show ?thesis using stream_step_phase phase_step_not_first by (cases p) blast
qed

lemma of_connection_snoc: "of_connection i (xs @ [x]) = of_connection i xs @ (if connection x = i then [x] else [])"
  by (simp add: of_connection_def)

text \<open>The position before the record that comes next.\<close>

lemma next_position:
  assumes "call_fits env c (xs @ [x]) (connection x)"
  obtains st lo got pos' where "position_of (connection x) xs = Some (st, lo, got)"
    "stream_step (connection x) (accepts PCM_8_KHZ) (st, lo, got) x = Some pos'"
    "position_of (connection x) (xs @ [x]) = Some pos'" "phase_step (accepts PCM_8_KHZ) st (rec_kind x) = Some (fst pos')"
proof -
  from assms obtain pos' where full: "position_of (connection x) (xs @ [x]) = Some pos'" by (auto simp: call_fits_def)
  then obtain pos where pos: "position_of (connection x) xs = Some pos"
    "stream_step (connection x) (accepts PCM_8_KHZ) pos x = Some pos'"
    by (auto simp: of_connection_snoc stream_run_append split: option.splits)
  obtain st lo got st' lo' got' where eq: "pos = (st, lo, got)" "pos' = (st', lo', got')" by (metis prod_cases3)
  have "phase_step (accepts PCM_8_KHZ) st (rec_kind x) = Some st'" using pos(2) eq stream_step_phase by blast
  with that pos full eq show ?thesis by simp
qed

section \<open>The invariant of a run without failures\<close>

definition seen :: "Record list \<Rightarrow> ConnectionId set" where
  "seen xs = connection ` set xs"

definition names_of :: "Config \<Rightarrow> Record list \<Rightarrow> path list \<Rightarrow> bool" where
  "names_of c xs ns \<longleftrightarrow> (\<forall>p \<in> set ns. length p \<le> 1 \<or> (\<exists>i \<in> seen xs. take 2 p = connection_dir c i))"

definition calm_entry :: "capture_env \<Rightarrow> Config \<Rightarrow> Record list \<Rightarrow> capture \<Rightarrow> ConnectionId \<Rightarrow> bool" where
  "calm_entry env c xs st i \<longleftrightarrow>
     (case btree_get (cp_map st) i of
        None \<Rightarrow> i \<in> seen xs \<longrightarrow> (\<exists>lo got. position_of i xs = Some (RecEnded, lo, got))
      | Some (CFailed receipt dir) \<Rightarrow> False
      | Some (CActive r dir) \<Rightarrow>
          i \<in> seen xs \<and> calm_recorder r \<and> event_bytes (summary r) = event_text env i xs \<and>
          (\<exists>pos. position_of i xs = Some pos \<and> at_position r i pos \<and> fst pos \<noteq> RecEnded) \<and>
          connection_dir c i @ [''summary.json''] \<notin> set (cp_names st))"

definition calm_inv :: "capture_env \<Rightarrow> Config \<Rightarrow> Signals \<Rightarrow> Record list \<Rightarrow> capture \<Rightarrow> bool" where
  "calm_inv env c s xs st \<longleftrightarrow>
     cap_inv c xs st \<and> \<not> cp_bad st \<and> cp_counts st = Counts_default \<and> cp_control st = Control_new s \<and>
     cp_reserved st = card (seen xs) \<and> names_of c xs (cp_names st) \<and> (\<forall>i. calm_entry env c xs st i)"

lemma seen_snoc: "seen (xs @ [x]) = insert (connection x) (seen xs)"
  by (simp add: seen_def)

lemma seen_iff: "i \<in> seen xs \<longleftrightarrow> of_connection i xs \<noteq> []"
  by (auto simp: seen_def of_connection_def filter_empty_conv)

lemma finite_seen [simp]: "finite (seen xs)"
  by (simp add: seen_def)

lemma connection_dir_length [simp]: "length (connection_dir c i) = 2" "take 2 (connection_dir c i @ p) = connection_dir c i"
  by (simp_all add: connection_dir_def)

lemma names_fresh:
  assumes "names_of c xs ns" "i \<notin> seen xs" "take 2 p = connection_dir c i"
  shows "p \<notin> set ns"
proof
  assume "p \<in> set ns"
  moreover have "\<not> length p \<le> 1" using arg_cong [OF assms(3), of length] by simp
  ultimately obtain j where "j \<in> seen xs" "take 2 p = connection_dir c j" using assms(1) by (auto simp: names_of_def)
  then show False using assms(2,3) by (simp add: connection_dir_inj)
qed

lemma names_of_extend:
  "names_of c xs ns \<Longrightarrow> \<forall>p \<in> set ps. take 2 p = connection_dir c (connection x) \<Longrightarrow> names_of c (xs @ [x]) (ps @ ns)"
  by (auto simp: names_of_def seen_snoc)

lemma calm_inv_good: "calm_inv env c s xs st \<Longrightarrow> good st"
  by (simp add: calm_inv_def good_def Counts_default_def)

lemma calm_map_size:
  assumes "calm_inv env c s xs st"
  shows "length (cp_map st) \<le> card (seen xs)"
proof -
  have ok: "btree_ok (cp_map st)" using assms by (simp add: calm_inv_def cap_inv_def room_def)
  have "fst ` set (cp_map st) \<subseteq> seen xs"
  proof
    fix i assume "i \<in> fst ` set (cp_map st)"
    then have "btree_get (cp_map st) i \<noteq> None" by (simp add: btree_get_None_iff)
    then obtain e where "btree_get (cp_map st) i = Some e" by blast
    moreover have "calm_entry env c xs st i" using assms by (simp add: calm_inv_def)
    ultimately show "i \<in> seen xs" by (cases e) (simp_all add: calm_entry_def)
  qed
  then have "card (fst ` set (cp_map st)) \<le> card (seen xs)" by (rule card_mono [OF finite_seen])
  then show ?thesis by (simp add: card_btree_keys [OF ok])
qed

text \<open>An entry that a step does not touch.\<close>

lemma calm_entry_extend:
  assumes "calm_entry env c xs st j" "j \<noteq> connection x" "btree_get (cp_map st') j = btree_get (cp_map st) j"
    "set (cp_names st') \<subseteq> set ps \<union> set (cp_names st)" "\<forall>p \<in> set ps. take 2 p = connection_dir c (connection x)"
  shows "calm_entry env c (xs @ [x]) st' j"
proof -
  have same: "of_connection j (xs @ [x]) = of_connection j xs" "j \<in> seen (xs @ [x]) \<longleftrightarrow> j \<in> seen xs"
    "event_text env j (xs @ [x]) = event_text env j xs"
    using assms(2) by (auto simp: of_connection_snoc seen_snoc event_text_def)
  have "connection_dir c j @ [''summary.json''] \<notin> set ps"
  proof
    assume "connection_dir c j @ [''summary.json''] \<in> set ps"
    then have "connection_dir c j = connection_dir c (connection x)" using assms(5) by fastforce
    then show False using assms(2) by (simp add: connection_dir_inj)
  qed
  then show ?thesis using assms(1,3,4) unfolding calm_entry_def same
    by (auto split: option.splits CaptureEntry.splits)
qed

lemma steps_toD: "steps_to (Some (Some st)) P \<Longrightarrow> P st"
  by (simp add: steps_to_def)

text \<open>The next record of a call is accepted.\<close>

lemma calm_accepts:
  assumes fits: "call_fits env c (xs @ [x]) (connection x)" and cap: "cfg_file c \<le> U64_MAX"
    and hold: "capped.holds (cfg_file c) Khz8 r (wires (connection x) xs) (audios (connection x) xs)"
    and calm: "calm_recorder r" "event_bytes (summary r) = event_text env (connection x) xs"
    and at: "at_position r (connection x) pos" "stream_step (connection x) (accepts PCM_8_KHZ) pos x = Some pos'"
  obtains r' where "record_one limited_outputs (ce_debug env) r x = Some (Some (r', Inr ()))" "calm_recorder r'"
    "event_bytes (summary r') = event_text env (connection x) (xs @ [x])" "at_position r' (connection x) pos'"
    "capped.holds (cfg_file c) Khz8 r' (wires (connection x) (xs @ [x])) (audios (connection x) (xs @ [x]))"
    "rec_state r' \<noteq> RecFailed"
proof -
  let ?i = "connection x"
  have ids: "rec_id r = ?i" using at(1) by (simp add: at_position_def)
  have sizes: "length (wires ?i xs) + length (wire_part (rec_kind x)) \<le> cfg_file c"
    "44 + length (audios ?i xs) + length (audio_part (rec_kind x)) \<le> cfg_file c"
    "length (audios ?i xs) + length (audio_part (rec_kind x)) + 36 \<le> U32_MAX"
    "event_text env ?i xs + length (description_line (ce_debug env) ?i x) \<le> cfg_file c"
    using fits by (simp_all add: call_fits_def wires_snoc audios_snoc event_text_def of_connection_snoc)
  have audio: "audio_bytes (summary r) = length (audios ?i xs)" by (rule holds_files(8) [OF hold])
  obtain st' lo' got' where pos': "pos' = (st', lo', got')" by (cases pos')
  have valid: "validate r x = Some (Inr (fst pos'))"
    using validate_protocol [OF at(1) at(2) [unfolded pos']] sizes(3) audio pos' by auto
  obtain r' where r': "record_one limited_outputs (ce_debug env) r x = Some (Some (r', Inr ()))" "calm_recorder r'"
    "event_bytes (summary r') = event_bytes (summary r) + length (description_line (ce_debug env) (rec_id r) x)"
    by (rule calm_record [OF hold calm(1) cap valid sizes(1,2), of "ce_debug env"]) (use sizes(4) calm(2) ids in auto)
  have hold': "capped.holds (cfg_file c) Khz8 r' (wires ?i (xs @ [x])) (audios ?i (xs @ [x]))" "rec_state r' \<noteq> RecFailed"
    using record_step [OF hold, of "ce_debug env" x] r'(1) by (auto simp: wires_snoc audios_snoc)
  have "at_position r' ?i pos'"
    by (rule capped.accepted_position [OF at(1) at(2) r'(1) hold _ valid, where A' = "audios ?i (xs @ [x])"])
       (use hold'(1) in \<open>simp add: wires_snoc\<close>)
  then show ?thesis using that r' hold' calm(2) ids by (simp add: event_text_def of_connection_snoc)
qed

lemma calm_connected:
  assumes env: "calm_env env" and inv: "calm_inv env c s xs st" and x: "is_connected (rec_kind x)"
    and fits: "call_fits env c (xs @ [x]) (connection x)" and cap: "cfg_file c \<le> U64_MAX" "cfg_run c \<le> U64_MAX"
    and calls: "card (seen (xs @ [x])) \<le> cfg_run c" "card (seen (xs @ [x])) \<le> cfg_active c"
  obtains st' where "handle_record env c wr st x = Some (Some st')" "calm_inv env c s (xs @ [x]) st'"
proof -
  let ?i = "connection x" and ?dir = "connection_dir c (connection x)"
  obtain stt lo got pos' where pos: "position_of ?i xs = Some (stt, lo, got)"
    "stream_step ?i (accepts PCM_8_KHZ) (stt, lo, got) x = Some pos'" "position_of ?i (xs @ [x]) = Some pos'"
    "phase_step (accepts PCM_8_KHZ) stt (rec_kind x) = Some (fst pos')" by (rule next_position [OF fits])
  have "stt = AwaitingConnection" using phase_step_uuid(3) [OF pos(4)] x by simp
  then have new: "of_connection ?i xs = []" using pos(1) position_first by blast
  then have i: "?i \<notin> seen xs" and start: "(stt, lo, got) = (AwaitingConnection, 0, 0)" using pos(1) by (simp_all add: seen_iff)
  have free: "btree_get (cp_map st) ?i = None"
  proof (cases "btree_get (cp_map st) ?i")
    case (Some e)
    have "calm_entry env c xs st ?i" using inv by (simp add: calm_inv_def)
    then show ?thesis using Some i by (cases e) (simp_all add: calm_entry_def)
  qed
  have more: "card (seen (xs @ [x])) = Suc (card (seen xs))" using i by (simp add: seen_snoc)
  have admitted: "\<not> (cp_reserved st = cfg_run c \<or> length (cp_map st) \<ge> cfg_active c)"
    using inv calm_map_size [OF inv] calls more by (simp add: calm_inv_def)
  have names: "names_of c xs (cp_names st)" using inv by (simp add: calm_inv_def)
  let ?st1 = "st\<lparr>cp_reserved := saturating_add U64_MAX (cp_reserved st) 1\<rparr>"
  let ?st2 = "?st1\<lparr>cp_names := ?dir # cp_names st\<rparr>"
  have dir: "?dir \<notin> set (cp_names st)" "\<forall>f. ?dir @ [f] \<notin> set (cp_names ?st2)"
    using names_fresh [OF names i, of ?dir] names_fresh [OF names i, of "?dir @ [f]" for f] by auto
  have file44: "44 \<le> cfg_file c" using fits by (simp add: call_fits_def)
  obtain r where r: "create_recording env ?st2 ?dir ?i (cfg_file c) =
      Some (Some (?st2\<lparr>cp_names := [?dir @ [''events.log''], ?dir @ [''audio.wav''], ?dir @ [''wire.bin'']] @ cp_names ?st2\<rparr>, Inr r))"
    "calm_recorder r" "event_bytes (summary r) = 0" "capped.holds (cfg_file c) Khz8 r [] []" "at_position r ?i (AwaitingConnection, 0, 0)"
    by (rule calm_create [OF env dir(2) file44 cap(1), of ?i])
  let ?ps = "[?dir @ [''events.log''], ?dir @ [''audio.wav''], ?dir @ [''wire.bin''], ?dir]"
  let ?st3 = "?st1\<lparr>cp_names := ?ps @ cp_names st\<rparr>"
  have empty: "wires ?i xs = []" "audios ?i xs = []" "event_text env ?i xs = 0"
    using new by (simp_all add: wires_def audios_def event_text_def)
  obtain r' where r': "record_one limited_outputs (ce_debug env) r x = Some (Some (r', Inr ()))" "calm_recorder r'"
    "event_bytes (summary r') = event_text env ?i (xs @ [x])" "at_position r' ?i pos'"
    by (rule calm_accepts [OF fits cap(1), where r = r and pos = "(AwaitingConnection, 0, 0)" and pos' = pos'])
       (use r empty pos(2) start in auto)
  let ?st = "?st3\<lparr>cp_map := btree_insert (cp_map st) ?i (CActive r' ?dir)\<rparr>"
  have "create_dir env ?st1 ?dir = (?st2, Inr ())" using env dir(1) by (simp add: create_dir_def calm_env_def)
  then have eval: "handle_record env c wr st x = Some (Some ?st)"
    using x inv admitted r(1) r'(1) free
    by (simp add: handle_record_def handle_connected_def Let_def calm_inv_def Control_new_def put_entry_def yields_def)
  moreover have "cap_inv c (xs @ [x]) ?st"
    using handle_record_inv [of c xs st env wr x] inv cap(2) eval by (simp add: calm_inv_def steps_to_def)
  moreover have "fst pos' \<noteq> RecEnded" using phase_step_ended [OF pos(4)] x by (cases "rec_kind x") (simp_all add: is_ended_def)
  then have own: "calm_entry env c (xs @ [x]) ?st ?i"
    using r' pos(3) dir by (cases pos') (auto simp: calm_entry_def btree_get_insert seen_snoc)
  have other: "calm_entry env c (xs @ [x]) ?st j" if "j \<noteq> ?i" for j
    by (rule calm_entry_extend [where st = st and ps = ?ps]) (use inv that in \<open>auto simp: calm_inv_def btree_get_insert\<close>)
  have "\<forall>j. calm_entry env c (xs @ [x]) ?st j" using own other by metis
  moreover have "names_of c (xs @ [x]) (?ps @ cp_names st)" by (rule names_of_extend [OF names]) auto
  moreover have "cp_reserved ?st = card (seen (xs @ [x]))"
    using inv calls(1) cap(2) more by (simp add: calm_inv_def saturating_add_def)
  ultimately have "calm_inv env c s (xs @ [x]) ?st" using inv by (simp add: calm_inv_def)
  with eval show ?thesis by (rule that)
qed

lemma calm_active:
  assumes inv: "calm_inv env c s xs st" and x: "\<not> is_connected (rec_kind x)" and fits: "call_fits env c (xs @ [x]) (connection x)"
  obtains r pos pos' where "btree_get (cp_map st) (connection x) = Some (CActive r (connection_dir c (connection x)))"
    "calm_recorder r" "event_bytes (summary r) = event_text env (connection x) xs" "at_position r (connection x) pos"
    "stream_step (connection x) (accepts PCM_8_KHZ) pos x = Some pos'" "position_of (connection x) (xs @ [x]) = Some pos'"
    "is_ended (rec_kind x) \<longleftrightarrow> fst pos' = RecEnded"
    "capped.holds (cfg_file c) Khz8 r (wires (connection x) xs) (audios (connection x) xs)"
    "connection_dir c (connection x) @ [''summary.json''] \<notin> set (cp_names st)" "connection x \<in> seen xs"
proof -
  let ?i = "connection x"
  obtain stt lo got pos' where pos: "position_of ?i xs = Some (stt, lo, got)"
    "stream_step ?i (accepts PCM_8_KHZ) (stt, lo, got) x = Some pos'" "position_of ?i (xs @ [x]) = Some pos'"
    "phase_step (accepts PCM_8_KHZ) stt (rec_kind x) = Some (fst pos')" by (rule next_position [OF fits])
  have st: "stt \<noteq> AwaitingConnection" "stt \<noteq> RecEnded" using phase_step_uuid [OF pos(4)] x by simp_all
  then have i: "?i \<in> seen xs" using pos(1) by (auto simp: seen_iff)
  have entry: "calm_entry env c xs st ?i" and tr: "tracked c xs st ?i"
    using inv calm_inv_good [OF inv] by (simp_all add: calm_inv_def cap_inv_def)
  show ?thesis
  proof (cases "btree_get (cp_map st) ?i")
    case None
    then show ?thesis using entry i st(2) pos(1) by (simp add: calm_entry_def)
  next
    case (Some e)
    then obtain r dir where e: "e = CActive r dir" using entry by (cases e) (simp_all add: calm_entry_def)
    show ?thesis
      by (rule that [of r "(stt, lo, got)" pos'])
         (use Some e entry tr pos i phase_step_ended [OF pos(4)] in \<open>auto simp: calm_entry_def tracked_def\<close>)
  qed
qed

lemma calm_end:
  assumes env: "calm_env env" and cap: "cfg_file c \<le> U64_MAX" "512 \<le> cfg_summary c" "cfg_summary c \<le> U64_MAX"
    and hold: "capped.holds (cfg_file c) Khz8 r W A" "rec_state r \<noteq> RecFailed" "calm_recorder r"
    and i: "conn_instance i \<le> U64_MAX" "conn_sequence i \<le> U64_MAX"
    and fin: "rec_end (summary r) = Observed t" "t = TkCleanEof \<or> t = TkTerminate"
    and fresh: "dir @ [''summary.json''] \<notin> set (cp_names st)"
  obtains d where "handle_end env c wr st i r dir =
    Some (Some (st\<lparr>cp_map := btree_remove (cp_map st) i, cp_names := (dir @ [''summary.json'']) # cp_names st, cp_disk := d @ cp_disk st\<rparr>))"
proof -
  let ?z = "(summary r)\<lparr>patch_bytes := 44\<rparr>"
  obtain r' where f: "finish_recording limited_outputs r = Some (Some (r', Inr ?z))" by (rule calm_finish [OF hold(1,3) cap(1) hold(2)])
  have le: "length (lf_content l) \<le> cfg_file c" if "lf_ok l" "lf_cap l = cfg_file c" for l
    using that by (auto simp: lf_ok_def lf_content_def)
  have "event_bytes (summary r) \<le> U64_MAX" "wire_bytes (summary r) \<le> U64_MAX" "audio_bytes (summary r) \<le> U64_MAX"
    using le [OF holds_files(9,10) [OF hold(1)]] le [OF holds_files(1,2) [OF hold(1)]] le [OF holds_files(5,6) [OF hold(1)]]
      holds_files [OF hold(1)] hold(3) cap(1) by (auto simp: calm_recorder_def)
  then have "\<forall>n \<in> set (summary_numbers ?z). n \<le> U64_MAX"
    using hold(3) by (simp add: summary_numbers_def calm_recorder_def U64_MAX_def)
  then have len: "length (json_summary i ''observed'' ?z None) \<le> cfg_summary c"
    using json_summary_length [OF i, of ?z t] fin(1) cap(2) by simp
  let ?st = "let_go (st\<lparr>cp_map := btree_remove (cp_map st) i\<rparr>) (recorder_files r' dir)"
  obtain b where "write_summary env ?st dir (cfg_summary c) i ''observed'' ?z None =
      Some (Some (?st\<lparr>cp_names := (dir @ [''summary.json'']) # cp_names ?st, cp_disk := (dir @ [''summary.json''], b) # cp_disk ?st\<rparr>, Inr ()))"
    using calm_json [OF env _ len cap(3), of "dir @ [''summary.json'']" ?st] fresh by (auto simp: write_summary_def let_go_eq)
  moreover have "successful_terminal (rec_end ?z)" using fin by (auto simp: successful_terminal_def)
  ultimately show ?thesis using f
    by (intro that [of "(dir @ [''summary.json''], b) # file_bytes (recorder_files r' dir)"])
       (simp add: handle_end_def Let_def yields_def let_go_eq)
qed

text \<open>The limits a run needs: room for a summary and a status, and counters inside their types.\<close>

definition limits_suffice :: "Config \<Rightarrow> bool" where
  "limits_suffice c \<longleftrightarrow>
     cfg_file c \<le> U64_MAX \<and> cfg_run c \<le> U64_MAX \<and> 512 \<le> cfg_summary c \<and> cfg_summary c \<le> U64_MAX \<and>
     2048 \<le> cfg_status c \<and> cfg_status c \<le> U64_MAX"

lemma calm_other:
  assumes env: "calm_env env" and inv: "calm_inv env c s xs st" and x: "\<not> is_connected (rec_kind x)"
    and fits: "call_fits env c (xs @ [x]) (connection x)" and lim: "limits_suffice c"
    and i: "conn_instance (connection x) \<le> U64_MAX" "conn_sequence (connection x) \<le> U64_MAX" and clean: "clean_end (rec_kind x)"
  obtains st' where "handle_record env c wr st x = Some (Some st')" "calm_inv env c s (xs @ [x]) st'"
proof -
  let ?i = "connection x" and ?dir = "connection_dir c (connection x)"
  have file_cap: "cfg_file c \<le> U64_MAX" using lim by (simp add: limits_suffice_def)
  obtain r pos pos' where a: "btree_get (cp_map st) ?i = Some (CActive r ?dir)" "calm_recorder r"
    "event_bytes (summary r) = event_text env ?i xs" "at_position r ?i pos"
    "stream_step ?i (accepts PCM_8_KHZ) pos x = Some pos'" "position_of ?i (xs @ [x]) = Some pos'"
    "is_ended (rec_kind x) \<longleftrightarrow> fst pos' = RecEnded" "capped.holds (cfg_file c) Khz8 r (wires ?i xs) (audios ?i xs)"
    "?dir @ [''summary.json''] \<notin> set (cp_names st)" "?i \<in> seen xs" by (rule calm_active [OF inv x fits])
  obtain r' where r': "record_one limited_outputs (ce_debug env) r x = Some (Some (r', Inr ()))" "calm_recorder r'"
    "event_bytes (summary r') = event_text env ?i (xs @ [x])" "at_position r' ?i pos'"
    "capped.holds (cfg_file c) Khz8 r' (wires ?i (xs @ [x])) (audios ?i (xs @ [x]))" "rec_state r' \<noteq> RecFailed"
    by (rule calm_accepts [OF fits file_cap a(8) a(2,3,4,5)])
  have ok: "btree_ok (cp_map st)" and names: "names_of c xs (cp_names st)" using inv by (simp_all add: calm_inv_def cap_inv_def room_def)
  have cards: "card (seen (xs @ [x])) = card (seen xs)" using a(10) by (simp add: seen_snoc insert_absorb)
  have other: "calm_entry env c (xs @ [x]) st' j"
    if "j \<noteq> ?i" "btree_get (cp_map st') j = btree_get (cp_map st) j"
      "set (cp_names st') \<subseteq> {?dir @ [''summary.json'']} \<union> set (cp_names st)" for st' j
    by (rule calm_entry_extend [where st = st and ps = "[?dir @ [''summary.json'']]"]) (use inv that in \<open>simp_all add: calm_inv_def\<close>)
  have step: "cap_inv c (xs @ [x]) st'" if "handle_record env c wr st x = Some (Some st')" for st'
    using handle_record_inv [of c xs st env wr x] inv lim that by (simp add: calm_inv_def steps_to_def limits_suffice_def)
  note rest = inv [unfolded calm_inv_def] cards
  show ?thesis
  proof (cases "is_ended (rec_kind x)")
    case True
    then obtain u reason where k: "rec_kind x = REnded u reason" by (cases "rec_kind x") (simp_all add: is_ended_def)
    have t: "rec_end (summary r') = Observed (TerminalKind_from reason)" by (rule record_one_state(2) [OF r'(1) k])
    obtain d where e: "handle_end env c wr st ?i r' ?dir = Some (Some (st\<lparr>cp_map := btree_remove (cp_map st) ?i,
        cp_names := (?dir @ [''summary.json'']) # cp_names st, cp_disk := d @ cp_disk st\<rparr>))" (is "_ = Some (Some ?st)")
      by (rule calm_end [OF env file_cap _ _ r'(5,6,2) i t _ a(9), of wr]) (use lim clean k in \<open>auto simp: limits_suffice_def\<close>)
    have eval: "handle_record env c wr st x = Some (Some ?st)"
      using x a(1) r'(1) True e by (simp add: handle_record_def handle_other_def Let_def)
    have "calm_entry env c (xs @ [x]) ?st j" for j
    proof (cases "j = ?i")
      case own: True
      show ?thesis using own ok a(6,7) True by (cases pos') (simp add: calm_entry_def btree_get_remove)
    qed (auto intro!: other simp: btree_get_remove ok)
    moreover have "names_of c (xs @ [x]) (cp_names ?st)"
      using names_of_extend [OF names, of "[?dir @ [''summary.json'']]" x] by simp
    ultimately have "calm_inv env c s (xs @ [x]) ?st" using step [OF eval] rest by (simp add: calm_inv_def)
    with eval show ?thesis by (rule that)
  next
    case False
    let ?st = "st\<lparr>cp_map := btree_insert (cp_map st) ?i (CActive r' ?dir)\<rparr>"
    have eval: "handle_record env c wr st x = Some (Some ?st)"
      using x a(1) r'(1) False by (simp add: handle_record_def handle_other_def Let_def yields_def)
    have "calm_entry env c (xs @ [x]) ?st j" for j
    proof (cases "j = ?i")
      case own: True
      show ?thesis using own a(6,7,9,10) r' False by (cases pos') (simp add: calm_entry_def btree_get_insert seen_snoc)
    qed (auto intro!: other simp: btree_get_insert)
    moreover have "names_of c (xs @ [x]) (cp_names ?st)" using names_of_extend [OF names, of "[]" x] by simp
    ultimately have "calm_inv env c s (xs @ [x]) ?st" using step [OF eval] rest by (simp add: calm_inv_def)
    with eval show ?thesis by (rule that)
  qed
qed

section \<open>Whole runs\<close>

definition calls_fit :: "capture_env \<Rightarrow> Config \<Rightarrow> Record list \<Rightarrow> bool" where
  "calls_fit env c xs \<longleftrightarrow>
     card (seen xs) \<le> cfg_run c \<and> card (seen xs) \<le> cfg_active c \<and>
     (\<forall>x \<in> set xs. call_fits env c xs (connection x) \<and> clean_end (rec_kind x) \<and>
        conn_instance (connection x) \<le> U64_MAX \<and> conn_sequence (connection x) \<le> U64_MAX)"

lemma calm_run:
  assumes env: "calm_env env" and lim: "limits_suffice c"
  shows "calm_inv env c s xs st \<Longrightarrow> calls_fit env c (xs @ map fst ys) \<Longrightarrow>
    \<exists>st'. capture_loop env c st (map (\<lambda>(x, wr). Received x wr) ys @ evs) = capture_loop env c st' evs \<and>
      calm_inv env c s (xs @ map fst ys) st'"
proof (induction ys arbitrary: xs st)
  case (Cons y ys)
  obtain x wr where y: "y = (x, wr)" by fastforce
  have sub: "seen (xs @ [x]) \<subseteq> seen (xs @ x # map fst ys)" by (auto simp: seen_def)
  have x: "call_fits env c (xs @ [x]) (connection x)" "clean_end (rec_kind x)"
    "conn_instance (connection x) \<le> U64_MAX" "conn_sequence (connection x) \<le> U64_MAX"
    "card (seen (xs @ [x])) \<le> cfg_run c" "card (seen (xs @ [x])) \<le> cfg_active c"
    using Cons.prems(2) y call_fits_prefix [of env c "xs @ [x]" "map fst ys" "connection x"] card_mono [OF finite_seen sub]
    by (auto simp: calls_fit_def)
  have "\<exists>st'. handle_record env c wr st x = Some (Some st') \<and> calm_inv env c s (xs @ [x]) st'"
  proof (cases "is_connected (rec_kind x)")
    case True
    show ?thesis
      by (rule calm_connected [OF env Cons.prems(1) True x(1) _ _ x(5,6), of wr]) (use lim in \<open>auto simp: limits_suffice_def\<close>)
  next
    case False
    show ?thesis by (rule calm_other [OF env Cons.prems(1) False x(1) lim x(3,4,2), of wr]) blast
  qed
  then obtain st' where st': "handle_record env c wr st x = Some (Some st')" "calm_inv env c s (xs @ [x]) st'" by blast
  then show ?case using Cons.IH [OF st'(2)] Cons.prems(2) y by simp
qed auto

text \<open>Signals that find the run still unstopped and whose wake succeeds.\<close>

lemma calm_signals:
  assumes "stop_wake (ctl_info (cp_control st)) = None" "stop_signals (ctl_info (cp_control st)) \<le> U64_MAX"
  shows "\<exists>ctl. capture_loop env c st (replicate n (SignalArrived (Inr ()))) = Some (Some (st\<lparr>cp_control := ctl\<rparr>)) \<and>
    stop_wake (ctl_info ctl) = None \<and> stop_signals (ctl_info ctl) \<le> U64_MAX"
  using assms
proof (induction n arbitrary: st)
  case 0
  then show ?case by (auto simp: yields_def intro!: exI [of _ "cp_control st"])
next
  case (Suc n)
  let ?ctl = "Control_signal (ce_kind_text env) (Inr ()) (cp_control st)"
  have "stop_wake (ctl_info ?ctl) = None" "stop_signals (ctl_info ?ctl) \<le> U64_MAX"
    using Suc.prems
    by (simp_all add: Control_signal_def Control_request_def claim_stop_def StopHandle_stop_def signal_request_def
        signal_notify_def saturating_add_def Let_def)
  then show ?case using Suc.IH [of "st\<lparr>cp_control := ?ctl\<rparr>"] by simp
qed

lemma calm_start: "\<forall>p \<in> set names. length p \<le> 1 \<Longrightarrow> calm_inv env c s [] (capture_new s names)"
  using capture_new_inv [of c s names]
  by (simp add: calm_inv_def capture_new_def names_of_def calm_entry_def seen_def)

lemma calm_all_ended:
  assumes inv: "calm_inv env c s xs st" and ended: "\<forall>x \<in> set xs. \<exists>lo got. position_of (connection x) xs = Some (RecEnded, lo, got)"
  shows "cp_map st = []"
proof (rule ccontr)
  assume "cp_map st \<noteq> []"
  then obtain i e where "(i, e) \<in> set (cp_map st)" by (cases "cp_map st") auto
  moreover have "btree_ok (cp_map st)" using inv by (simp add: calm_inv_def cap_inv_def room_def)
  ultimately have "btree_get (cp_map st) i = Some e" by (simp add: btree_get_Some_iff)
  moreover have "calm_entry env c xs st i" using inv by (simp add: calm_inv_def)
  ultimately obtain pos where "i \<in> seen xs" "position_of i xs = Some pos" "fst pos \<noteq> RecEnded"
    by (cases e) (auto simp: calm_entry_def)
  moreover from this obtain x where "x \<in> set xs" "connection x = i" by (auto simp: seen_def)
  then obtain lo got where "position_of i xs = Some (RecEnded, lo, got)" using ended by blast
  ultimately show False by auto
qed

lemma calm_capture_succeeds:
  assumes env: "calm_env env" and lim: "limits_suffice c" and fit: "calls_fit env c (map fst ys)"
    and ended: "\<forall>x \<in> set (map fst ys). \<exists>lo got. position_of (connection x) (map fst ys) = Some (RecEnded, lo, got)"
    and names: "\<forall>p \<in> set names. length p \<le> 1"
    and outcome: "outcome_clean oc" "oc_worker oc = Some (Inr w)" "\<forall>n \<in> set (run_numbers w). n \<le> U64_MAX"
  shows "\<exists>st. capture_run env c s names (map (\<lambda>(x, wr). Received x wr) ys @ replicate n (SignalArrived (Inr ()))) oc =
    Some (Some (st, Inr ()))"
proof -
  let ?xs = "map fst ys"
  obtain st1 where st1: "capture_loop env c (capture_new s names)
      (map (\<lambda>(x, wr). Received x wr) ys @ replicate n (SignalArrived (Inr ()))) =
      capture_loop env c st1 (replicate n (SignalArrived (Inr ())))" "calm_inv env c s ?xs st1"
    using calm_run [OF env lim calm_start [OF names, of env c s], of ys "replicate n (SignalArrived (Inr ()))"] fit by auto
  have "stop_wake (ctl_info (cp_control st1)) = None" "stop_signals (ctl_info (cp_control st1)) \<le> U64_MAX"
    using st1(2) by (simp_all add: calm_inv_def Control_new_def StopInfo_default_def)
  then obtain ctl where ctl: "capture_loop env c st1 (replicate n (SignalArrived (Inr ()))) = Some (Some (st1\<lparr>cp_control := ctl\<rparr>))"
    "stop_wake (ctl_info ctl) = None" "stop_signals (ctl_info ctl) \<le> U64_MAX" using calm_signals by blast
  let ?st = "st1\<lparr>cp_control := ctl\<rparr>" and ?p = "[cfg_output c, ''run-status.json'']"
  have empty: "cp_map st1 = []" by (rule calm_all_ended [OF st1(2) ended])
  have bound: "cp_reserved st1 \<le> U64_MAX" using st1(2) fit lim by (simp add: calm_inv_def calls_fit_def limits_suffice_def)
  have "length (status_json (?st\<lparr>cp_map := []\<rparr>) oc) \<le> 2048"
    by (rule status_json_length [where w = w]) (use bound st1(2) ctl outcome in \<open>simp_all add: calm_inv_def outcome_clean_def\<close>)
  then have len: "length (status_json (?st\<lparr>cp_map := []\<rparr>) oc) \<le> cfg_status c" using lim by (simp add: limits_suffice_def)
  have "?p \<notin> set (cp_names st1)"
  proof
    assume "?p \<in> set (cp_names st1)"
    then obtain i where "take 2 ?p = connection_dir c i" using st1(2) by (auto simp: calm_inv_def names_of_def)
    then show False by (simp add: connection_dir_def)
  qed
  then obtain b where json: "write_json env (?st\<lparr>cp_map := []\<rparr>) ?p (cfg_status c) (status_json (?st\<lparr>cp_map := []\<rparr>) oc) =
      Some (Some ((?st\<lparr>cp_map := []\<rparr>)\<lparr>cp_names := ?p # cp_names st1, cp_disk := (?p, b) # cp_disk st1\<rparr>, Inr ()))"
    using calm_json [OF env _ len, of ?p "?st\<lparr>cp_map := []\<rparr>"] lim by (auto simp: limits_suffice_def)
  have "\<not> run_bad (?st\<lparr>cp_map := []\<rparr>) oc"
    using st1(2) ctl(2) outcome
    by (simp add: run_bad_def calm_inv_def Counts_default_def outcome_clean_def worker_summary_def stop_wake_failed_def)
  then have "capture_finish env c ?st oc =
      Some (Some ((?st\<lparr>cp_map := []\<rparr>)\<lparr>cp_names := ?p # cp_names st1, cp_disk := (?p, b) # cp_disk st1\<rparr>, Inr ()))"
    using empty json by (simp add: capture_finish_def yields_def)
  then show ?thesis using st1(1) ctl(1) by (simp add: capture_run_def)
qed

section \<open>Properties\<close>


definition demo_records :: "(Record \<times> (io_error + unit)) list" where
  "demo_records =
     [(\<lparr>connection = ConnectionId 1 2, rec_offset = WireOffset 0, observed_at = 0, rec_kind = RConnected ''peer''\<rparr>, Inr ()),
      (\<lparr>connection = ConnectionId 1 2, rec_offset = WireOffset 0, observed_at = 0, rec_kind = REnded None CleanEof\<rparr>, Inr ())]"

lemma demo_position: "position_of (ConnectionId 1 2) (map fst demo_records) = Some (RecEnded, 0, 0)"
  by (simp add: demo_records_def of_connection_def stream_step.simps Let_def)

lemma demo_fits: "calls_fit demo_capture_env demo_config (map fst demo_records)"
proof -
  have n: "length (show_nat 1) \<le> 20" "length (show_nat 2) \<le> 20" "length (show_nat 0) \<le> 20"
    by (simp_all add: length_show_u64 U64_MAX_def)
  have "event_text demo_capture_env (ConnectionId 1 2) (map fst demo_records) \<le> 67108864"
    using n by (simp add: event_text_def demo_records_def of_connection_def demo_capture_env_def demo_texts_def description_line_def)
  then have "call_fits demo_capture_env demo_config (map fst demo_records) (ConnectionId 1 2)"
    using demo_position
    by (simp add: call_fits_def demo_config_def U32_MAX_def) (simp add: wires_def audios_def of_connection_def demo_records_def)
  then show ?thesis by (simp add: calls_fit_def demo_records_def seen_def demo_config_def U64_MAX_def)
qed


end
