(* ===== verification/Capture_Main.thy ===== *)
theory Capture_Main
  imports Error_Texts Receiver_Driver Capture_Success
begin

text \<open>
  The capture program from its arguments to its exit (\<open>main\<close> and the first part of \<open>run\<close> in
  \<open>apps/phonowire-capture/src/main.rs\<close>): the configuration, the receiver's limits and account, the
  bound listener, the signal handlers, and then the main loop of \<open>Capture_App\<close>.

  The operating system answers through \<open>start_env\<close>: the file system and address parser that the
  command line needs, the text of an error, the results of binding the listener and of
  installing the signal handlers, and the process-wide instance counter.  Lines printed to the
  standard streams are the first component of a result.
\<close>

section \<open>Starting\<close>

record start_env =
  se_platform :: platform
  se_io_text :: "io_error \<Rightarrow> string"
  se_bound :: "io_error + unit"
  se_nonblocking :: "io_error + unit"
  se_local :: "io_error + SocketAddr"
  se_instance :: nat
  se_signals :: "io_error + unit"

text \<open>\<open>NonZeroUsize::new(n).ok_or(text)\<close>.\<close>

definition nonzero :: "string \<Rightarrow> nat \<Rightarrow> string + nat" where
  "nonzero e n = (if n = 0 then Inl e else Inr n)"

definition map_err :: "('e \<Rightarrow> string) \<Rightarrow> 'e + 'a \<Rightarrow> string + 'a" where
  "map_err f r = (case r of Inl e \<Rightarrow> Inl (f e) | Inr a \<Rightarrow> Inr a)"

definition capture_limits :: "Config \<Rightarrow> string + Limits" where
  "capture_limits c =
     ok_then (nonzero ''max connections is zero'' (cfg_connections c)) (\<lambda>mc.
     ok_then (nonzero ''queue is zero'' (cfg_queue c)) (\<lambda>qs.
     ok_then (nonzero ''payload is zero'' (cfg_payload c)) (\<lambda>pc.
     ok_then (nonzero ''turn steps is zero'' (cfg_turns c)) (\<lambda>ts.
       map_err LimitsError_text (Limits_new mc qs pc ts)))))"

definition fresh_memory :: "nat \<Rightarrow> memory" where
  "fresh_memory cap = \<lparr>budget = ByteBudget_new cap, trackers = (\<lambda>_. RetentionTracker_new)\<rparr>"

definition capture_start :: "start_env \<Rightarrow> Config \<Rightarrow> string + Receiver" where
  "capture_start se c =
     ok_then (capture_limits c) (\<lambda>l.
     ok_then (nonzero ''retained bytes is zero'' (cfg_retained c)) (\<lambda>retained.
     ok_then (map_err (ReceiverError_text (se_io_text se))
                (snd (bind_with_profile (se_bound se) (se_nonblocking se) (se_local se) (se_instance se) l
                        (fresh_memory retained) PCM_8_KHZ))) (\<lambda>r.
     ok_then (map_err (se_io_text se) (se_signals se)) (\<lambda>_. Inr r))))"

section \<open>The program\<close>

definition listening_line :: "Receiver \<Rightarrow> string" where
  "listening_line r = ''listening on '' @ rc_local r"

definition capture_program ::
  "start_env \<Rightarrow> capture_env \<Rightarrow> Config \<Rightarrow> path list \<Rightarrow> capture_event list \<Rightarrow> outcome
     \<Rightarrow> (string list \<times> capture option \<times> (string + unit)) effect" where
  "capture_program se env c names evs oc =
     (case capture_start se c of
        Inl e \<Rightarrow> yields ([], None, Inl e)
      | Inr r \<Rightarrow>
          and_then (capture_run env c (signals (w_sched (rc_core r))) names evs oc)
            (\<lambda>(st, verdict). yields ([listening_line r], Some st, verdict)))"

definition capture_main ::
  "start_env \<Rightarrow> capture_env \<Rightarrow> string list \<Rightarrow> path list \<Rightarrow> capture_event list \<Rightarrow> outcome
     \<Rightarrow> (string list \<times> capture option \<times> (string + unit)) effect" where
  "capture_main se env arguments names evs oc =
     (case Config_parse (se_platform se) arguments of
        Inr c \<Rightarrow> capture_program se env c names evs oc
      | Inl e \<Rightarrow> if e = help_text then yields ([e], None, Inr ()) else yields ([], None, Inl e))"

section \<open>What can stop a start\<close>

text \<open>The result of starting with a parsed configuration, in the order in which it can fail.\<close>

definition start_spec :: "start_env \<Rightarrow> Config \<Rightarrow> string + unit" where
  "start_spec se c =
     (let needed = max 4096 (cfg_payload c) in
      if cfg_payload c < 16 then Inl ''payload capacity is below 16 UUID bytes''
      else if USIZE_MAX < cfg_connections c * (4096 + cfg_payload c) then Inl ''fixed buffer capacity exceeds usize''
      else if cfg_retained c < needed
        then Inl (''receiver budget is too small: requested '' @ show_nat needed @ '' bytes exceeds capacity '' @ show_nat (cfg_retained c))
      else if U64_MAX \<le> se_instance se then Inl ''receiver instance identities exhausted''
      else case (se_bound se, se_nonblocking se, se_local se) of
        (Inl e, _, _) \<Rightarrow> Inl (''receiver I/O failed: '' @ se_io_text se e)
      | (_, Inl e, _) \<Rightarrow> Inl (''receiver I/O failed: '' @ se_io_text se e)
      | (_, _, Inl e) \<Rightarrow> Inl (''receiver I/O failed: '' @ se_io_text se e)
      | _ \<Rightarrow> (case se_signals se of Inl e \<Rightarrow> Inl (se_io_text se e) | Inr _ \<Rightarrow> Inr ()))"

lemma capture_limits_parsed:
  assumes "Config_parse p arguments = Inr c"
  shows "capture_limits c =
    (if cfg_payload c < 16 then Inl ''payload capacity is below 16 UUID bytes''
     else if USIZE_MAX < cfg_connections c * (4096 + cfg_payload c) then Inl ''fixed buffer capacity exceeds usize''
     else Inr \<lparr>max_connections = cfg_connections c, queue_slots = cfg_queue c, payload_capacity = cfg_payload c,
               turn_steps = cfg_turns c, fixed_buffer_capacity = cfg_connections c * (4096 + cfg_payload c)\<rparr>)"
  using parsed_config_is_valid [OF assms]
  by (auto simp: capture_limits_def nonzero_def ok_then_def map_err_def Limits_new_def UUID_BYTES_def READ_BYTES_def checked_mul_def)

lemma capture_start_parsed:
  assumes "Config_parse p arguments = Inr c"
  shows "case capture_start se c of
      Inl e \<Rightarrow> start_spec se c = Inl e
    | Inr r \<Rightarrow> start_spec se c = Inr () \<and> Inr (rc_local r) = se_local se \<and> rc_instance r = se_instance se \<and> rc_profile r = PCM_8_KHZ \<and>
        capacity (budget (w_mem (rc_core r))) = cfg_retained c \<and> budget_used (budget (w_mem (rc_core r))) = 0 \<and>
        rc_limits r = \<lparr>max_connections = cfg_connections c, queue_slots = cfg_queue c, payload_capacity = cfg_payload c,
          turn_steps = cfg_turns c, fixed_buffer_capacity = cfg_connections c * (4096 + cfg_payload c)\<rparr> \<and>
        signals (w_sched (rc_core r)) = Signals_new"
  using parsed_config_is_valid [OF assms]
  by (auto simp: capture_start_def start_spec_def capture_limits_parsed [OF assms] nonzero_def ok_then_def map_err_def
      bind_with_profile_def Let_def READ_BYTES_def fresh_memory_def ByteBudget_new_def budget_used_def checked_add_def
      ReceiverError_text_def before_run_def bind_io_def Scheduler_new_def
      split: sum.splits)

section \<open>Properties\<close>


definition demo_start :: start_env where
  "demo_start = \<lparr>se_platform = demo_platform, se_io_text = (\<lambda>_. ''refused''), se_bound = Inr (), se_nonblocking = Inr (),
     se_local = Inr ''127.0.0.1:9092'', se_instance = 1, se_signals = Inr ()\<rparr>"


end
