(* ===== verification/Example_Session.thy ===== *)
theory Example_Session
  imports Error_Texts
begin

text \<open>
  The example program of the codec (\<open>crates/phonowire-audiosocket/examples/incoming_session.rs\<close>): a
  decoder and a session consume literal peer bytes in four chunks, and every event is compared
  with what it should be.  A loop that does not end is \<open>None\<close>, a panic \<open>Some None\<close>.
\<close>

section \<open>The program\<close>

definition EXAMPLE_UUID :: bytes where
  "EXAMPLE_UUID = [0, 1, 2, 3, 4, 5, 6, 7, 8, 9, 10, 11, 12, 13, 14, 15]"

definition EXAMPLE_BYTES :: bytes where
  "EXAMPLE_BYTES = [0x01, 0x00, 0x10, 0, 1, 2, 3, 4, 5, 6, 7, 8, 9, 10, 11, 12, 13, 14, 15, 0x10, 0x00, 0x04, 0x00,
     0x80, 0xff, 0x7f, 0x03, 0x00, 0x01, 53]"

datatype ExampleError =
    ExDecode DecodeError
  | ExSession IncomingSessionError
  | ExFinish FinishError
  | ExSequence

fun ExampleError_text :: "ExampleError \<Rightarrow> string" where
  "ExampleError_text (ExDecode e) = ''decode error: '' @ DecodeError_text e"
| "ExampleError_text (ExSession e) = ''session error: '' @ IncomingSessionError_text e"
| "ExampleError_text (ExFinish e) = ''finish error: '' @ FinishError_text e"
| "ExampleError_text ExSequence = ''unexpected incoming event sequence''"

definition verify_event :: "IncomingEvent \<Rightarrow> nat \<Rightarrow> ExampleError + unit" where
  "verify_event ev event_index =
     (case ev of
        EvStarted uuid \<Rightarrow>
          if event_index = 0 \<and> uuid_bytes uuid = EXAMPLE_UUID then Inr () else Inl ExSequence
      | EvAudio uuid rate p \<Rightarrow>
          if event_index = 1 \<and> uuid_bytes uuid = EXAMPLE_UUID \<and> audio_bytes_of p = [0x00, 0x80, 0xff, 0x7f]
          then Inr () else Inl ExSequence
      | EvDtmf uuid digit \<Rightarrow>
          if event_index = 2 \<and> uuid_bytes uuid = EXAMPLE_UUID \<and> dtmf_value digit = 53 then Inr () else Inl ExSequence
      | EvEnded uuid reason \<Rightarrow> Inl ExSequence)"

text \<open>The inner loop over one slice, then the loop over the slices.\<close>

partial_function (option) example_slice ::
  "Framer \<Rightarrow> IncomingSession \<Rightarrow> nat \<Rightarrow> bytes \<Rightarrow> (Framer \<times> IncomingSession \<times> (ExampleError + nat)) effect" where
  "example_slice d ses idx input =
     (if input = [] then Some (Some (d, ses, Inr idx))
      else case Decoder_feed d input of
        None \<Rightarrow> Some None
      | Some (d, input, Inl e) \<Rightarrow> Some (Some (d, ses, Inl (ExDecode e)))
      | Some (d, input, Inr NeedInput) \<Rightarrow> example_slice d ses idx input
      | Some (d, input, Inr (Frame m)) \<Rightarrow>
          (case receive ses m of
             (ses, Inl e) \<Rightarrow> Some (Some (d, ses, Inl (ExSession e)))
           | (ses, Inr ev) \<Rightarrow>
               (case verify_event ev idx of
                  Inl e \<Rightarrow> Some (Some (d, ses, Inl e))
                | Inr _ \<Rightarrow> example_slice d ses (idx + 1) input)))"

fun example_slices ::
  "Framer \<Rightarrow> IncomingSession \<Rightarrow> nat \<Rightarrow> bytes list \<Rightarrow> (Framer \<times> IncomingSession \<times> (ExampleError + nat)) effect" where
  "example_slices d ses idx [] = yields (d, ses, Inr idx)"
| "example_slices d ses idx (input # inputs) =
     and_then (example_slice d ses idx input) (\<lambda>(d, ses, res).
       case res of Inl e \<Rightarrow> yields (d, ses, Inl e) | Inr idx \<Rightarrow> example_slices d ses idx inputs)"

definition example_end :: "Framer \<Rightarrow> IncomingSession \<Rightarrow> nat \<Rightarrow> ExampleError + unit" where
  "example_end d ses idx =
     (if idx \<noteq> 3 then Inl ExSequence
      else case Decoder_finish d of
        Inl e \<Rightarrow> Inl (ExFinish e)
      | Inr _ \<Rightarrow>
          (case end_of_input ses of
             (ses, Inl e) \<Rightarrow> Inl (ExSession e)
           | (ses, Inr (EvEnded (Some uuid) EndOfInput)) \<Rightarrow>
               if uuid_bytes uuid = EXAMPLE_UUID then Inr () else Inl ExSequence
           | (ses, Inr _) \<Rightarrow> Inl ExSequence))"

definition example_run :: "bytes list \<Rightarrow> (ExampleError + unit) effect" where
  "example_run slices =
     and_then (example_slices (Decoder_new (replicate 16 0)) session_new 0 slices) (\<lambda>(d, ses, res).
       yields (case res of Inl e \<Rightarrow> Inl e | Inr idx \<Rightarrow> example_end d ses idx))"

definition example_main :: "(ExampleError + unit) effect" where
  "example_main =
     example_run [take 2 EXAMPLE_BYTES, take 17 (drop 2 EXAMPLE_BYTES), take 6 (drop 19 EXAMPLE_BYTES), drop 25 EXAMPLE_BYTES]"

section \<open>Decoding first and judging later is the same\<close>

text \<open>The session and the comparisons over a list of messages.\<close>

fun judge :: "IncomingSession \<Rightarrow> nat \<Rightarrow> TypedMessage list \<Rightarrow> IncomingSession \<times> (ExampleError + nat)" where
  "judge ses idx [] = (ses, Inr idx)"
| "judge ses idx (m # ms) =
     (case receive ses m of
        (ses, Inl e) \<Rightarrow> (ses, Inl (ExSession e))
      | (ses, Inr ev) \<Rightarrow> (case verify_event ev idx of Inl e \<Rightarrow> (ses, Inl e) | Inr _ \<Rightarrow> judge ses (idx + 1) ms))"

lemma judge_append: "judge ses idx (ms @ ms') =
    (case judge ses idx ms of (ses1, Inl e) \<Rightarrow> (ses1, Inl e) | (ses1, Inr idx1) \<Rightarrow> judge ses1 idx1 ms')"
  by (induction ses idx ms rule: judge.induct) (auto split: prod.split sum.split)

lemma example_slice_judge:
  "\<lbrakk>framer_ok validate_typed_length cap d; drain Decoder_feed d input = Some (d', ms, None); judge ses idx ms = (ses', Inr idx')\<rbrakk> \<Longrightarrow>
    example_slice d ses idx input = Some (Some (d', ses', Inr idx')) \<and> framer_ok validate_typed_length cap d'"
proof (induction "length input" arbitrary: d input ms ses idx rule: less_induct)
  case less
  show ?case
  proof (cases "input = []")
    case True
    then show ?thesis using less.prems by (simp add: drain.simps [of _ _ "[]"] example_slice.simps [of _ _ _ "[]"])
  next
    case False
    note drained = less.prems(2) [unfolded drain.simps [of Decoder_feed d input]]
    show ?thesis
    proof (cases rule: typed_stream.feed_cases [OF less.prems(1), of input, case_names need frame error])
      case (need d1)
      then have "ms = []" "d1 = d'" using drained False by (auto simp: drain.simps [of _ _ "[]"])
      then show ?thesis using need less.prems(3) False
        by (simp add: example_slice.simps [of d _ _ input] example_slice.simps [of _ _ _ "[]"])
    next
      case (frame d1 rest m)
      obtain ms1 where ms1: "drain Decoder_feed d1 rest = Some (d', ms1, None)" "ms = m # ms1"
        using drained False frame(1) by (auto simp: bind_eq_Some_conv)
      obtain ses1 ev where one: "receive ses m = (ses1, Inr ev)" "verify_event ev idx = Inr ()" "judge ses1 (idx + 1) ms1 = (ses', Inr idx')"
        using less.prems(3) ms1(2) by (auto split: prod.splits sum.splits)
      show ?thesis using less.hyps [OF frame(4,2) ms1(1) one(3)] frame(1) one False
        by (simp add: example_slice.simps [of d _ _ input])
    next
      case (error d1 rest e)
      then show ?thesis using drained False by simp
    qed
  qed
qed

lemma example_slices_judge:
  "\<lbrakk>framer_ok validate_typed_length cap d; drain_chunks Decoder_feed d slices = Some (d', ms, None); judge ses idx ms = (ses', Inr idx')\<rbrakk> \<Longrightarrow>
    example_slices d ses idx slices = Some (Some (d', ses', Inr idx'))"
proof (induction slices arbitrary: d ses idx ms)
  case Nil
  then show ?case by (simp add: yields_def)
next
  case (Cons input slices)
  obtain d1 ms1 ms2 where d1: "drain Decoder_feed d input = Some (d1, ms1, None)" "ms = ms1 @ ms2"
    "drain_chunks Decoder_feed d1 slices = Some (d', ms2, None)"
    using Cons.prems(2) by (auto simp: bind_eq_Some_conv split: option.splits)
  obtain ses1 idx1 where j: "judge ses idx ms1 = (ses1, Inr idx1)" "judge ses1 idx1 ms2 = (ses', Inr idx')"
    using Cons.prems(3) d1(2) by (auto simp: judge_append split: prod.splits sum.splits)
  note one = example_slice_judge [OF Cons.prems(1) d1(1) j(1)]
  show ?case using one Cons.IH [OF _ d1(3) j(2)] by simp
qed

definition example_messages :: "TypedMessage list" where
  "example_messages =
     [MUuid (Uuid EXAMPLE_UUID), MAudio Khz8 (AudioPayload [0x00, 0x80, 0xff, 0x7f]), MDtmf (Dtmf 53)]"

lemma example_parse: "parse_messages 16 EXAMPLE_BYTES = (example_messages, Live [], None)"
  by (simp add: parse_messages_def EXAMPLE_BYTES_def EXAMPLE_UUID_def example_messages_def from_be_bytes16_def
      validate_typed_length_def typed_policy_def known_def is_ascii_def)

lemma example_judged:
  "judge session_new 0 example_messages = (\<lparr>session_state = Active (Uuid EXAMPLE_UUID), profile = ALL_KNOWN_RATES\<rparr>, Inr 3)"
  by (simp add: example_messages_def session_defs session_new_def with_profile_def verify_event_def accepts_all supported_digit_def)

text \<open>The example succeeds, and not only for the slices it chooses.\<close>

theorem example_accepts_any_cut:
  assumes "concat slices = EXAMPLE_BYTES"
  shows "example_run slices = Some (Some (Inr ()))"
proof -
  let ?d = "Decoder_new (replicate 16 0)"
  have ok: "framer_ok validate_typed_length 16 ?d" using framer_ok_new [of validate_typed_length "replicate 16 0"] by simp
  have "typed_stream.drains 16 ?d EXAMPLE_BYTES (Live []) example_messages None"
    using typed_drains_parse [OF framer_ok_new framer_abs_new, of "replicate 16 0"] example_parse by simp
  then obtain d where d: "drain_chunks Decoder_feed ?d slices = Some (d, example_messages, None)" "framer_ok validate_typed_length 16 d"
    "framer_abs d = Live []"
    using typed_stream.drain_chunks_concat [of 16 ?d slices "Live []" example_messages None] framer_ok_new [of validate_typed_length "replicate 16 0"]
    by (auto simp: assms)
  have "Decoder_finish d = Inr ()" using finish_abs [OF d(2)] d(3) by simp
  then show ?thesis
    using example_slices_judge [OF ok d(1) example_judged]
    by (simp add: example_run_def example_end_def end_of_input_def session_end_def identity_def yields_def)
qed

theorem example_main_succeeds: "example_main = Some (Some (Inr ()))"
  unfolding example_main_def by (rule example_accepts_any_cut) (simp add: EXAMPLE_BYTES_def)

end
