(* ===== verification/Capture_Call.thy ===== *)
theory Capture_Call
  imports Capture_Success
begin

text \<open>
  One ordinary call from the peer's encoder to the capture's files: an identity, audio and
  digits, and a hang-up by message or by closing the connection.
\<close>

section \<open>What a call reports\<close>

fun call_message :: "TypedMessage \<Rightarrow> bool" where
  "call_message (MAudio rate p) \<longleftrightarrow> rate = Khz8"
| "call_message (MDtmf g) \<longleftrightarrow> supported_digit (dtmf_value g)"
| "call_message _ \<longleftrightarrow> False"

fun message_pcm :: "TypedMessage \<Rightarrow> bytes" where
  "message_pcm (MAudio rate p) = audio_bytes_of p"
| "message_pcm _ = []"

definition call_of :: "Uuid \<Rightarrow> TypedMessage list \<Rightarrow> bool \<Rightarrow> TypedMessage list" where
  "call_of u ms hangup = MUuid u # ms @ (if hangup then [MTerminate] else [])"

fun message_kind :: "conn_env \<Rightarrow> Uuid \<Rightarrow> TypedMessage \<Rightarrow> RecordKind" where
  "message_kind env u (MAudio rate p) = RAudio u rate (owned env (audio_bytes_of p))"
| "message_kind env u (MDtmf g) = RDtmf u g"
| "message_kind env u m = RStarted u"

definition call_kinds :: "conn_env \<Rightarrow> Uuid \<Rightarrow> TypedMessage list \<Rightarrow> bool \<Rightarrow> RecordKind list" where
  "call_kinds env u ms hangup =
     RStarted u # map (message_kind env u) ms @ [REnded (Some u) (if hangup then EndTerminate else CleanEof)]"

lemma parse_encoded:
  assumes "\<forall>m \<in> set ms. wf_typed m \<and> length (payload (envelope_of m)) \<le> cap"
  shows "parse_frames accept_any cap (concat (map (frame_bytes \<circ> envelope_of) ms)) = (map envelope_of ms, Live [], None)"
  using assms by (induction ms) (auto simp: parse_frames_frame_bytes wf_envelope_of)

abbreviation active_session :: "IncomingProfile \<Rightarrow> Uuid \<Rightarrow> IncomingSession" where
  "active_session prof u \<equiv> \<lparr>session_state = Active u, profile = prof\<rparr>"

lemma frame_report_start:
  "wf_typed (MUuid u) \<Longrightarrow> frame_report env (with_profile prof) (envelope_of (MUuid u)) = (RStarted u, active_session prof u, True)"
  using typed_policy_envelope_of [of "MUuid u"]
  by (simp add: frame_report_def with_profile_def receive_def session_uuid_def identity_def)

lemma frames_report_call:
  assumes "\<forall>m \<in> set ms. wf_typed m \<and> call_message m" "accepts prof Khz8"
  shows "frames_report env (active_session prof u) (map envelope_of ms @ fs) close =
    map (message_kind env u) ms @ frames_report env (active_session prof u) fs close"
  using assms
proof (induction ms)
  case (Cons m ms)
  have "frame_report env (active_session prof u) (envelope_of m) = (message_kind env u m, active_session prof u, True)"
    using Cons.prems
    by (cases m) (auto simp: frame_report_def typed_policy_envelope_of receive_def session_audio_def session_dtmf_def
        identity_def simp del: envelope_of.simps)
  then show ?case using Cons by simp
qed simp

lemma call_report:
  assumes "\<forall>m \<in> set (call_of u ms hangup). wf_typed m \<and> length (payload (envelope_of m)) \<le> cap" "\<forall>m \<in> set ms. call_message m" "accepts prof Khz8"
  shows "stream_report env cap (with_profile prof) (concat (map (frame_bytes \<circ> envelope_of) (call_of u ms hangup))) =
    call_kinds env u ms hangup"
proof -
  have "wf_typed (MUuid u)" using assms(1) by (simp add: call_of_def)
  note start = frame_report_start [OF this]
  have stop: "frame_report env (active_session prof u) (envelope_of MTerminate) =
      (REnded (Some u) EndTerminate, \<lparr>session_state = Ended, profile = prof\<rparr>, False)"
    using typed_policy_envelope_of [of MTerminate] by (simp add: frame_report_def receive_def session_end_def identity_def)
  have body: "\<forall>m \<in> set ms. wf_typed m \<and> call_message m" using assms by (simp add: call_of_def)
  show ?thesis
    unfolding stream_report_def parse_encoded [OF assms(1)]
    using start stop
    by (cases hangup) (simp_all add: call_of_def call_kinds_def frames_report_call [OF body assms(3)] frames_report_call [OF body assms(3), where fs = "[]", simplified]
        identity_def del: envelope_of.simps)
qed

lemma frames_report_started:
  assumes "wf_typed (MUuid u)" "\<forall>m \<in> set ms. wf_typed m \<and> call_message m" "accepts prof Khz8"
  shows "frames_report env (with_profile prof) (map envelope_of (MUuid u # ms)) close =
    RStarted u # map (message_kind env u) ms @ [close (active_session prof u)]"
  using frame_report_start [OF assms(1)] frames_report_call [OF assms(2,3), where fs = "[]"] by (simp del: envelope_of.simps)

text \<open>No part of a call short of its last byte has the report of the whole call.\<close>

lemma call_report_whole:
  assumes wf: "\<forall>m \<in> set (call_of u ms hangup). wf_typed m \<and> length (payload (envelope_of m)) \<le> cap" "\<forall>m \<in> set ms. call_message m" "accepts prof Khz8"
    and split: "concat (map (frame_bytes \<circ> envelope_of) (call_of u ms hangup)) = front @ rest"
    and same: "stream_report env cap (with_profile prof) front = call_kinds env u ms hangup"
  shows "rest = []"
proof -
  let ?call = "call_of u ms hangup"
  obtain fs a e where fs: "parse_frames accept_any cap front = (fs, a, e)" by (metis prod_cases3)
  have full: "parse_frames accept_any cap (front @ rest) = (map envelope_of ?call, Live [], None)"
    using parse_encoded [OF wf(1)] split by simp
  obtain p gs where p: "a = Live p" "e = None" "fs @ gs = map envelope_of ?call" "parse_frames accept_any cap (p @ rest) = (gs, Live [], None)"
    using full [unfolded parse_frames_append [of _ _ front rest] fs]
    by (auto split: pending.splits option.splits prod.splits)
  have rep: "frames_report env (with_profile prof) fs (stream_end (Live p) None) = call_kinds env u ms hangup"
    using same by (simp add: stream_report_def fs p(1,2))
  have "gs = []"
  proof (rule ccontr)
    assume "gs \<noteq> []"
    let ?k = "length fs"
    have k: "?k < length ?call" "fs = map envelope_of (take ?k ?call)"
      using arg_cong [OF p(3) [symmetric], of length] arg_cong [OF p(3) [symmetric], of "take ?k"] \<open>gs \<noteq> []\<close> by (auto simp: take_map)
    show False
    proof (cases ?k)
      case 0
      then show False using rep by (simp add: call_kinds_def)
    next
      case (Suc j)
      have j: "take ?k ?call = MUuid u # take j ms" "j \<le> length ms" using k(1) Suc by (auto simp: call_of_def split: if_splits)
      have "\<forall>m \<in> set (take j ms). wf_typed m \<and> call_message m" "wf_typed (MUuid u)"
        using wf by (auto simp: call_of_def dest: in_set_takeD)
      from frames_report_started [OF this(2,1) wf(3)]
      have eq: "call_kinds env u ms hangup = RStarted u # map (message_kind env u) (take j ms) @ [stream_end (Live p) None (active_session prof u)]"
        using rep k(2) j(1) by simp
      have "length (call_kinds env u ms hangup) = length ms + 2" by (simp add: call_kinds_def)
      then have "j = length ms" using eq j(2) by simp
      moreover from this have hangup using k(1) Suc by (simp add: call_of_def split: if_splits)
      ultimately show False using eq by (simp add: call_kinds_def split: if_splits)
    qed
  qed
  then show ?thesis using parse_frames_bytes [OF p(4)] by simp
qed

section \<open>Records of one connection\<close>

lemma stream_run_connection: "stream_run i ok pos xs = Some pos' \<Longrightarrow> x \<in> set xs \<Longrightarrow> connection x = i"
proof (induction xs arbitrary: pos)
  case (Cons y ys)
  then show ?case by (cases pos) (auto simp: stream_step.simps Let_def split: if_splits option.splits)
qed simp

lemma stream_run_ended:
  assumes "stream_run i ok pos xs = Some (st, lo, got)" "x \<in> set xs" "is_ended (rec_kind x)"
  shows "st = RecEnded" "last xs = x"
proof -
  obtain ys zs where xs: "xs = ys @ x # zs" using split_list [OF assms(2)] by blast
  then obtain p q where q: "stream_step i ok p x = Some q" "stream_run i ok q zs = Some (st, lo, got)"
    using assms(1) by (auto simp: stream_run_append split: option.splits)
  obtain a b c a' b' c' where p: "p = (a, b, c)" "q = (a', b', c')" by (metis prod_cases3)
  have "a' = RecEnded" using stream_step_phase [of i ok a b c x a' b' c'] q(1) p phase_step_ended assms(3) by blast
  then show "st = RecEnded" "last xs = x" using stream_run_RecEnded [of i ok b' c' zs] q(2) p xs by auto
qed

lemma audio_of_observed: "concat (map audio_part (filter (\<lambda>k. \<not> is_wire k) ks)) = concat (map audio_part ks)"
proof (induction ks)
  case (Cons k ks)
  then show ?case by (cases k) simp_all
qed simp

lemma call_kinds_audio:
  "concat (map audio_part (RConnected p # call_kinds env u ms hangup)) = concat (map message_pcm ms)"
proof -
  have "audio_part (message_kind env u m) = message_pcm m" for m by (cases m) (simp_all add: owned_def as_slice_def)
  then show ?thesis by (simp add: call_kinds_def o_def)
qed

lemma call_kinds_clean: "k \<in> set (RConnected p # call_kinds env u ms hangup) \<Longrightarrow> clean_end k"
proof -
  have "clean_end (message_kind env u m)" for m by (cases m) simp_all
  moreover assume "k \<in> set (RConnected p # call_kinds env u ms hangup)"
  ultimately show ?thesis by (auto simp: call_kinds_def)
qed

section \<open>From the wire to the files\<close>

definition call_pcm :: "TypedMessage list \<Rightarrow> bytes" where
  "call_pcm ms = concat (map message_pcm ms)"

lemma call_observed:
  assumes call: "\<forall>m \<in> set (call_of u ms hangup). wf_typed m \<and> length (payload (envelope_of m)) \<le> pc" "\<forall>m \<in> set ms. call_message m" "accepts prof Khz8"
    and sent: "concat chunks = concat (map (frame_bytes \<circ> envelope_of) (call_of u ms hangup))"
    and reads: "pc \<le> ce_capacity conn" "list_all (\<lambda>bs. bs \<noteq> [] \<and> length bs \<le> ce_capacity conn) chunks"
      "2 * length (concat chunks) + 2 \<le> U64_MAX" "\<forall>n. ce_accepts conn n"
  obtains s st lo where "receive_from conn pc prof (map ReadBytes chunks @ [ReadBytes []]) = Some (Some (s, True))"
    "filter (\<lambda>k. \<not> is_wire k) (map rec_kind (cn_sent s)) = RConnected (ce_peer conn) # call_kinds conn u ms hangup"
    "transport s = concat chunks" "wire_queued (cn_progress s) \<le> U64_MAX"
    "stream_run (ce_id conn) (accepts prof) (AwaitingConnection, 0, 0) (cn_sent s) = Some (st, lo, wire_queued (cn_progress s))"
proof -
  obtain s rest where s: "receive_from conn pc prof (map ReadBytes chunks @ [ReadBytes []]) = Some (Some (s, True))"
    "filter (\<lambda>k. \<not> is_wire k) (map rec_kind (cn_sent s)) = RConnected (ce_peer conn) # call_kinds conn u ms hangup"
    and front: "concat chunks = transport s @ rest"
      "stream_report conn pc (with_profile prof) (transport s) = call_kinds conn u ms hangup"
    using receive_from_used [OF reads, of prof] call_report [OF call] sent by metis
  have "transport s = concat chunks" using call_report_whole [OF call _ front(2)] front(1) sent by simp
  then show ?thesis
    using receive_from_protocol [OF reads(1), of prof "map ReadBytes chunks @ [ReadBytes []]"] s that by auto
qed

lemma call_records:
  assumes call: "\<forall>m \<in> set (call_of u ms hangup). wf_typed m \<and> length (payload (envelope_of m)) \<le> pc" "\<forall>m \<in> set ms. call_message m"
    and sent: "concat chunks = concat (map (frame_bytes \<circ> envelope_of) (call_of u ms hangup))"
    and reads: "pc \<le> ce_capacity conn" "list_all (\<lambda>bs. bs \<noteq> [] \<and> length bs \<le> ce_capacity conn) chunks"
      "2 * length (concat chunks) + 2 \<le> U64_MAX" "\<forall>n. ce_accepts conn n"
  obtains s lo got where "receive_from conn pc PCM_8_KHZ (map ReadBytes chunks @ [ReadBytes []]) = Some (Some (s, True))"
    "position_of (ce_id conn) (cn_sent s) = Some (RecEnded, lo, got)" "seen (cn_sent s) = {ce_id conn}"
    "audios (ce_id conn) (cn_sent s) = call_pcm ms" "wires (ce_id conn) (cn_sent s) = concat chunks"
    "\<forall>x \<in> set (cn_sent s). clean_end (rec_kind x)" "\<not> only_connected (cn_sent s) (ce_id conn)"
proof -
  let ?i = "ce_id conn"
  obtain s st lo where s: "receive_from conn pc PCM_8_KHZ (map ReadBytes chunks @ [ReadBytes []]) = Some (Some (s, True))"
    and kinds: "filter (\<lambda>k. \<not> is_wire k) (map rec_kind (cn_sent s)) = RConnected (ce_peer conn) # call_kinds conn u ms hangup"
    and whole: "transport s = concat chunks"
    and run: "stream_run ?i (accepts PCM_8_KHZ) (AwaitingConnection, 0, 0) (cn_sent s) = Some (st, lo, wire_queued (cn_progress s))"
    by (rule call_observed [OF call _ sent reads, of PCM_8_KHZ]) (simp_all add: accepts_pcm8)
  have own: "of_connection ?i (cn_sent s) = cn_sent s"
    using stream_run_connection [OF run] by (simp add: of_connection_def)
  have mem: "rec_kind x \<in> set (RConnected (ce_peer conn) # call_kinds conn u ms hangup)" if "x \<in> set (cn_sent s)" "\<not> is_wire (rec_kind x)" for x
    unfolding kinds [symmetric] using that by simp
  have "REnded (Some u) (if hangup then EndTerminate else CleanEof) \<in> set (filter (\<lambda>k. \<not> is_wire k) (map rec_kind (cn_sent s)))"
    unfolding kinds by (simp add: call_kinds_def)
  then obtain x where x: "x \<in> set (cn_sent s)" "rec_kind x = REnded (Some u) (if hangup then EndTerminate else CleanEof)" by auto
  have "st = RecEnded" by (rule stream_run_ended(1) [OF run x(1)]) (simp add: x(2) is_ended_def)
  then have "position_of ?i (cn_sent s) = Some (RecEnded, lo, wire_queued (cn_progress s))" using run own by simp
  moreover have "seen (cn_sent s) = {?i}" using stream_run_connection [OF run] x(1) by (auto simp: seen_def)
  moreover have "audios ?i (cn_sent s) = call_pcm ms"
    using audio_of_observed [of "map rec_kind (cn_sent s)"] call_kinds_audio [of "ce_peer conn" conn u ms hangup]
    by (simp add: audios_def own kinds call_pcm_def o_def)
  moreover have "wires ?i (cn_sent s) = concat chunks" using whole by (simp add: wires_def own transport_def o_def)
  moreover have "\<forall>x \<in> set (cn_sent s). clean_end (rec_kind x)"
  proof
    fix y assume "y \<in> set (cn_sent s)"
    then show "clean_end (rec_kind y)"
      using call_kinds_clean [OF mem [of y]] by (cases "is_wire (rec_kind y)") (auto elim: is_wire.elims)
  qed
  moreover have "\<not> only_connected (cn_sent s) ?i" using x stream_run_connection [OF run x(1)] by (force simp: only_connected_def)
  ultimately show ?thesis using that s by blast
qed

lemma captured_call:
  assumes call: "\<forall>m \<in> set (call_of u ms hangup). wf_typed m \<and> length (payload (envelope_of m)) \<le> pc" "\<forall>m \<in> set ms. call_message m"
    and sent: "concat chunks = concat (map (frame_bytes \<circ> envelope_of) (call_of u ms hangup))"
    and reads: "pc \<le> ce_capacity conn" "list_all (\<lambda>bs. bs \<noteq> [] \<and> length bs \<le> ce_capacity conn) chunks"
      "2 * length (concat chunks) + 2 \<le> U64_MAX" "\<forall>n. ce_accepts conn n"
    and ids: "conn_instance (ce_id conn) \<le> U64_MAX" "conn_sequence (ce_id conn) \<le> U64_MAX"
    and sys: "calm_env env" "limits_suffice c" "0 < cfg_run c" "0 < cfg_active c" "\<forall>p \<in> set names. length p \<le> 1"
    and outcome: "outcome_clean oc" "oc_worker oc = Some (Inr w)" "\<forall>n \<in> set (run_numbers w). n \<le> U64_MAX"
    and sizes: "length (concat chunks) \<le> cfg_file c" "44 + length (call_pcm ms) \<le> cfg_file c" "length (call_pcm ms) + 36 \<le> U32_MAX"
  shows "\<exists>s. receive_from conn pc PCM_8_KHZ (map ReadBytes chunks @ [ReadBytes []]) = Some (Some (s, True)) \<and>
    (event_text env (ce_id conn) (cn_sent s) \<le> cfg_file c \<longrightarrow>
      (\<exists>st. capture_run env c sg names (map (\<lambda>x. Received x (Inr ())) (cn_sent s) @ replicate n (SignalArrived (Inr ()))) oc =
           Some (Some (st, Inr ())) \<and>
         map_of (cp_disk st) (connection_dir c (ce_id conn) @ [''audio.wav'']) = Some (header_of (length (call_pcm ms)) Khz8 @ call_pcm ms) \<and>
         map_of (cp_disk st) (connection_dir c (ce_id conn) @ [''wire.bin'']) = Some (concat chunks)))"
proof -
  let ?i = "ce_id conn"
  obtain s lo got where s: "receive_from conn pc PCM_8_KHZ (map ReadBytes chunks @ [ReadBytes []]) = Some (Some (s, True))"
    "position_of ?i (cn_sent s) = Some (RecEnded, lo, got)" "seen (cn_sent s) = {?i}" "audios ?i (cn_sent s) = call_pcm ms"
    "wires ?i (cn_sent s) = concat chunks" "\<forall>x \<in> set (cn_sent s). clean_end (rec_kind x)"
    "\<not> only_connected (cn_sent s) ?i" by (rule call_records [OF call sent reads])
  have conn: "connection x = ?i" if "x \<in> set (cn_sent s)" for x using s(3) that by (auto simp: seen_def)
  let ?ys = "map (\<lambda>x. (x, Inr ())) (cn_sent s) :: (Record \<times> (io_error + unit)) list"
  let ?evs = "map (\<lambda>x. Received x (Inr ())) (cn_sent s) @ replicate n (SignalArrived (Inr ()))"
  have fst_ys: "map fst ?ys = cn_sent s" by (simp add: o_def)
  have evs: "map (\<lambda>(x, wr). Received x wr) ?ys = map (\<lambda>x. Received x (Inr ())) (cn_sent s)" by simp
  have rec: "received ?evs = cn_sent s"
  proof -
    have "received (replicate n (SignalArrived (Inr ()))) = []" by (induction n) simp_all
    moreover have "received (map (\<lambda>x. Received x (Inr ())) xs @ es) = xs @ received es" for xs es by (induction xs) simp_all
    ultimately show ?thesis by simp
  qed
  have "\<exists>st. capture_run env c sg names ?evs oc = Some (Some (st, Inr ())) \<and>
      map_of (cp_disk st) (connection_dir c ?i @ [''audio.wav'']) = Some (header_of (length (call_pcm ms)) Khz8 @ call_pcm ms) \<and>
      map_of (cp_disk st) (connection_dir c ?i @ [''wire.bin'']) = Some (concat chunks)"
    if short: "event_text env ?i (cn_sent s) \<le> cfg_file c"
  proof -
    have "call_fits env c (cn_sent s) ?i"
      using s(2,4,5) short sizes by (simp add: call_fits_def)
    then have fit: "calls_fit env c (cn_sent s)" using s(3,6) sys(3,4) ids conn by (auto simp: calls_fit_def)
    have over: "\<forall>x \<in> set (cn_sent s). \<exists>lo got. position_of (connection x) (cn_sent s) = Some (RecEnded, lo, got)"
      using s(2) conn by auto
    obtain st where st: "capture_run env c sg names ?evs oc = Some (Some (st, Inr ()))"
      using calm_capture_succeeds [OF sys(1,2), of ?ys names oc w sg n] fit over sys(5) outcome
      unfolding fst_ys evs by blast
    have run: "cfg_run c \<le> U64_MAX" using sys(2) by (simp add: limits_suffice_def)
    have "recorded c (cn_sent s) (cp_disk st) ?i"
      by (rule capture_run_result [OF run, of env sg names ?evs oc ?i]) (use st rec s(7) in auto)
    then show ?thesis using st s(4,5) by (auto simp: recorded_def)
  qed
  with s(1) show ?thesis by blast
qed

end
