(* ===== verification/Call_Text.thy ===== *)
theory Call_Text
  imports Capture_Call
begin

text \<open>
  How much a call writes to its list of events: at most one transport record for a read, one
  record for a message, and a bounded line for each of them.
\<close>

section \<open>Transport records are counted by the reads\<close>

definition wire_count :: "conn \<Rightarrow> nat" where
  "wire_count s = length (filter is_wire (map rec_kind (cn_sent s)))"

lemma wire_count_update [simp]:
  "wire_count (s\<lparr>cn_ticks := t\<rparr>) = wire_count s" "wire_count (s\<lparr>cn_session := ses\<rparr>) = wire_count s"
  "wire_count (s\<lparr>cn_decoder := d\<rparr>) = wire_count s" "wire_count (s\<lparr>cn_progress := p\<rparr>) = wire_count s"
  by (simp_all add: wire_count_def)

lemma send_at_count: "send_at env s offset at kind = Some (s', b) \<Longrightarrow> wire_count s' \<le> wire_count s + (if is_wire kind then 1 else 0)"
  by (auto simp: send_at_def wire_count_def Let_def split: option.splits if_splits bind_splits)

lemma conn_send_count: "conn_send env s offset kind = Some (s', b) \<Longrightarrow> \<not> is_wire kind \<Longrightarrow> wire_count s' \<le> wire_count s"
  by (auto simp: conn_send_def conn_now_def dest: send_at_count)

lemma conn_end_count: "conn_end env s offset u r = Some (s', b) \<Longrightarrow> wire_count s' \<le> wire_count s"
  by (auto simp: conn_end_def dest: conn_send_count)

lemma observe_count: "observe env s offset ev = Some (s', b) \<Longrightarrow> wire_count s' \<le> wire_count s"
  by (auto simp: observe_def conn_now_def end_at_def dest!: send_at_count split: IncomingEvent.splits SessionEnd.splits sum.splits)

lemma stop_with_count: "stop_with (conn_end env s offset u r) = Some (s', b) \<Longrightarrow> wire_count s' \<le> wire_count s"
  by (auto simp: stop_with_def dest: conn_end_count)

lemma handle_frame_count: "handle_frame env s offset raw = Some (s', go) \<Longrightarrow> wire_count s' \<le> wire_count s"
  by (auto simp: handle_frame_def Let_def dest!: stop_with_count observe_count split: bind_splits sum.splits prod.splits)

lemma chunk_pass_count: "chunk_pass env s input = Some (s', r) \<Longrightarrow> wire_count s' \<le> wire_count s"
  by (auto simp: chunk_pass_def Let_def dest!: conn_end_count handle_frame_count
      split: bind_splits sum.splits prod.splits DecodeOutcome.splits)

lemma decode_chunk_count:
  assumes "decode_chunk env s input = Some (Some (s', go))"
  shows "wire_count s' \<le> wire_count s"
proof -
  let ?P = "\<lambda>env s input y. case y of Some (s', go) \<Rightarrow> wire_count s' \<le> wire_count s | None \<Rightarrow> True"
  have "?P env s input (Some (s', go))"
  proof (rule decode_chunk.raw_induct [where P = ?P, OF _ assms])
    fix recv env s input y
    assume IH: "\<And>env s input y. recv env s input = Some y \<Longrightarrow> ?P env s input y"
      and step: "(if input = [] then Some (Some (s, True))
        else case chunk_pass env s input of None \<Rightarrow> Some None | Some (s', Inl res) \<Rightarrow> Some (Some (s', res))
          | Some (s', Inr rest) \<Rightarrow> recv env s' rest) = Some y"
    then show "?P env s input y"
      by (cases "chunk_pass env s input")
         (auto split: if_splits sum.splits prod.splits option.splits dest!: chunk_pass_count IH intro: order_trans)
  qed
  then show ?thesis by simp
qed

lemma conn_chunk_count: "conn_chunk env s bs = Some (Some (s', go)) \<Longrightarrow> wire_count s' \<le> wire_count s + 1"
  by (auto simp: conn_chunk_def conn_now_def Let_def and_then_def yields_def dest!: stop_with_count send_at_count decode_chunk_count
      split: prod.splits sum.splits option.splits if_splits)

lemma conn_eof_count: "conn_eof env s = Some (s', b) \<Longrightarrow> wire_count s' \<le> wire_count s"
  by (auto simp: conn_eof_def Let_def dest!: conn_end_count split: sum.splits prod.splits IncomingEvent.splits)

lemma receive_loop_count: "receive_loop env s reads = Some (Some (s', fin)) \<Longrightarrow> wire_count s' \<le> wire_count s + length reads"
proof (induction env s reads rule: receive_loop.induct)
  case (3 env s bs rs)
  then show ?case
    by (fastforce simp: and_then_def yields_def dest: conn_eof_count conn_chunk_count split: if_splits option.splits prod.splits)
qed (auto simp: and_then_def yields_def dest!: conn_end_count split: option.splits)

lemma conn_new_count: "wire_count (conn_new pc prof) = 0"
  by (simp add: wire_count_def conn_new_def)

lemma receive_from_count: "receive_from env pc prof reads = Some (Some (s, fin)) \<Longrightarrow> wire_count s \<le> length reads"
  by (auto simp: receive_from_def and_then_def yields_def conn_new_count dest!: conn_send_count receive_loop_count split: option.splits prod.splits if_splits)

section \<open>The lines of a call\<close>

lemma stream_run_offset:
  "stream_run i ok (st, lo, got) xs = Some (st', lo', got') \<Longrightarrow> got \<le> got' \<and> (\<forall>x \<in> set xs. offset_get (rec_offset x) \<le> got')"
proof (induction xs arbitrary: st lo got)
  case (Cons x xs)
  obtain st1 lo1 got1 where step: "stream_step i ok (st, lo, got) x = Some (st1, lo1, got1)"
    "stream_run i ok (st1, lo1, got1) xs = Some (st', lo', got')"
    using Cons.prems by (auto split: option.splits)
  have "offset_get (rec_offset x) \<le> got \<and> got \<le> got1"
    using step(1) by (auto simp: stream_step.simps Let_def split: if_splits option.splits)
  then show ?case using Cons.IH [OF step(2)] by auto
qed simp

lemma length_hex_items: "length (hex_items bs) \<le> 4 * length bs"
  by (induction bs rule: hex_items.induct) (simp_all add: hex_byte_def)

text \<open>A bound on the texts a debug formatter chooses for instants, digits and identities.\<close>

definition texts_within :: "nat \<Rightarrow> debug_texts \<Rightarrow> bool" where
  "texts_within n d \<longleftrightarrow>
     (\<forall>t. length (dbg_instant d t) \<le> n) \<and> (\<forall>c. length (dbg_char d c) \<le> n) \<and> (\<forall>u. length (dbg_uuid d u) \<le> n)"

definition line_bound :: "nat \<Rightarrow> conn_env \<Rightarrow> nat" where
  "line_bound n conn = 256 + length (ce_peer conn) + 2 * n"

definition plain_kind :: "conn_env \<Rightarrow> Uuid \<Rightarrow> RecordKind \<Rightarrow> bool" where
  "plain_kind conn u k \<longleftrightarrow>
     (case k of
        RConnected p \<Rightarrow> p = ce_peer conn
      | RWire b \<Rightarrow> length (as_slice b) \<le> U64_MAX
      | RStarted v \<Rightarrow> v = u
      | RAudio v r b \<Rightarrow> v = u \<and> length (as_slice b) \<le> U64_MAX
      | RDtmf v g \<Rightarrow> v = u
      | REnded v r \<Rightarrow> r = CleanEof \<or> r = EndTerminate)"

lemma description_bound:
  assumes "texts_within n d" "plain_kind conn u k" "length (uuid_bytes u) = 16"
  shows "length (Description d k) \<le> 140 + length (ce_peer conn) + n"
proof -
  have u: "length (hex_items (uuid_bytes u)) \<le> 64" using length_hex_items [of "uuid_bytes u"] assms(3) by simp
  have r: "length (rate_text r) \<le> 7" for r by (cases r) simp_all
  have t: "length (dbg_char d c) \<le> n" "length (dbg_uuid d v) \<le> n" for c v using assms(1) by (simp_all add: texts_within_def)
  show ?thesis
  proof (cases k)
    case (RWire b)
    then show ?thesis using assms(2) length_show_u64 [of "length (as_slice b)"] by (simp add: plain_kind_def)
  next
    case (RAudio v rate b)
    then show ?thesis using assms(2) u r [of rate] length_show_u64 [of "length (as_slice b)"] by (simp add: plain_kind_def hex_bytes_def)
  next
    case (REnded v e)
    then show ?thesis using assms(2) t(2) [of v] by (auto simp: plain_kind_def)
  next
    case (RDtmf v g)
    then show ?thesis using assms(2) u t(1) [of "dtmf_value g"] by (simp add: plain_kind_def hex_bytes_def)
  qed (use assms(2) u in \<open>auto simp: plain_kind_def hex_bytes_def\<close>)
qed

lemma line_within:
  assumes "texts_within n d" "plain_kind conn u (rec_kind x)" "length (uuid_bytes u) = 16"
    "conn_instance i \<le> U64_MAX" "conn_sequence i \<le> U64_MAX" "offset_get (rec_offset x) \<le> U64_MAX"
  shows "length (description_line d i x) \<le> line_bound n conn"
proof -
  have "length (dbg_instant d (observed_at x)) \<le> n" using assms(1) by (simp add: texts_within_def)
  then show ?thesis
    using description_bound [OF assms(1-3)] length_show_u64 [OF assms(4)] length_show_u64 [OF assms(5)] length_show_u64 [OF assms(6)]
    by (simp add: description_line_def line_bound_def)
qed

lemma call_kinds_plain:
  assumes "\<forall>m \<in> set ms. wf_typed m \<and> call_message m" "k \<in> set (RConnected (ce_peer conn) # call_kinds conn u ms hangup)"
  shows "plain_kind conn u k"
proof -
  have "plain_kind conn u (message_kind conn u m)" if "wf_typed m" for m
    using that by (cases m) (auto simp: plain_kind_def owned_def as_slice_def MAX_BODY_BYTES_def U64_MAX_def)
  then show ?thesis using assms by (auto simp: call_kinds_def plain_kind_def)
qed

lemma call_lines:
  assumes call: "\<forall>m \<in> set (call_of u ms hangup). wf_typed m \<and> length (payload (envelope_of m)) \<le> pc" "\<forall>m \<in> set ms. call_message m" "accepts prof Khz8"
    and sent: "concat chunks = concat (map (frame_bytes \<circ> envelope_of) (call_of u ms hangup))"
    and reads: "pc \<le> ce_capacity conn" "list_all (\<lambda>bs. bs \<noteq> [] \<and> length bs \<le> ce_capacity conn) chunks"
      "2 * length (concat chunks) + 2 \<le> U64_MAX" "\<forall>n. ce_accepts conn n"
    and ids: "conn_instance (ce_id conn) \<le> U64_MAX" "conn_sequence (ce_id conn) \<le> U64_MAX"
    and texts: "texts_within n d"
    and s: "receive_from conn pc prof (map ReadBytes chunks @ [ReadBytes []]) = Some (Some (s, True))"
  shows "(\<Sum>x\<leftarrow>cn_sent s. length (description_line d (ce_id conn) x)) \<le> (length chunks + length ms + 4) * line_bound n conn"
proof -
  let ?i = "ce_id conn"
  obtain st lo where kinds: "filter (\<lambda>k. \<not> is_wire k) (map rec_kind (cn_sent s)) = RConnected (ce_peer conn) # call_kinds conn u ms hangup"
    and whole: "transport s = concat chunks" and got: "wire_queued (cn_progress s) \<le> U64_MAX"
    and run: "stream_run ?i (accepts prof) (AwaitingConnection, 0, 0) (cn_sent s) = Some (st, lo, wire_queued (cn_progress s))"
    by (rule call_observed [OF call sent reads]) (use s in auto)
  have plain: "plain_kind conn u (rec_kind x)" if x: "x \<in> set (cn_sent s)" for x
  proof (cases "is_wire (rec_kind x)")
    case True
    then obtain b where b: "rec_kind x = RWire b" by (auto elim: is_wire.elims)
    have "wire_part (rec_kind x) \<in> set (map (wire_part \<circ> rec_kind) (cn_sent s))" using x by simp
    then have "length (wire_part (rec_kind x)) \<le> length (concat chunks)"
      unfolding whole [symmetric] transport_def length_concat by (intro member_le_sum_list) auto
    then show ?thesis using b reads(3) by (simp add: plain_kind_def)
  next
    case False
    then have "rec_kind x \<in> set (RConnected (ce_peer conn) # call_kinds conn u ms hangup)"
      unfolding kinds [symmetric] using x by simp
    then show ?thesis by (rule call_kinds_plain [rotated]) (use call in \<open>auto simp: call_of_def\<close>)
  qed
  have "length (cn_sent s) = wire_count s + length (filter (\<lambda>k. \<not> is_wire k) (map rec_kind (cn_sent s)))"
    using sum_length_filter_compl [of is_wire "map rec_kind (cn_sent s)"] by (simp add: wire_count_def)
  then have count: "length (cn_sent s) \<le> length chunks + length ms + 4"
    using receive_from_count [OF s] unfolding kinds by (simp add: call_kinds_def)
  have "length (description_line d ?i x) \<le> line_bound n conn" if x: "x \<in> set (cn_sent s)" for x
    by (rule line_within [OF texts plain [OF x] _ ids]) (use stream_run_offset [OF run] got x call in \<open>force simp: call_of_def\<close>)+
  then have "(\<Sum>x\<leftarrow>cn_sent s. length (description_line d ?i x)) \<le> length (cn_sent s) * line_bound n conn"
    using sum_list_mono [of "cn_sent s" "\<lambda>x. length (description_line d ?i x)" "\<lambda>_. line_bound n conn"] by (simp add: sum_list_triv)
  also have "\<dots> \<le> (length chunks + length ms + 4) * line_bound n conn" using count by (rule mult_le_mono1)
  finally show ?thesis .
qed

lemma call_text:
  assumes call: "\<forall>m \<in> set (call_of u ms hangup). wf_typed m \<and> length (payload (envelope_of m)) \<le> pc" "\<forall>m \<in> set ms. call_message m"
    and sent: "concat chunks = concat (map (frame_bytes \<circ> envelope_of) (call_of u ms hangup))"
    and reads: "pc \<le> ce_capacity conn" "list_all (\<lambda>bs. bs \<noteq> [] \<and> length bs \<le> ce_capacity conn) chunks"
      "2 * length (concat chunks) + 2 \<le> U64_MAX" "\<forall>n. ce_accepts conn n"
    and ids: "conn_instance (ce_id conn) \<le> U64_MAX" "conn_sequence (ce_id conn) \<le> U64_MAX"
    and texts: "texts_within n (ce_debug env)"
    and s: "receive_from conn pc PCM_8_KHZ (map ReadBytes chunks @ [ReadBytes []]) = Some (Some (s, True))"
  shows "event_text env (ce_id conn) (cn_sent s) \<le> (length chunks + length ms + 4) * line_bound n conn"
proof -
  have "event_text env (ce_id conn) (cn_sent s) \<le> (\<Sum>x\<leftarrow>cn_sent s. length (description_line (ce_debug env) (ce_id conn) x))"
    unfolding event_text_def of_connection_def by (rule sum_list_filter_le_nat)
  also have "\<dots> \<le> (length chunks + length ms + 4) * line_bound n conn"
    by (rule call_lines [OF call _ sent reads ids texts s]) (simp add: accepts_pcm8)
  finally show ?thesis .
qed

end
