(* ===== verification/Example_Recording.thy ===== *)
theory Example_Recording
  imports Call_Text
begin

text \<open>
  The example program of the receiver (\<open>crates/phonowire-receiver/examples/record_incoming.rs\<close>): one
  literal call recorded into memory.  \<open>record_call\<close> is modelled over the results of
  \<open>recv_timeout\<close>; when the list of results ends nothing arrives any more and the wait runs out.
  The standard library's \<open>Vec<u8>\<close> and \<open>Cursor<Vec<u8>>\<close> are the second implementation of the
  recorder's outputs.
\<close>

section \<open>Outputs in memory\<close>

record cursor =
  cur_data :: bytes
  cur_pos :: nat

text \<open>Writing at the position replaces what is there, extends the vector, and fills a gap with zeros.\<close>

definition cursor_write :: "cursor \<Rightarrow> bytes \<Rightarrow> cursor \<times> (io_error + nat)" where
  "cursor_write c bs =
     (let data = cur_data c @ replicate (cur_pos c - length (cur_data c)) 0 in
      (\<lparr>cur_data = take (cur_pos c) data @ bs @ drop (cur_pos c + length bs) data, cur_pos = cur_pos c + length bs\<rparr>,
       Inr (length bs)))"

definition cursor_sink :: "cursor sink" where
  "cursor_sink = \<lparr>out_write = cursor_write, out_rewind = \<lambda>c. (c\<lparr>cur_pos := 0\<rparr>, Inr ()), out_flush = \<lambda>c. (c, Inr ())\<rparr>"

text \<open>A vector only grows at its end; it is never rewound.\<close>

definition vec_sink :: "bytes sink" where
  "vec_sink = \<lparr>out_write = \<lambda>v bs. (v @ bs, Inr (length bs)), out_rewind = \<lambda>v. (v, Inr ()), out_flush = \<lambda>v. (v, Inr ())\<rparr>"

definition memory_outputs :: "(bytes, cursor, bytes) outputs" where
  "memory_outputs = \<lparr>wire_out = vec_sink, wave_out = cursor_sink, events_out = vec_sink\<rparr>"

type_synonym memory_recording = "(bytes, cursor, bytes) Recording"

section \<open>The program\<close>

definition EXAMPLE_INPUT :: bytes where
  "EXAMPLE_INPUT =
     [1, 0, 16, 1, 2, 3, 4, 5, 6, 7, 8, 9, 10, 11, 12, 13, 14, 15, 16, 0x10, 0, 4, 0x34, 0x12, 0xcc, 0xed, 0, 0, 0]"

definition EXAMPLE_PCM :: bytes where
  "EXAMPLE_PCM = [0x34, 0x12, 0xcc, 0xed]"

datatype call_error = CallRecv RecvTimeoutError | CallRecording RecordingError

fun record_until_end ::
  "debug_texts \<Rightarrow> memory_recording \<Rightarrow> (RecvTimeoutError + Record) list \<Rightarrow> (memory_recording \<times> (call_error + unit)) effect" where
  "record_until_end d r [] = yields (r, Inl (CallRecv Timeout))"
| "record_until_end d r (Inl e # rs) = yields (r, Inl (CallRecv e))"
| "record_until_end d r (Inr x # rs) =
     and_then (record_one memory_outputs d r x) (\<lambda>(r, res).
       case res of
         Inl e \<Rightarrow> yields (r, Inl (CallRecording e))
       | Inr _ \<Rightarrow> if is_ended (rec_kind x) then yields (r, Inr ()) else record_until_end d r rs)"

definition check_call :: "memory_recording \<Rightarrow> RecordingSummary \<Rightarrow> (call_error + RecordingSummary) effect" where
  "check_call r z =
     (if wire r = EXAMPLE_INPUT \<and> drop 44 (cur_data (wave r)) = EXAMPLE_PCM \<and> events r \<noteq> [] then yields (Inr z) else Some None)"

definition record_call :: "debug_texts \<Rightarrow> (RecvTimeoutError + Record) list \<Rightarrow> (call_error + RecordingSummary) effect" where
  "record_call d rs =
     (case rs of
        [] \<Rightarrow> yields (Inl (CallRecv Timeout))
      | Inl e # _ \<Rightarrow> yields (Inl (CallRecv e))
      | Inr connected # rs \<Rightarrow>
          and_then (Recording_new memory_outputs (connection connected) [] \<lparr>cur_data = [], cur_pos = 0\<rparr> []) (\<lambda>(r, res).
          case res of Inl e \<Rightarrow> yields (Inl (CallRecording e)) | Inr _ \<Rightarrow>
            and_then (record_one memory_outputs d r connected) (\<lambda>(r, res).
            case res of Inl e \<Rightarrow> yields (Inl (CallRecording e)) | Inr _ \<Rightarrow>
              and_then (record_until_end d r rs) (\<lambda>(r, res).
              case res of Inl e \<Rightarrow> yields (Inl e) | Inr _ \<Rightarrow>
                and_then (finish_recording memory_outputs r) (\<lambda>(r, res).
                case res of Inl e \<Rightarrow> yields (Inl (CallRecording e)) | Inr z \<Rightarrow> check_call r z)))))"

section \<open>Memory keeps the contract of a recorder's outputs\<close>

definition cursor_ok :: "cursor \<Rightarrow> bool" where
  "cursor_ok c \<longleftrightarrow> cur_pos c \<le> length (cur_data c)"

definition cursor_content :: "cursor \<Rightarrow> bytes" where
  "cursor_content c = take (cur_pos c) (cur_data c)"

definition cursor_beyond :: "cursor \<Rightarrow> bytes" where
  "cursor_beyond c = drop (cur_pos c) (cur_data c)"

lemmas cursor_defs = cursor_sink_def cursor_write_def cursor_ok_def cursor_content_def cursor_beyond_def

definition vec_content :: "bytes \<Rightarrow> bytes" where
  "vec_content v = v"

definition vec_ok :: "bytes \<Rightarrow> bool" where
  "vec_ok v \<longleftrightarrow> True"

definition no_patience :: "'w \<Rightarrow> nat" where
  "no_patience w = 0"

interpretation vec: writer vec_sink vec_content no_patience vec_ok
  by unfold_locales (auto simp: vec_sink_def vec_content_def vec_ok_def no_patience_def)

interpretation cur: seekable cursor_sink cursor_content no_patience cursor_ok cursor_beyond
  by unfold_locales (auto simp: cursor_defs no_patience_def Let_def min_def add.commute)

interpretation in_memory: recorder memory_outputs vec_content no_patience vec_ok cursor_content no_patience cursor_ok
    cursor_beyond vec_content no_patience vec_ok
  unfolding recorder_def memory_outputs_def using vec.writer_axioms cur.seekable_axioms by simp

text \<open>Memory accepts every write that the counters can count.\<close>

definition willing :: "'w sink \<Rightarrow> bool" where
  "willing k \<longleftrightarrow> (\<forall>w bs. \<exists>w'. out_write k w bs = (w', Inr (length bs)))"

lemma willing_memory: "willing vec_sink" "willing cursor_sink"
  by (simp_all add: willing_def vec_sink_def cursor_sink_def cursor_write_def Let_def)

lemma willing_count:
  assumes "willing k" "c + length bs \<le> U64_MAX"
  shows "\<exists>w'. write_count k w bs c = Some (Some (w', c + length bs, Inr ()))"
proof -
  obtain w' where "out_write k w bs = (w', Inr (length bs))" using assms(1) by (auto simp: willing_def)
  then have "write_loop k w bs c = Some (Some (if bs = [] then w else w', c + length bs, Inr ()))"
    by (simp add: write_loop.simps [of k w bs] write_loop.simps [of k w' "[]"])
  then show ?thesis using assms(2) by (simp add: write_count_def try_from_def checked_add_def)
qed

lemma memory_record_one:
  assumes hold: "in_memory.holds Khz8 r W A" and valid: "validate r x = Some (Inr nxt)"
    and fits: "length W + length (wire_part (rec_kind x)) \<le> U64_MAX"
      "event_bytes (summary r) + length (description_line d (rec_id r) x) \<le> U64_MAX"
  obtains r' where "record_one memory_outputs d r x = Some (Some (r', Inr ()))"
    "event_bytes (summary r') = event_bytes (summary r) + length (description_line d (rec_id r) x)" "rec_id r' = rec_id r"
    "length (events r') = length (events r) + length (description_line d (rec_id r) x)"
proof -
  have w: "wire_bytes (summary r) = length W" "audio_bytes (summary r) = length A" "36 + length A \<le> U32_MAX"
    using hold by (auto simp: in_memory.holds_def)
  have audio: "audio_bytes (summary r) + length (audio_part (rec_kind x)) \<le> U64_MAX"
    using validate_audio [OF valid] w by (auto simp: U32_MAX_def U64_MAX_def)
  obtain r1 stg where p: "write_payload memory_outputs r (rec_kind x) = Some (Some (r1, stg, Inr ()))"
    "events r1 = events r" "event_bytes (summary r1) = event_bytes (summary r)" "rec_id r1 = rec_id r"
    using willing_count [OF willing_memory(1), of "wire_bytes (summary r)" "wire_part (rec_kind x)" "wire r"]
      willing_count [OF willing_memory(2), of "audio_bytes (summary r)" "audio_part (rec_kind x)" "wave r"] fits(1) w(1) audio
    by (cases "rec_kind x") (auto simp: write_payload_def memory_outputs_def yields_def)
  let ?t = "as_bytes (description_line d (rec_id r) x)"
  have t: "length ?t = length (description_line d (rec_id r) x)" by (simp add: as_bytes_def)
  obtain e where e: "write_count vec_sink (events r1) ?t (event_bytes (summary r1)) = Some (Some (e, event_bytes (summary r1) + length ?t, Inr ()))"
    using willing_count [OF willing_memory(1), of "event_bytes (summary r1)" ?t "events r1"] fits(2) p(3) t by auto
  have ev: "length e = length (events r) + length ?t"
    by (rule vec.write_count_accepts [of "events r1" ?t "event_bytes (summary r1)"]) (use e p(2) in \<open>auto simp: vec_content_def vec_ok_def\<close>)
  let ?r3 = "r1\<lparr>events := e, summary := (summary r1)\<lparr>event_bytes := event_bytes (summary r1) + length ?t\<rparr>\<rparr>"
  have "record_one memory_outputs d r x = Some (Some (record_accepted ?r3 x nxt, Inr ()))"
    using valid p(1,4) e by (simp add: record_one_def write_description_def memory_outputs_def yields_def)
  then show ?thesis
    by (rule that) (auto simp: record_accepted_def Let_def p(3,4) t ev split: RecordKind.split)
qed

section \<open>The literal call\<close>

lemma stream_run_rates:
  assumes "\<forall>x \<in> set xs. \<forall>u rate b. rec_kind x = RAudio u rate b \<longrightarrow> ok rate = ok' rate"
  shows "stream_run i ok pos xs = stream_run i ok' pos xs"
  using assms
proof (induction xs arbitrary: pos)
  case (Cons x xs)
  obtain st lo got where pos: "pos = (st, lo, got)" by (cases pos)
  have "phase_step ok st (rec_kind x) = phase_step ok' st (rec_kind x)"
    using Cons.prems by (cases "(ok, st, rec_kind x)" rule: phase_step.cases) auto
  then have "stream_step i ok pos x = stream_step i ok' pos x" by (simp only: pos stream_step.simps)
  then show ?case using Cons by (auto split: option.split)
qed simp

text \<open>Recording in memory what follows the protocol up to its end.\<close>

lemma record_until_end_protocol:
  assumes "in_memory.holds Khz8 r W A" "at_position r i pos" "fst pos \<noteq> RecEnded"
    "stream_run i (accepts PCM_8_KHZ) pos xs = Some (RecEnded, lo, got)"
    "length W + length (concat (map (wire_part \<circ> rec_kind) xs)) \<le> U64_MAX"
    "length A + length (concat (map (audio_part \<circ> rec_kind) xs)) + 36 \<le> U32_MAX"
    "event_bytes (summary r) + (\<Sum>x\<leftarrow>xs. length (description_line d i x)) \<le> U64_MAX"
  shows "\<exists>r'. record_until_end d r (map Inr xs @ rs) = Some (Some (r', Inr ())) \<and> rec_state r' \<noteq> RecFailed \<and>
    in_memory.holds Khz8 r' (W @ concat (map (wire_part \<circ> rec_kind) xs)) (A @ concat (map (audio_part \<circ> rec_kind) xs)) \<and>
    events r' \<noteq> [] \<and> xs \<noteq> [] \<and>
    (\<forall>u reason. rec_kind (last xs) = REnded u reason \<longrightarrow> rec_end (summary r') = Observed (TerminalKind_from reason))"
  using assms
proof (induction xs arbitrary: r W A pos)
  case (Cons x xs)
  obtain pos1 where step: "stream_step i (accepts PCM_8_KHZ) pos x = Some pos1"
    and rest: "stream_run i (accepts PCM_8_KHZ) pos1 xs = Some (RecEnded, lo, got)"
    using Cons.prems(4) by (auto split: option.splits)
  obtain st' lo' got' where pos1: "pos1 = (st', lo', got')" by (cases pos1)
  obtain st0 lo0 got0 where pos: "pos = (st0, lo0, got0)" by (cases pos)
  have small: "audio_bytes (summary r) = length A" "36 + length A \<le> U32_MAX" using Cons.prems(1) by (auto simp: in_memory.holds_def)
  have valid: "validate r x = Some (Inr (fst pos1))"
    using validate_protocol [OF Cons.prems(2) step [unfolded pos1]] small Cons.prems(6) by (simp add: pos1)
  have id: "rec_id r = i" using Cons.prems(2) by (simp add: at_position_def)
  obtain r' where one: "record_one memory_outputs d r x = Some (Some (r', Inr ()))"
    "event_bytes (summary r') = event_bytes (summary r) + length (description_line d i x)"
    "length (events r') = length (events r) + length (description_line d i x)"
    by (rule memory_record_one [OF Cons.prems(1) valid, of d]) (use Cons.prems(5,7) id in auto)
  have hold': "in_memory.holds Khz8 r' (W @ wire_part (rec_kind x)) (A @ audio_part (rec_kind x))"
    using in_memory.record_one_holds [OF Cons.prems(1), of d x] one(1) by auto
  have line: "0 < length (description_line d i x)" by (simp add: description_line_def)
  note at' = in_memory.accepted_position [OF Cons.prems(2) step one(1) Cons.prems(1) hold' valid]
  have ended: "is_ended (rec_kind x) \<longleftrightarrow> st' = RecEnded"
    using phase_step_ended [of "accepts PCM_8_KHZ"] stream_step_phase [OF step [unfolded pos pos1]] by blast
  show ?case
  proof (cases "st' = RecEnded")
    case True
    then have "xs = []" using rest pos1 stream_run_RecEnded by auto
    then show ?thesis using True one line hold' ended record_one_state [OF one(1)] by (auto simp: yields_def)
  next
    case False
    then show ?thesis
      using Cons.IH [OF hold' at' _ rest] one line ended Cons.prems(5-7) pos1 by (auto simp: yields_def)
  qed
qed auto

lemma memory_finish:
  assumes hold: "in_memory.holds Khz8 r W A" and alive: "rec_state r \<noteq> RecFailed"
  obtains r' where "finish_recording memory_outputs r = Some (Some (r', Inr ((summary r)\<lparr>patch_bytes := 44\<rparr>)))"
    "wire r' = W" "cur_data (wave r') = header_of (length A) Khz8 @ A" "events r' = events r"
proof -
  have size: "36 + audio_bytes (summary r) \<le> U32_MAX" "patch_bytes (summary r) = 0" "sample_rate r = Khz8"
    using hold by (auto simp: in_memory.holds_def)
  let ?h = "header_of (audio_bytes (summary r)) Khz8"
  obtain b where w: "write_count cursor_sink ((wave r)\<lparr>cur_pos := 0\<rparr>) ?h 0 = Some (Some (b, 44, Inr ()))"
    using willing_count [OF willing_memory(2), of 0 ?h "(wave r)\<lparr>cur_pos := 0\<rparr>"] by (auto simp: U64_MAX_def)
  let ?r' = "r\<lparr>wave := b, summary := (summary r)\<lparr>patch_bytes := 44\<rparr>\<rparr>"
  have fin: "finish_recording memory_outputs r = Some (Some (?r', Inr ((summary r)\<lparr>patch_bytes := 44\<rparr>)))"
    using size alive w
    by (simp add: finish_recording_def wave_header_eval memory_outputs_def cursor_sink_def vec_sink_def yields_def finish_flushes_def)
  moreover have "wire ?r' = W" "cur_data (wave ?r') = header_of (length A) Khz8 @ A"
    using in_memory.finish_recording_holds [OF hold alive] fin
    by (auto simp: vec_content_def cursor_content_def cursor_beyond_def)
  ultimately show ?thesis using that by simp
qed

lemma memory_new:
  obtains r where "Recording_new memory_outputs i [] \<lparr>cur_data = [], cur_pos = 0\<rparr> [] = Some (Some (r, Inr ()))"
    "in_memory.holds Khz8 r [] []" "rec_state r = AwaitingConnection" "rec_id r = i" "event_bytes (summary r) = 0"
proof -
  let ?h = "header_of 0 Khz8" and ?c = "\<lparr>cur_data = [], cur_pos = 0\<rparr>"
  obtain b where w: "write_count cursor_sink ?c ?h 0 = Some (Some (b, 44, Inr ()))"
    using willing_count [OF willing_memory(2), of 0 ?h ?c] by (auto simp: U64_MAX_def)
  let ?r = "\<lparr>rec_id = i, sample_rate = Khz8, wire = [], wave = b, events = [], rec_state = AwaitingConnection, last_event_offset = 0,
      summary = RecordingSummary_default\<lparr>header_bytes := 44\<rparr>\<rparr>"
  have new: "Recording_new memory_outputs i [] ?c [] = Some (Some (?r, Inr ()))"
    using w by (simp add: Recording_new_def with_sample_rate_def wave_header_eval memory_outputs_def RecordingSummary_default_def U32_MAX_def yields_def)
  have "in_memory.holds Khz8 ?r [] []"
    using in_memory.with_sample_rate_holds [of "[]" ?c "[]" i Khz8] new
    by (auto simp: Recording_new_def vec_ok_def vec_content_def cursor_ok_def cursor_content_def cursor_beyond_def)
  then show ?thesis using that [of ?r] new by (simp add: RecordingSummary_default_def)
qed

definition example_identity :: Uuid where
  "example_identity = Uuid [1, 2, 3, 4, 5, 6, 7, 8, 9, 10, 11, 12, 13, 14, 15, 16]"

lemma example_input_call:
  "concat (map (frame_bytes \<circ> envelope_of) (call_of example_identity [MAudio Khz8 (AudioPayload EXAMPLE_PCM)] True)) = EXAMPLE_INPUT"
  by (simp add: call_of_def example_identity_def EXAMPLE_PCM_def EXAMPLE_INPUT_def frame_bytes_def wire_consts to_be_bytes16_def)

lemma record_call_first:
  assumes "\<not> is_ended (rec_kind x)"
    "Recording_new memory_outputs (connection x) [] \<lparr>cur_data = [], cur_pos = 0\<rparr> [] = Some (Some (r, Inr u))"
  shows "record_call d (Inr x # rs) =
    and_then (record_until_end d r (Inr x # rs)) (\<lambda>(r, res).
      case res of Inl e \<Rightarrow> yields (Inl e) | Inr _ \<Rightarrow>
        and_then (finish_recording memory_outputs r) (\<lambda>(r, res).
          case res of Inl e \<Rightarrow> yields (Inl (CallRecording e)) | Inr z \<Rightarrow> check_call r z))"
  using assms by (auto simp: record_call_def and_then_def yields_def split: option.split sum.split)

text \<open>
  The example's bytes, cut into any reads, give records that \<open>record_call\<close> turns into a summary: no
  assertion fails, all twenty-nine bytes and four sample bytes are there, and the end is the peer's.
\<close>

theorem example_call_recorded:
  assumes chunks: "concat chunks = EXAMPLE_INPUT" "[] \<notin> set chunks"
    and conn: "ce_capacity conn = READ_BYTES" "\<forall>n. ce_accepts conn n"
      "conn_instance (ce_id conn) \<le> U64_MAX" "conn_sequence (ce_id conn) \<le> U64_MAX"
    and texts: "texts_within n d" "(length chunks + 5) * line_bound n conn \<le> U64_MAX"
  shows "\<exists>s z. receive_from conn 320 ALL_KNOWN_RATES (map ReadBytes chunks @ [ReadBytes []]) = Some (Some (s, True)) \<and>
    record_call d (map Inr (cn_sent s) @ rs) = Some (Some (Inr z)) \<and>
    rec_end z = Observed TkTerminate \<and> wire_bytes z = 29 \<and> audio_bytes z = 4"
proof -
  let ?i = "ce_id conn" and ?ms = "[MAudio Khz8 (AudioPayload EXAMPLE_PCM)]"
  have call: "\<forall>m \<in> set (call_of example_identity ?ms True). wf_typed m \<and> length (payload (envelope_of m)) \<le> 320"
    "\<forall>m \<in> set ?ms. call_message m" "accepts ALL_KNOWN_RATES Khz8"
    by (simp_all add: call_of_def example_identity_def EXAMPLE_PCM_def MAX_BODY_BYTES_def accepts_all)
  have sent: "concat chunks = concat (map (frame_bytes \<circ> envelope_of) (call_of example_identity ?ms True))"
    by (simp only: chunks example_input_call)
  have small: "length bs \<le> 29" if "bs \<in> set chunks" for bs
    using member_le_sum_list [of "length bs" "map length chunks"] that arg_cong [OF chunks(1), of length]
    by (simp add: length_concat EXAMPLE_INPUT_def)
  have reads: "320 \<le> ce_capacity conn" "list_all (\<lambda>bs. bs \<noteq> [] \<and> length bs \<le> ce_capacity conn) chunks"
    "2 * length (concat chunks) + 2 \<le> U64_MAX"
    using small chunks conn(1) by (force simp: list_all_iff READ_BYTES_def EXAMPLE_INPUT_def U64_MAX_def)+
  obtain s st lo where s: "receive_from conn 320 ALL_KNOWN_RATES (map ReadBytes chunks @ [ReadBytes []]) = Some (Some (s, True))"
    and kinds: "filter (\<lambda>k. \<not> is_wire k) (map rec_kind (cn_sent s)) = RConnected (ce_peer conn) # call_kinds conn example_identity ?ms True"
    and whole: "transport s = concat chunks"
    and run: "stream_run ?i (accepts ALL_KNOWN_RATES) (AwaitingConnection, 0, 0) (cn_sent s) = Some (st, lo, wire_queued (cn_progress s))"
    by (rule call_observed [OF call sent reads conn(2)])
  have lines: "(\<Sum>x\<leftarrow>cn_sent s. length (description_line d ?i x)) \<le> U64_MAX"
    using call_lines [OF call sent reads conn(2-4) texts(1) s] texts(2) by (simp add: algebra_simps)
  have mem: "rec_kind x \<in> set (RConnected (ce_peer conn) # call_kinds conn example_identity ?ms True)"
    if "x \<in> set (cn_sent s)" "\<not> is_wire (rec_kind x)" for x
    unfolding kinds [symmetric] using that by simp
  have run8: "stream_run ?i (accepts PCM_8_KHZ) (AwaitingConnection, 0, 0) (cn_sent s) = Some (st, lo, wire_queued (cn_progress s))"
    unfolding run [symmetric]
    by (rule stream_run_rates) (use mem in \<open>fastforce simp: call_kinds_def accepts_all accepts_pcm8\<close>)
  have "REnded (Some example_identity) EndTerminate \<in> set (filter (\<lambda>k. \<not> is_wire k) (map rec_kind (cn_sent s)))"
    unfolding kinds by (simp add: call_kinds_def)
  then obtain x where x: "x \<in> set (cn_sent s)" "rec_kind x = REnded (Some example_identity) EndTerminate" by auto
  have st: "st = RecEnded" by (rule stream_run_ended(1) [OF run x(1)]) (simp add: x(2) is_ended_def)
  have last: "rec_kind (last (cn_sent s)) = REnded (Some example_identity) EndTerminate"
    using stream_run_ended(2) [OF run x(1)] x(2) by (simp add: is_ended_def)
  have pcm: "concat (map (audio_part \<circ> rec_kind) (cn_sent s)) = EXAMPLE_PCM"
    using audio_of_observed [of "map rec_kind (cn_sent s)"] call_kinds_audio [of "ce_peer conn" conn example_identity ?ms True]
    by (simp add: kinds o_def)
  have wires: "concat (map (wire_part \<circ> rec_kind) (cn_sent s)) = EXAMPLE_INPUT" using whole chunks(1) by (simp add: transport_def)
  obtain x0 xs where xs: "cn_sent s = x0 # xs" using x(1) by (cases "cn_sent s") auto
  have x0: "connection x0 = ?i" "\<not> is_ended (rec_kind x0)"
    using run8 xs by (cases "rec_kind x0"; auto simp: stream_step.simps Let_def is_ended_def split: if_splits option.splits)+
  obtain r where r: "Recording_new memory_outputs ?i [] \<lparr>cur_data = [], cur_pos = 0\<rparr> [] = Some (Some (r, Inr ()))"
    "in_memory.holds Khz8 r [] []" "rec_state r = AwaitingConnection" "rec_id r = ?i" "event_bytes (summary r) = 0"
    by (rule memory_new)
  have at: "at_position r ?i (AwaitingConnection, 0, 0)"
    by (rule in_memory.new_position [OF r(1) [unfolded Recording_new_def] r(2-4)])
  obtain r' where r': "record_until_end d r (map Inr (cn_sent s) @ rs) = Some (Some (r', Inr ()))" "rec_state r' \<noteq> RecFailed"
    "in_memory.holds Khz8 r' EXAMPLE_INPUT EXAMPLE_PCM" "rec_end (summary r') = Observed TkTerminate"
    "events r' \<noteq> []"
    using record_until_end_protocol [OF r(2) at _ run8 [unfolded st], of d rs] lines r(5) last
    unfolding wires pcm by (auto simp: EXAMPLE_INPUT_def EXAMPLE_PCM_def U64_MAX_def U32_MAX_def)
  obtain r2 where fin: "finish_recording memory_outputs r' = Some (Some (r2, Inr ((summary r')\<lparr>patch_bytes := 44\<rparr>)))"
    "wire r2 = EXAMPLE_INPUT" "cur_data (wave r2) = header_of (length EXAMPLE_PCM) Khz8 @ EXAMPLE_PCM" "events r2 = events r'"
    by (rule memory_finish [OF r'(3,2)])
  have "record_call d (map Inr (cn_sent s) @ rs) = Some (Some (Inr ((summary r')\<lparr>patch_bytes := 44\<rparr>)))"
    using record_call_first [OF x0(2), of r "()" d "map Inr xs @ rs"] r(1) r'(1,5) fin x0(1) xs by (simp add: check_call_def yields_def)
  moreover have "wire_bytes (summary r') = 29" "audio_bytes (summary r') = 4"
    using r'(3) by (auto simp: in_memory.holds_def EXAMPLE_INPUT_def EXAMPLE_PCM_def)
  ultimately show ?thesis using s r'(4) by auto
qed

end
