(* ===== verification/Spec2Isabelle.thy ===== *)
theory Spec2Isabelle
  imports Receiver_Run Future_Refinement Capture_Main Example_Session Example_Recording
begin

text \<open>
  A verification of Phonowire: the AudioSocket codec, the receiver built on it, and the capture
  application that records the calls the receiver takes.

  \<^bold>\<open>The program.\<close>  A peer opens a TCP connection and sends frames of one type byte, a big-endian
  length and a payload.  The codec (\<open>crates/phonowire-audiosocket\<close>) encodes and incrementally decodes
  frames, gives them types and runs the policy of an incoming session.  The receiver
  (\<open>crates/phonowire-receiver\<close>) accepts connections on one worker thread, runs a task for each, and
  hands owned records to a consumer through a bounded queue, against a shared account of retained
  bytes; a task that lacks a queue slot or bytes waits for its turn.  Any connection can be closed by
  its identity, and the whole receiver be stopped.  The capture application
  (\<open>apps/phonowire-capture\<close>) consumes the records and keeps, for each connection, the transport
  bytes, a WAVE file, a list of events and a summary, within configured limits, and a status for
  the run.

  \<^bold>\<open>Codec.\<close>
  \<^item> \<open>Wire_Types\<close>: \<open>wire_type.rs\<close>, \<open>audio.rs\<close>, \<open>message.rs\<close>, \<open>error.rs\<close>, \<open>envelope.rs\<close> (data and checked
    constructors); \<open>Frame_Encoder\<close>: \<open>encoder.rs\<close> and the typed conversion of an envelope.
  \<^item> \<open>Frame_Decoder\<close>: \<open>decoder.rs\<close>.  The locale \<open>stream_decoder\<close> is what a client of a decoder relies
    on, interpreted by both decoders; both equal a reference parser over the whole byte string,
    whatever the chunks, and decoding inverts encoding.
  \<^item> \<open>Incoming_Session\<close>: \<open>session.rs\<close>, the policy as a state machine and the contract of its reports.
  \<^item> \<open>Error_Texts\<close>: the \<open>Display\<close> implementations of both crates; a text identifies its error.
  \<^item> \<open>Example_Session\<close>: \<open>examples/incoming_session.rs\<close>, which succeeds for every cut of its bytes.

  \<^bold>\<open>Receiver.\<close>
  \<^item> \<open>Receiver_Base\<close>: \<open>config.rs\<close> and identities; \<open>Receiver_Record\<close>: \<open>record.rs\<close>.
  \<^item> \<open>Byte_Budget\<close>: \<open>memory.rs\<close>.  Reserving, tracking, untracking and releasing bytes are separate
    steps of a relation that other threads interleave with; the account and every tracker stay exact.
  \<^item> \<open>Record_Handoff\<close>: \<open>handoff.rs\<close>, a bounded FIFO with its wake-ups.
  \<^item> \<open>Link_Order\<close>, \<open>Task_Scheduler\<close>, \<open>Credit_Turns\<close>: \<open>scheduler.rs\<close>.  The doubly linked order refines a
    list; every scheduler operation keeps the run queue, the waiting orders and the states consistent;
    across threads, a task at the head of a waiting order is runnable or will be woken once its resource
    is there.
  \<^item> \<open>Task_Context\<close>, \<open>Task_Polls\<close>: the polls a task makes, and their laws over everything shared: the
    states of all tasks and, by ownership of charges, all retained storage.
  \<^item> \<open>Connection_Task\<close>, \<open>Connection_Stream\<close>: the task of \<open>connection.rs\<close> as a sequential function over
    completed awaits, and what it hands off: \<open>stream_run\<close> is the record protocol, \<open>stream_report\<close> the
    observations a byte stream deserves.
  \<^item> \<open>Connection_Future\<close>: the same function as the future the worker polls, suspended at each of its
    awaits with the locals that live there; a poll ends, because every completed await uses a step.
    \<open>Future_Refinement\<close>: however it is polled, it hands off what the sequential function hands off.
  \<^item> \<open>Ordered_Map\<close>, \<open>Connection_Controls\<close>, \<open>Run_Summary\<close>, \<open>Receiver_Driver\<close>, \<open>Driver_Invariant\<close>,
    \<open>Connection_Tasks\<close>, \<open>Receiver_Run\<close>: \<open>driver.rs\<close>.  The worker invariant is kept by every operation and
    rules out every panic; what the driver relies on of a future is the locale \<open>connection_tasks\<close>,
    interpreted on \<open>Connection_Future\<close>.  A whole run accounts for every connection, every byte read and
    every byte retained, and a stop ends it.
  \<^item> \<open>Wave_Recording\<close>: \<open>recording.rs\<close>.  The locales \<open>writer\<close>, \<open>seekable\<close> and \<open>recorder\<close> are the contract of
    the outputs; they are interpreted on the application's capped files (\<open>Limited_File\<close>) and on vectors
    and cursors in memory (\<open>Example_Recording\<close>, with \<open>examples/record_incoming.rs\<close>).

  \<^bold>\<open>Capture application\<close> (\<open>main.rs\<close>).
  \<^item> \<open>Capture_Config\<close>: the command line; \<open>Capture_Stop\<close>: the one-shot stop; \<open>Capture_App\<close>: the main loop,
    finalization, status and verdict; \<open>Capture_Main\<close>: starting, and the whole program.
  \<^item> \<open>Capture_Invariant\<close>, \<open>Capture_Complete\<close>: the disk stays within the checked bound whatever happens,
    and success means that everything received is on the disk.
  \<^item> \<open>Capture_Stream\<close>, \<open>Capture_Success\<close>: the recorder accepts what tasks hand off, and a run over
    clean calls succeeds; \<open>Capture_Call\<close>, \<open>Call_Text\<close> and the theorem below compose encoder, network,
    task, recorder and application.

  \<open>Phonowire_Prelude\<close> holds the types of machine integers with their bounds, checked arithmetic,
  slices and the lemma collections that the other theories share.

  \<^bold>\<open>Conventions.\<close>  Bytes are words of eight bits.  Wider integers are words where bits matter and
  natural numbers with their bound written out (\<open>checked_add U64_MAX\<close>) where the code checks.  \<open>usize\<close>
  has 64 bits.  An operation that can panic returns \<open>None\<close> for a panic; a loop that might not end is a
  \<open>partial_function\<close> into \<open>effect\<close>, where \<open>None\<close> is no end and \<open>Some None\<close> a panic, and its totality is
  proved.  No fuel is used: recursion is structural, or has a measure, or is such a loop.
  \<open>Result\<close> is a sum with the error on the left.  Results of system calls are arguments: \<open>wr\<close> for waking
  the poller, records of functions or scripts of answers for the rest.

  \<^bold>\<open>What is relied on.\<close>
  \<^item> Operations of one component are atomic where the code holds a lock, and steps of different
    threads interleave between them.  In the worker, other threads act at the points where it polls.
  \<^item> Storage moves by ownership: a thread drops only what it received or copied (\<open>wk_outside\<close>), and what
    it owned of the account before the run is an argument of \<open>run_with\<close>.
  \<^item> The payload capacity does not exceed the account (\<open>bind_with_profile\<close> checks it).  A copy can then
    always be granted in the end.
  \<^item> A file system creates names exclusively and appends what it accepts; it may cut, refuse or
    interrupt any call, but does not interrupt for ever (\<open>patience\<close>).
  \<^item> Success theorems speak of a calm system (\<open>calm_env\<close>), in which no call fails, and of limits that
    suffice; safety theorems do not.

  \<^bold>\<open>Not modelled.\<close>  \<open>mio\<close>, sockets, threads, mutexes, condition variables and clocks, as they are calls
  into libraries; the \<open>Debug\<close> texts that the recorder prints for instants, identities and errors,
  which are parameters; the set-up of sockets and threads in the receiver's example; tests, manifests and
  continuous integration.  The capture application's threads appear as the sequence of records
  and signals it receives and as the results of joining them; signals during finalization are
  those at the end of that sequence.
\<close>

section \<open>One call, end to end\<close>

lemma encoded_stream:
  assumes "list_all2 (\<lambda>m (dst, n, out). encode m dst = Some (Inr n, out)) ms written" "\<forall>m \<in> set ms. wf_typed m"
  shows "concat (map (\<lambda>(dst, n, out). take n out) written) = concat (map (frame_bytes \<circ> envelope_of) ms)"
  using assms by (induction rule: list_all2_induct) (auto simp: encode_Inr_frame simp del: envelope_of.simps)

text \<open>
  C1: One ordinary call, end to end.  The peer's encoder writes an identity, any 8 kHz audio and
  supported digits, and hangs up with a Terminate message or by closing; the network cuts the bytes
  into reads as it likes.  With a consumer that keeps up, the connection task reports the call
  and the capture application, given those records, enough room for its files (counted from the
  reads, the messages and the longest line, not from what happens) and disks that work, ends with
  success: \<open>wire.bin\<close> holds exactly the bytes the encoder wrote and \<open>audio.wav\<close> is a WAVE file
  of exactly the samples sent, with a header that declares them.
\<close>

theorem call_is_captured:
  assumes "list_all2 (\<lambda>m (dst, n, out). encode m dst = Some (Inr n, out)) (call_of u ms hangup) written"
    and "concat chunks = concat (map (\<lambda>(dst, n, out). take n out) written)"
    and "\<forall>m \<in> set (call_of u ms hangup). wf_typed m \<and> length (payload (envelope_of m)) \<le> pc" "\<forall>m \<in> set ms. call_message m"
    and "pc \<le> ce_capacity conn" "list_all (\<lambda>bs. bs \<noteq> [] \<and> length bs \<le> ce_capacity conn) chunks"
      "2 * length (concat chunks) + 2 \<le> U64_MAX" "\<forall>n. ce_accepts conn n"
    and "conn_instance (ce_id conn) \<le> U64_MAX" "conn_sequence (ce_id conn) \<le> U64_MAX"
    and "calm_env env" "limits_suffice c" "0 < cfg_run c" "0 < cfg_active c" "\<forall>p \<in> set names. length p \<le> 1"
    and "outcome_clean oc" "oc_worker oc = Some (Inr w)" "\<forall>n \<in> set (run_numbers w). n \<le> U64_MAX"
    and "length (concat chunks) \<le> cfg_file c" "44 + length (call_pcm ms) \<le> cfg_file c" "length (call_pcm ms) + 36 \<le> U32_MAX"
    and "texts_within t (ce_debug env)" "(length chunks + length ms + 4) * line_bound t conn \<le> cfg_file c"
  shows "\<exists>s st. receive_from conn pc PCM_8_KHZ (map ReadBytes chunks @ [ReadBytes []]) = Some (Some (s, True)) \<and>
    capture_run env c sg names (map (\<lambda>x. Received x (Inr ())) (cn_sent s) @ replicate n (SignalArrived (Inr ()))) oc =
      Some (Some (st, Inr ())) \<and>
    map_of (cp_disk st) (connection_dir c (ce_id conn) @ [''audio.wav'']) = Some (header_of (length (call_pcm ms)) Khz8 @ call_pcm ms) \<and>
    map_of (cp_disk st) (connection_dir c (ce_id conn) @ [''wire.bin'']) = Some (concat (map (\<lambda>(dst, n, out). take n out) written))"
proof -
  have sent: "concat chunks = concat (map (frame_bytes \<circ> envelope_of) (call_of u ms hangup))"
    using encoded_stream [OF assms(1)] assms(2,3) by simp
  obtain s where s: "receive_from conn pc PCM_8_KHZ (map ReadBytes chunks @ [ReadBytes []]) = Some (Some (s, True))"
    and files: "event_text env (ce_id conn) (cn_sent s) \<le> cfg_file c \<Longrightarrow>
      \<exists>st. capture_run env c sg names (map (\<lambda>x. Received x (Inr ())) (cn_sent s) @ replicate n (SignalArrived (Inr ()))) oc =
           Some (Some (st, Inr ())) \<and>
         map_of (cp_disk st) (connection_dir c (ce_id conn) @ [''audio.wav'']) = Some (header_of (length (call_pcm ms)) Khz8 @ call_pcm ms) \<and>
         map_of (cp_disk st) (connection_dir c (ce_id conn) @ [''wire.bin'']) = Some (concat chunks)"
    using captured_call [OF assms(3,4) sent assms(5-21), of sg n] by blast
  have "event_text env (ce_id conn) (cn_sent s) \<le> cfg_file c"
    using call_text [OF assms(3,4) sent assms(5-10,22) s] assms(23) by (rule order_trans)
  from files [OF this] s show ?thesis unfolding assms(2) [symmetric] by blast
qed

definition demo_uuid :: Uuid where
  "demo_uuid = Uuid [7, 7, 7, 7, 7, 7, 7, 7, 7, 7, 7, 7, 7, 7, 7, 7]"

definition demo_call :: "TypedMessage list" where
  "demo_call = [MAudio Khz8 (AudioPayload [1, 2])]"

text \<open>The encoder's calls: the destination, the length it returned and the destination afterwards.\<close>

definition demo_written :: "(bytes \<times> nat \<times> bytes) list" where
  "demo_written =
     [([0, 0, 0, 0, 0, 0, 0, 0, 0, 0, 0, 0, 0, 0, 0, 0, 0, 0, 0, 0], 19, [1, 0, 16, 7, 7, 7, 7, 7, 7, 7, 7, 7, 7, 7, 7, 7, 7, 7, 7, 0]),
      ([0, 0, 0, 0, 0], 5, [16, 0, 2, 1, 2]), ([0, 0, 0, 0], 3, [0, 0, 0, 0])]"

definition demo_chunks :: "bytes list" where
  "demo_chunks = [[1, 0, 16, 7], [7, 7, 7, 7, 7, 7, 7, 7, 7, 7, 7, 7, 7, 7, 7, 16, 0], [2, 1], [2, 0, 0, 0]]"

definition demo_conn :: conn_env where
  "demo_conn = (demo_env 1)\<lparr>ce_accepts := (\<lambda>n. True)\<rparr>"

lemma demo_encoded:
  "list_all2 (\<lambda>m (dst, n, out). encode m dst = Some (Inr n, out)) (call_of demo_uuid demo_call True) demo_written"
  by (simp add: call_of_def demo_uuid_def demo_call_def demo_written_def write_frame_def wire_consts try_from_def U16_MAX_def
      to_be_bytes16_def HEADER_BYTES_def store_def copy_from_slice_def put_slice_def)

theorem call_is_captured_witness:
  "\<exists>s st. receive_from demo_conn 16 PCM_8_KHZ (map ReadBytes demo_chunks @ [ReadBytes []]) = Some (Some (s, True)) \<and>
    capture_run demo_capture_env demo_config Signals_new [[''out'']]
      (map (\<lambda>x. Received x (Inr ())) (cn_sent s) @ replicate 1 (SignalArrived (Inr ()))) demo_outcome = Some (Some (st, Inr ())) \<and>
    map_of (cp_disk st) (connection_dir demo_config (ConnectionId 1 2) @ [''audio.wav'']) = Some (header_of 2 Khz8 @ [1, 2]) \<and>
    map_of (cp_disk st) (connection_dir demo_config (ConnectionId 1 2) @ [''wire.bin'']) = Some (concat demo_chunks)"
proof -
  have pcm: "call_pcm demo_call = [1, 2]" by (simp add: call_pcm_def demo_call_def)
  have bytes: "concat (map (\<lambda>(dst, n, out). take n out) demo_written) = concat demo_chunks"
    by (simp add: demo_written_def demo_chunks_def)
  have id: "ce_id demo_conn = ConnectionId 1 2" by (simp add: demo_conn_def demo_env_def)
  have "\<exists>s st. receive_from demo_conn 16 PCM_8_KHZ (map ReadBytes demo_chunks @ [ReadBytes []]) = Some (Some (s, True)) \<and>
    capture_run demo_capture_env demo_config Signals_new [[''out'']]
      (map (\<lambda>x. Received x (Inr ())) (cn_sent s) @ replicate 1 (SignalArrived (Inr ()))) demo_outcome = Some (Some (st, Inr ())) \<and>
    map_of (cp_disk st) (connection_dir demo_config (ce_id demo_conn) @ [''audio.wav'']) =
      Some (header_of (length (call_pcm demo_call)) Khz8 @ call_pcm demo_call) \<and>
    map_of (cp_disk st) (connection_dir demo_config (ce_id demo_conn) @ [''wire.bin'']) =
      Some (concat (map (\<lambda>(dst, n, out). take n out) demo_written))"
  proof (rule call_is_captured [OF demo_encoded])
    show "concat demo_chunks = concat (map (\<lambda>(dst, n, out). take n out) demo_written)" by (simp add: bytes)
    show "\<forall>m \<in> set (call_of demo_uuid demo_call True). wf_typed m \<and> length (payload (envelope_of m)) \<le> 16"
      by (simp add: call_of_def demo_uuid_def demo_call_def MAX_BODY_BYTES_def)
    show "\<forall>m \<in> set demo_call. call_message m" by (simp add: demo_call_def)
    show "16 \<le> ce_capacity demo_conn" "\<forall>n. ce_accepts demo_conn n"
      "conn_instance (ce_id demo_conn) \<le> U64_MAX" "conn_sequence (ce_id demo_conn) \<le> U64_MAX"
      by (simp_all add: demo_conn_def demo_env_def U64_MAX_def)
    show "list_all (\<lambda>bs. bs \<noteq> [] \<and> length bs \<le> ce_capacity demo_conn) demo_chunks"
      "2 * length (concat demo_chunks) + 2 \<le> U64_MAX" by (simp_all add: demo_chunks_def demo_conn_def demo_env_def U64_MAX_def)
    show "calm_env demo_capture_env" by (simp add: calm_env_def demo_capture_env_def)
    show "limits_suffice demo_config" "0 < cfg_run demo_config" "0 < cfg_active demo_config"
      by (simp_all add: limits_suffice_def demo_config_def U64_MAX_def)
    show "outcome_clean demo_outcome" by (simp add: outcome_clean_def demo_outcome_def RunSummary_default_def)
    show "oc_worker demo_outcome = Some (Inr RunSummary_default)" by (simp add: demo_outcome_def)
    show "\<forall>n \<in> set (run_numbers RunSummary_default). n \<le> U64_MAX" by (simp add: run_numbers_def RunSummary_default_def)
    show "length (concat demo_chunks) \<le> cfg_file demo_config" by (simp add: demo_chunks_def demo_config_def)
    show "44 + length (call_pcm demo_call) \<le> cfg_file demo_config" "length (call_pcm demo_call) + 36 \<le> U32_MAX"
      by (simp_all add: pcm demo_config_def U32_MAX_def)
    show "texts_within 0 (ce_debug demo_capture_env)" by (simp add: texts_within_def demo_capture_env_def demo_texts_def)
    show "(length demo_chunks + length demo_call + 4) * line_bound 0 demo_conn \<le> cfg_file demo_config"
      by (simp add: demo_chunks_def demo_call_def line_bound_def demo_conn_def demo_env_def demo_config_def)
  qed simp
  then show ?thesis unfolding pcm bytes id by (simp add: numeral_2_eq_2)
qed

end
